(* ===== verification/Prelude.thy ===== *)
theory Prelude
  imports Main "HOL-Library.Word"
begin

text \<open>
  Shared vocabulary of the development: the machine-integer types of the C sources, C strings
  as character lists, the scan loop that \<open>fs.c\<close>, \<open>swap.c\<close> and \<open>net.c\<close> use to search their
  tables, little-endian loads and stores, and the lemma collections the components add to.

  A \<open>const char *\<close> argument is the list of the characters from the pointer on; the end of the
  list reads as the terminating NUL, and a NUL inside the list (a buffer with old contents
  behind the terminator) ends the string as well.
\<close>

unbundle bit_operations_syntax

type_synonym u8 = "8 word"
type_synonym u16 = "16 word"
type_synonym u32 = "32 word"

named_theorems frame \<comment> \<open>fields that an operation does not write\<close>
named_theorems bounds \<comment> \<open>lengths and index ranges\<close>
named_theorems inv_intros \<comment> \<open>preservation of component invariants\<close>

section \<open>C strings\<close>

abbreviation NUL :: char where "NUL \<equiv> CHR 0x00"
abbreviation SPC :: char where "SPC \<equiv> CHR '' ''"
abbreviation NL :: char where "NL \<equiv> CHR 0x0A"
abbreviation BS :: char where "BS \<equiv> CHR 0x08"

text \<open>\<open>*s\<close> and \<open>s[i]\<close> for a character pointer.\<close>

definition deref :: "char list \<Rightarrow> char" where
  "deref s = (case s of [] \<Rightarrow> NUL | c # _ \<Rightarrow> c)"

definition charat :: "char list \<Rightarrow> nat \<Rightarrow> char" where
  "charat s i = (if i < length s then s ! i else NUL)"

text \<open>The string a pointer denotes: everything before the first NUL.\<close>

definition cstr :: "char list \<Rightarrow> char list" where
  "cstr s = takeWhile (\<lambda>c. c \<noteq> NUL) s"

lemma deref_simps [simp]: "deref [] = NUL" "deref (c # s) = c"
  by (simp_all add: deref_def)

lemma charat_Nil [simp]: "charat [] i = NUL"
  by (simp add: charat_def)

lemma charat_0 [simp]: "charat (c # s) 0 = c"
  by (simp add: charat_def)

lemma charat_Suc [simp]: "charat (c # s) (Suc i) = charat s i"
  by (simp add: charat_def)

lemma cstr_Nil [simp]: "cstr [] = []"
  by (simp add: cstr_def)

lemma cstr_Cons [simp]: "cstr (c # s) = (if c = NUL then [] else c # cstr s)"
  by (simp add: cstr_def)

lemma cstr_idem [simp]: "cstr (cstr s) = cstr s"
  by (induction s) auto

lemma cstr_no_NUL: "NUL \<notin> set (cstr s)"
  by (induction s) auto

lemma cstr_id: "NUL \<notin> set s \<Longrightarrow> cstr s = s"
  by (induction s) auto

lemma cstr_length_le: "length (cstr s) \<le> length s"
  by (simp add: cstr_def length_takeWhile_le)

lemma cstr_append_NUL: "NUL \<notin> set s \<Longrightarrow> cstr (s @ NUL # t) = s"
  by (induction s) auto

lemma cstr_append: "NUL \<notin> set s \<Longrightarrow> cstr (s @ t) = s @ cstr t"
  by (induction s) auto

lemma deref_NUL_iff: "deref s = NUL \<longleftrightarrow> cstr s = []"
  by (cases s) auto

lemma cstr_take: "cstr (take n s) = take n (cstr s)"
proof (induction s arbitrary: n)
  case (Cons c s)
  then show ?case by (cases n) auto
qed simp

lemma charat_NUL_iff: "charat s i = NUL \<and> (\<forall>j<i. charat s j \<noteq> NUL) \<longleftrightarrow> length (cstr s) = i"
proof (induction s arbitrary: i)
  case (Cons c s)
  show ?case
  proof (cases i)
    case (Suc j)
    have "(\<forall>k<Suc j. charat (c # s) k \<noteq> NUL) \<longleftrightarrow> c \<noteq> NUL \<and> (\<forall>k<j. charat s k \<noteq> NUL)"
      by (metis Suc_less_eq charat_0 charat_Suc not0_implies_Suc zero_less_Suc)
    then show ?thesis using Cons.IH [of j] Suc by auto
  qed simp
qed auto

lemma charat_cstr: "i < length (cstr s) \<Longrightarrow> charat s i = cstr s ! i \<and> cstr s ! i \<noteq> NUL"
proof (induction s arbitrary: i)
  case (Cons c s)
  then show ?case by (cases i) (auto split: if_splits)
qed simp

lemma charat_end: "charat s (length (cstr s)) = NUL"
  by (induction s) auto

section \<open>The search loop \<open>for (i = 0; i < n; i++) if (P i) return i; return -1;\<close>\<close>

definition scan :: "(nat \<Rightarrow> bool) \<Rightarrow> nat \<Rightarrow> int" where
  "scan P n = (case find P [0..<n] of None \<Rightarrow> -1 | Some i \<Rightarrow> int i)"

lemma scan_cases:
  obtains (found) i where "scan P n = int i" "i < n" "P i" "\<forall>j<i. \<not> P j"
  | (none) "scan P n = -1" "\<forall>j<n. \<not> P j"
proof (cases "find P [0..<n]")
  case None
  have "scan P n = -1" using None by (simp only: scan_def option.case)
  moreover have "\<forall>j<n. \<not> P j" using None by (auto simp: find_None_iff)
  ultimately show ?thesis by (rule none)
next
  case (Some i)
  then obtain k where k: "k < length [0..<n]" "P ([0..<n] ! k)" "i = [0..<n] ! k"
      "\<forall>j<k. \<not> P ([0..<n] ! j)"
    by (auto simp: find_Some_iff)
  with Some show ?thesis using found [of i] by (auto simp: scan_def)
qed

lemma scan_foundE:
  assumes "scan P n \<noteq> -1"
  obtains i where "scan P n = int i" "i < n" "P i" "\<forall>j<i. \<not> P j"
  using assms by (cases rule: scan_cases [of P n]) auto

lemma scan_none_iff: "scan P n = -1 \<longleftrightarrow> (\<forall>j<n. \<not> P j)"
  by (rule scan_cases [of P n]) auto

lemma scan_found_iff: "scan P n = int i \<longleftrightarrow> i < n \<and> P i \<and> (\<forall>j<i. \<not> P j)"
proof (rule scan_cases [of P n])
  fix k assume "scan P n = int k" "k < n" "P k" "\<forall>j<k. \<not> P j"
  then show ?thesis by (metis linorder_neqE_nat of_nat_eq_iff)
qed auto

lemma scan_range: "-1 \<le> scan P n \<and> scan P n < int n"
  by (rule scan_cases [of P n]) auto

lemma scan_cong: "(\<And>i. i < n \<Longrightarrow> P i = Q i) \<Longrightarrow> scan P n = scan Q n"
proof -
  assume "\<And>i. i < n \<Longrightarrow> P i = Q i"
  then have "find P [0..<n] = find Q [0..<n]" by (intro find_cong) auto
  then show ?thesis by (simp add: scan_def)
qed

lemma scan_found_nat: "scan P n \<noteq> -1 \<Longrightarrow> nat (scan P n) < n \<and> P (nat (scan P n))
    \<and> int (nat (scan P n)) = scan P n"
  by (rule scan_cases [of P n]) auto

lemma nth_upd: "xs[i := x] ! j = (if i = j \<and> i < length xs then x else xs ! j)"
  by (cases "i < length xs") (auto simp: nth_list_update list_update_beyond)

section \<open>Machine words\<close>

lemma unat_and_mask: "unat (w AND mask n) = unat w mod 2 ^ n"
proof -
  have "unat (w AND mask n) = take_bit n (unat w)"
    by (simp only: take_bit_eq_mask [symmetric] unsigned_take_bit_eq)
  then show ?thesis by (simp add: take_bit_eq_mod)
qed

lemma unat_less_size: "unat w < 2 ^ LENGTH('a)" for w :: "'a::len word"
  by (rule unsigned_less)

lemma unat_ucast: "unat (ucast w :: 'b::len word) = unat w mod 2 ^ LENGTH('b)"
  by (simp add: unsigned_ucast_eq take_bit_eq_mod)

lemma unat_and_15: "unat (w AND 0xF) = unat w mod 16" if "4 \<le> LENGTH('a)" for w :: "'a::len word"
  using unat_and_mask [of w 4] by (simp add: mask_eq_exp_minus_1)

lemma unat_and_255: "unat (w AND 0xFF) = unat w mod 256" if "8 \<le> LENGTH('a)" for w :: "'a::len word"
  using unat_and_mask [of w 8] by (simp add: mask_eq_exp_minus_1)

lemma unat_and_FFFF: "unat (w AND 0xFFFF) = unat w mod 65536" for w :: "'a::len word"
  using unat_and_mask [of w 16] by (simp add: mask_eq_exp_minus_1)

lemma unat_of_nat_small: "n < 2 ^ LENGTH('a) \<Longrightarrow> unat (of_nat n :: 'a::len word) = n"
  by (simp add: unat_of_nat take_bit_nat_eq_self)

lemma unat_plus_small: "unat l + n < 2 ^ LENGTH('a) \<Longrightarrow> unat (l + of_nat n) = unat l + n"
  for l :: "'a::len word"
  by (simp add: unat_word_ariths unat_of_nat take_bit_nat_eq_self)

section \<open>Bytes in memory\<close>

text \<open>x86 is little-endian: a \<open>u16\<close> or \<open>u32\<close> field of a packed struct at byte offset \<open>off\<close>.\<close>

definition load16 :: "u8 list \<Rightarrow> nat \<Rightarrow> u16" where
  "load16 b off = ucast (b ! off) OR push_bit 8 (ucast (b ! (off + 1)))"

definition load32 :: "u8 list \<Rightarrow> nat \<Rightarrow> u32" where
  "load32 b off = ucast (b ! off) OR push_bit 8 (ucast (b ! (off + 1)))
     OR push_bit 16 (ucast (b ! (off + 2))) OR push_bit 24 (ucast (b ! (off + 3)))"

definition store16 :: "nat \<Rightarrow> u16 \<Rightarrow> u8 list \<Rightarrow> u8 list" where
  "store16 off v b = b[off := ucast v, off + 1 := ucast (drop_bit 8 v)]"

definition store32 :: "nat \<Rightarrow> u32 \<Rightarrow> u8 list \<Rightarrow> u8 list" where
  "store32 off v b = b[off := ucast v, off + 1 := ucast (drop_bit 8 v),
     off + 2 := ucast (drop_bit 16 v), off + 3 := ucast (drop_bit 24 v)]"

lemma length_store16 [simp]: "length (store16 off v b) = length b"
  by (simp add: store16_def)

lemma length_store32 [simp]: "length (store32 off v b) = length b"
  by (simp add: store32_def)

lemma combine16: "(ucast (ucast v :: u8) :: u16) OR push_bit 8 (ucast (ucast (drop_bit 8 v) :: u8)) = v"
  for v :: u16
  by (rule bit_word_eqI) (auto simp: bit_simps)

lemma combine32: "(ucast (ucast v :: u8) :: u32) OR push_bit 8 (ucast (ucast (drop_bit 8 v) :: u8))
     OR push_bit 16 (ucast (ucast (drop_bit 16 v) :: u8))
     OR push_bit 24 (ucast (ucast (drop_bit 24 v) :: u8)) = v"
  for v :: u32
proof (rule bit_word_eqI)
  fix n assume "n < LENGTH(32)"
  then consider "n < 8" | "8 \<le> n \<and> n < 16" | "16 \<le> n \<and> n < 24" | "24 \<le> n \<and> n < 32"
    by fastforce
  then show "bit ((ucast (ucast v :: u8) :: u32) OR push_bit 8 (ucast (ucast (drop_bit 8 v) :: u8))
     OR push_bit 16 (ucast (ucast (drop_bit 16 v) :: u8))
     OR push_bit 24 (ucast (ucast (drop_bit 24 v) :: u8))) n \<longleftrightarrow> bit v n"
    by cases (auto simp: bit_simps)
qed

lemma load16_store16 [simp]: "off + 1 < length b \<Longrightarrow> load16 (store16 off v b) off = v"
  by (simp add: load16_def store16_def combine16)

lemma load32_store32 [simp]: "off + 3 < length b \<Longrightarrow> load32 (store32 off v b) off = v"
  by (simp add: load32_def store32_def combine32)

lemma store16_nth_other: "i \<noteq> off \<Longrightarrow> i \<noteq> off + 1 \<Longrightarrow> store16 off v b ! i = b ! i"
  by (simp add: store16_def)

lemma store32_nth_other: "i < off \<or> off + 3 < i \<Longrightarrow> store32 off v b ! i = b ! i"
  by (auto simp: store32_def)

text \<open>Loads do not see stores to other fields.\<close>

lemma load16_store16_other:
  "o1 + 1 < o2 \<or> o2 + 1 < o1 \<Longrightarrow> load16 (store16 o1 v b) o2 = load16 b o2"
  by (auto simp: load16_def store16_nth_other)

lemma load16_store32_other:
  "o1 + 3 < o2 \<or> o2 + 1 < o1 \<Longrightarrow> load16 (store32 o1 v b) o2 = load16 b o2"
  by (auto simp: load16_def store32_nth_other)

lemma load32_store16_other:
  "o1 + 1 < o2 \<or> o2 + 3 < o1 \<Longrightarrow> load32 (store16 o1 v b) o2 = load32 b o2"
  by (auto simp: load32_def store16_nth_other)

lemma load32_store32_other:
  "o1 + 3 < o2 \<or> o2 + 3 < o1 \<Longrightarrow> load32 (store32 o1 v b) o2 = load32 b o2"
  by (auto simp: load32_def store32_nth_other)

lemma load16_update_other: "i \<noteq> off \<Longrightarrow> i \<noteq> off + 1 \<Longrightarrow> load16 (b[i := x]) off = load16 b off"
  by (simp add: load16_def)

lemma load32_update_other: "i < off \<or> off + 3 < i \<Longrightarrow> load32 (b[i := x]) off = load32 b off"
  by (auto simp: load32_def)

lemmas fields = load16_store16 load32_store32 load16_store16_other load16_store32_other
  load32_store16_other load32_store32_other load16_update_other load32_update_other
  store16_nth_other store32_nth_other

section \<open>Bounded tables\<close>

text \<open>
  The contract of a table of at most \<open>cap\<close> keyed entries: an insertion keeps the table well-formed
  and, as long as there is room or the key is known, is an update of the finite map the table
  stands for. What a client may conclude is proved here once.
\<close>

locale bounded_table =
  fixes get :: "'k \<Rightarrow> 's \<Rightarrow> 'v option" and put :: "'k \<Rightarrow> 'v \<Rightarrow> 's \<Rightarrow> 's"
    and ok :: "'s \<Rightarrow> bool" and cap :: nat
  assumes ok_put: "ok s \<Longrightarrow> ok (put k v s)"
    and finite_dom: "ok s \<Longrightarrow> finite (dom (\<lambda>k. get k s))"
    and get_put: "ok s \<Longrightarrow> get k s \<noteq> None \<or> card (dom (\<lambda>k. get k s)) < cap \<Longrightarrow>
      get j (put k v s) = (if j = k then Some v else get j s)"
begin

lemma ok_puts: "ok s \<Longrightarrow> ok (fold (\<lambda>kv. put (fst kv) (snd kv)) kvs s)"
  by (induction kvs arbitrary: s) (simp_all add: ok_put)

lemma dom_put:
  "ok s \<Longrightarrow> get k s \<noteq> None \<or> card (dom (\<lambda>k. get k s)) < cap \<Longrightarrow>
    dom (\<lambda>j. get j (put k v s)) = insert k (dom (\<lambda>j. get j s))"
  by (auto simp: get_put split: if_splits)

text \<open>A sequence of insertions of keys that all fit leaves the latest value of every key.\<close>

lemma get_puts:
  assumes "ok s" and "card (dom (\<lambda>k. get k s) \<union> fst ` set kvs) \<le> cap"
  shows "get j (fold (\<lambda>kv. put (fst kv) (snd kv)) kvs s) = (case map_of (rev kvs) j of None \<Rightarrow> get j s | Some v \<Rightarrow> Some v)"
  using assms
proof (induction kvs arbitrary: s)
  case Nil
  then show ?case by simp
next
  case (Cons kv kvs)
  obtain k v where kv: "kv = (k, v)" by (cases kv)
  let ?D = "dom (\<lambda>k. get k s)"
  have fin: "finite ?D" using finite_dom [OF Cons.prems(1)] .
  have room: "get k s \<noteq> None \<or> card ?D < cap"
  proof (rule ccontr)
    assume "\<not> (get k s \<noteq> None \<or> card ?D < cap)"
    then have k: "k \<notin> ?D" and c: "cap \<le> card ?D" by auto
    have "card (insert k ?D) \<le> card (?D \<union> fst ` set (kv # kvs))"
      using fin by (intro card_mono) (auto simp: kv)
    with k c fin Cons.prems(2) show False by simp
  qed
  have "dom (\<lambda>j. get j (put k v s)) \<union> fst ` set kvs = ?D \<union> fst ` set (kv # kvs)"
    unfolding dom_put [OF Cons.prems(1) room] by (auto simp: kv)
  then have "get j (fold (\<lambda>kv. put (fst kv) (snd kv)) kvs (put k v s))
      = (case map_of (rev kvs) j of None \<Rightarrow> get j (put k v s) | Some w \<Rightarrow> Some w)"
    using Cons.IH [OF ok_put [OF Cons.prems(1)]] Cons.prems(2) by simp
  then show ?case
    using get_put [OF Cons.prems(1) room]
    by (auto simp: kv map_add_def split: option.splits)
qed

end

end
