(* ===== verification/Console.thy ===== *)
theory Console
  imports Prelude
begin

text \<open>
  Ports, physical memory and the text console: \<open>read_port\<close> and \<open>write_port\<close> of \<open>start.asm\<close>, the
  printing routines at the top of \<open>kernel.c\<close> and the number printers of \<open>net.c\<close>.

  Devices are not part of the repository. A device is a function of the history of port accesses
  (newest first): what it answers at a port, and what its DMA engine has written into the receive
  buffer of the driver. Both are fields of the parameter \<open>hw\<close>, as are the link addresses that
  the driver and the IDT hand to the hardware. The kernel's globals are one record, which every
  later theory extends with the globals of its C file.
\<close>

datatype io_event = Out u16 u8 | In u16 u8

record hw =
  hw_in :: "io_event list \<Rightarrow> u16 \<Rightarrow> u8"
  hw_rxbuf :: "io_event list \<Rightarrow> nat \<Rightarrow> u8"
  addr_rx_buf :: u32
  addr_tx_buf :: u32
  addr_page_directory :: u32
  addr_first_page_table :: u32
  addr_idt :: u32
  addr_timer_handler :: u32
  addr_keyboard_handler :: u32
  addr_mouse_handler :: u32
  addr_page_fault_stub :: u32
  bytes_after_cmd_buffer :: "u8 list"

text \<open>A board for the examples: nothing answers (an idle bus reads 0xFF everywhere, so no PCI device
  is found and the receive buffer reads as empty); the link addresses are page-aligned.\<close>

definition idle_board :: hw where
  "idle_board = \<lparr>hw_in = (\<lambda>_ _. 0xFF), hw_rxbuf = (\<lambda>_ _. 0),
     addr_rx_buf = 0x110000, addr_tx_buf = 0x11A000,
     addr_page_directory = 0x120000, addr_first_page_table = 0x121000, addr_idt = 0x122000,
     addr_timer_handler = 0x101000, addr_keyboard_handler = 0x101100,
     addr_mouse_handler = 0x101200, addr_page_fault_stub = 0x101300,
     bytes_after_cmd_buffer = replicate 20 0\<rparr>"

record machine =
  io :: "io_event list"
  mem :: "u32 \<Rightarrow> u8"
  current_loc :: u32

section \<open>Ports and memory\<close>

definition write_port :: "u16 \<Rightarrow> u8 \<Rightarrow> 'a machine_scheme \<Rightarrow> 'a machine_scheme" where
  "write_port p d s = s\<lparr>io := Out p d # io s\<rparr>"

definition read_port :: "hw \<Rightarrow> u16 \<Rightarrow> 'a machine_scheme \<Rightarrow> u8 \<times> 'a machine_scheme" where
  "read_port h p s = (let v = hw_in h (io s) p in (v, s\<lparr>io := In p v # io s\<rparr>))"

definition poke :: "u32 \<Rightarrow> u8 \<Rightarrow> 'a machine_scheme \<Rightarrow> 'a machine_scheme" where
  "poke a v s = s\<lparr>mem := (mem s)(a := v)\<rparr>"

text \<open>The bytes written to ports, in the order in which they were written.\<close>

definition outs :: "io_event list \<Rightarrow> (u16 \<times> u8) list" where
  "outs tr = concat (map (\<lambda>e. case e of Out p v \<Rightarrow> [(p, v)] | In _ _ \<Rightarrow> []) (rev tr))"

lemma outs_append [simp]: "outs (a @ b) = outs b @ outs a"
  by (simp add: outs_def)

lemma outs_event [simp]: "outs (In p v # tr) = outs tr" "outs (Out p v # tr) = outs tr @ [(p, v)]" "outs [] = []"
  by (simp_all add: outs_def)

lemma outs_write [simp]: "outs (io (write_port p v s)) = outs (io s) @ [(p, v)]"
  by (simp add: outs_def write_port_def)

lemma outs_read [simp]: "outs (io (snd (read_port h p s))) = outs (io s)"
  by (simp add: outs_def read_port_def Let_def)

lemma io_length [simp]:
  "length (io (write_port p v s)) = length (io s) + 1" "length (io (snd (read_port h p s))) = length (io s) + 1"
  by (simp_all add: write_port_def read_port_def Let_def)

text \<open>The global \<open>char *vidptr\<close>, which no code reassigns.\<close>

definition vidptr :: u32 where
  "vidptr = 0xb8000"

section \<open>kprint\<close>

text \<open>The body of the loop of \<open>kprint\<close>; \<open>erase_cell\<close> is its backspace branch, which the line
  editor of \<open>kernel.c\<close> repeats. The cursor has no upper bound in the code, and a store goes to whatever
  address it points to: from 0x48000 on (after some 1840 lines of output) that is the image of the kernel
  at 1 MB, and beyond 4 MB it faults. The globals of the kernel are fields of the record and not part of \<open>mem\<close>,
  so the model shows such a store as a store to that address and not as a change of a global.\<close>

definition erase_cell :: "'a machine_scheme \<Rightarrow> 'a machine_scheme" where
  "erase_cell s =
     (if 2 \<le> current_loc s then
        let l = current_loc s - 2
        in poke (vidptr + (l + 1)) 0x07 (poke (vidptr + l) 0x20 (s\<lparr>current_loc := l\<rparr>))
      else s)"

definition kputc :: "char \<Rightarrow> 'a machine_scheme \<Rightarrow> 'a machine_scheme" where
  "kputc c s =
     (let s1 = write_port 0x3F8 (of_char c) s in
      if c = NL then s1\<lparr>current_loc := current_loc s1 + (160 - current_loc s1 mod 160)\<rparr>
      else if c = BS then erase_cell s1
      else
        let s2 = (poke (vidptr + current_loc s1) (of_char c) s1)\<lparr>current_loc := current_loc s1 + 1\<rparr>
        in (poke (vidptr + current_loc s2) 0x07 s2)\<lparr>current_loc := current_loc s2 + 1\<rparr>)"

fun kprint :: "char list \<Rightarrow> 'a machine_scheme \<Rightarrow> 'a machine_scheme" where
  "kprint [] s = s"
| "kprint (c # cs) s = (if c = NUL then s else kprint cs (kputc c s))"

text \<open>\<open>clear_screen\<close>: the loop over \<open>j = 0, 2, \<dots>, 3998\<close>.\<close>

definition clear_screen :: "'a machine_scheme \<Rightarrow> 'a machine_scheme" where
  "clear_screen s =
     (fold (\<lambda>j s. poke (vidptr + of_nat (2 * j + 1)) 0x07 (poke (vidptr + of_nat (2 * j)) 0x20 s))
        [0..<2000] s)\<lparr>current_loc := 0\<rparr>"

section \<open>kprint_hex and kprint_dec\<close>

definition hex_digit :: "u8 \<Rightarrow> char" where
  "hex_digit d = (if d < 10 then char_of (unat (d + 48)) else char_of (unat (d - 10 + 65)))"

text \<open>\<open>while (temp > 0)\<close> of \<open>kprint_hex\<close>: the digits in the order they enter \<open>temp_buf\<close>.\<close>

function hex_loop :: "u32 \<Rightarrow> char list" where
  "hex_loop temp =
     (if temp = 0 then [] else hex_digit (ucast (temp AND 0xF)) # hex_loop (drop_bit 4 temp))"
  by pat_completeness auto
termination
proof (relation "measure unat")
  fix temp :: u32 assume "temp \<noteq> 0"
  then have "0 < unat temp" by (simp add: unat_gt_0)
  then show "(drop_bit 4 temp, temp) \<in> measure unat"
    by (simp add: unat_drop_bit_eq drop_bit_eq_div unat_div)
qed simp

declare hex_loop.simps [simp del]

definition hex_string :: "u32 \<Rightarrow> char list" where
  "hex_string val = ''0x'' @ (if val = 0 then ''0'' else rev (hex_loop val))"

definition kprint_hex :: "u32 \<Rightarrow> 'a machine_scheme \<Rightarrow> 'a machine_scheme" where
  "kprint_hex val s = kprint (hex_string val) s"

text \<open>\<open>while (v)\<close> of \<open>kprint_dec\<close>: the digits in the order they enter \<open>buf\<close>; the second loop
  prints them from the last to the first, one string of length one each.\<close>

function dec_loop :: "u32 \<Rightarrow> char list" where
  "dec_loop v = (if v = 0 then [] else char_of (unat (v mod 10 + 48)) # dec_loop (v div 10))"
  by pat_completeness auto
termination
proof (relation "measure unat")
  fix v :: u32 assume "v \<noteq> 0"
  then have "0 < unat v" by (simp add: unat_gt_0)
  then show "(v div 10, v) \<in> measure unat" by (simp add: unat_div)
qed simp

declare dec_loop.simps [simp del]

definition kprint_dec :: "u32 \<Rightarrow> 'a machine_scheme \<Rightarrow> 'a machine_scheme" where
  "kprint_dec v s =
     (if v = 0 then kprint ''0'' s else fold (\<lambda>c s. kprint [c, NUL] s) (rev (dec_loop v)) s)"

definition kprint_ip :: "u32 \<Rightarrow> 'a machine_scheme \<Rightarrow> 'a machine_scheme" where
  "kprint_ip ip s =
     (let s = kprint_dec (drop_bit 24 ip AND 0xFF) s; s = kprint ''.'' s;
          s = kprint_dec (drop_bit 16 ip AND 0xFF) s; s = kprint ''.'' s;
          s = kprint_dec (drop_bit 8 ip AND 0xFF) s; s = kprint ''.'' s
      in kprint_dec (ip AND 0xFF) s)"

definition mac_digit :: "u8 \<Rightarrow> char" where
  "mac_digit d = (if d < 10 then char_of (unat (48 + d)) else char_of (unat (65 + d - 10)))"

fun kprint_mac_from :: "nat \<Rightarrow> u8 list \<Rightarrow> 'a machine_scheme \<Rightarrow> 'a machine_scheme" where
  "kprint_mac_from i [] s = s"
| "kprint_mac_from i (b # bs) s =
     (let s = kprint [mac_digit (drop_bit 4 b AND 0xF), NUL] s;
          s = kprint [mac_digit (b AND 0xF), NUL] s;
          s = (if i < 5 then kprint '':'' s else s)
      in kprint_mac_from (i + 1) bs s)"

definition kprint_mac :: "u8 list \<Rightarrow> 'a machine_scheme \<Rightarrow> 'a machine_scheme" where
  "kprint_mac m s = kprint_mac_from 0 m s"


section \<open>The console contract\<close>

text \<open>
  What every client of the console relies on: a console operation writes the port trace, memory
  and the cursor, and no other global. The clients extend the record with their own fields, so
  the contract is stated as an update of the three fields. The trace only grows.
\<close>

locale console_op =
  fixes f :: "'a machine_scheme \<Rightarrow> 'a machine_scheme"
  assumes upd: "\<exists>i m l. f s = s\<lparr>io := i @ io s, mem := m, current_loc := l\<rparr>"
begin

lemma unaffected:
  assumes "\<And>i m l. g (s\<lparr>io := i @ io s, mem := m, current_loc := l\<rparr>) = g s"
  shows "g (f s) = g s"
  using upd [of s] assms by auto

lemma trace: "\<exists>i. io (f s) = i @ io s"
  using upd [of s] by auto

end

lemma console_op_id: "console_op (\<lambda>s. s)"
proof
  show "\<exists>i m l. s = s\<lparr>io := i @ io s, mem := m, current_loc := l\<rparr>" for s :: "'a machine_scheme"
    by (rule exI [of _ "[]"], rule exI [of _ "mem s"], rule exI [of _ "current_loc s"]) simp
qed

lemma console_op_comp:
  assumes "console_op f" and "console_op g"
  shows "console_op (\<lambda>s. f (g s))"
proof
  fix s
  obtain i m l where "g s = s\<lparr>io := i @ io s, mem := m, current_loc := l\<rparr>"
    using console_op.upd [OF assms(2)] by blast
  moreover obtain i' m' l' where "f (g s) = (g s)\<lparr>io := i' @ io (g s), mem := m', current_loc := l'\<rparr>"
    using console_op.upd [OF assms(1)] by blast
  ultimately have "f (g s) = s\<lparr>io := (i' @ i) @ io s, mem := m', current_loc := l'\<rparr>" by simp
  then show "\<exists>i m l. f (g s) = s\<lparr>io := i @ io s, mem := m, current_loc := l\<rparr>" by blast
qed

lemma console_op_if:
  assumes "console_op f" and "console_op g"
  shows "console_op (\<lambda>s. if P s then f s else g s)"
  using assms unfolding console_op_def by simp

lemma console_op_fold: "(\<And>x. console_op (F x)) \<Longrightarrow> console_op (fold F xs)"
proof (induction xs)
  case Nil
  then show ?case using console_op_id by (simp add: id_def)
next
  case (Cons x xs)
  have "console_op (\<lambda>s. fold F xs (F x s))"
    by (rule console_op_comp [of "fold F xs" "F x"]) (use Cons in auto)
  then show ?case by (simp add: comp_def)
qed

lemma console_op_write_port: "console_op (write_port p d)"
proof
  fix s :: "'a machine_scheme"
  have "write_port p d s = s\<lparr>io := [Out p d] @ io s, mem := mem s, current_loc := current_loc s\<rparr>"
    by (simp add: write_port_def)
  then show "\<exists>i m l. write_port p d s = s\<lparr>io := i @ io s, mem := m, current_loc := l\<rparr>" by blast
qed

lemma console_op_read_port: "console_op (\<lambda>s. snd (read_port h p s))"
proof
  fix s :: "'a machine_scheme"
  have "snd (read_port h p s)
      = s\<lparr>io := [In p (hw_in h (io s) p)] @ io s, mem := mem s, current_loc := current_loc s\<rparr>"
    by (simp add: read_port_def Let_def)
  then show "\<exists>i m l. snd (read_port h p s) = s\<lparr>io := i @ io s, mem := m, current_loc := l\<rparr>" by blast
qed

lemma console_op_poke: "console_op (poke a v)"
proof
  fix s :: "'a machine_scheme"
  have "poke a v s = s\<lparr>io := [] @ io s, mem := (mem s)(a := v), current_loc := current_loc s\<rparr>"
    by (simp add: poke_def)
  then show "\<exists>i m l. poke a v s = s\<lparr>io := i @ io s, mem := m, current_loc := l\<rparr>" by blast
qed

lemma console_op_erase_cell: "console_op erase_cell"
proof
  fix s :: "'a machine_scheme"
  have "erase_cell s = s\<lparr>io := [] @ io s, mem := mem (erase_cell s), current_loc := current_loc (erase_cell s)\<rparr>"
    by (simp add: erase_cell_def poke_def Let_def)
  then show "\<exists>i m l. erase_cell s = s\<lparr>io := i @ io s, mem := m, current_loc := l\<rparr>" by blast
qed

lemma console_op_kputc: "console_op (kputc c)"
proof
  fix s :: "'a machine_scheme"
  have "kputc c s
      = s\<lparr>io := [Out 0x3F8 (of_char c)] @ io s, mem := mem (kputc c s), current_loc := current_loc (kputc c s)\<rparr>"
    by (simp add: kputc_def erase_cell_def poke_def write_port_def Let_def)
  then show "\<exists>i m l. kputc c s = s\<lparr>io := i @ io s, mem := m, current_loc := l\<rparr>" by blast
qed

lemma console_op_kprint: "console_op (kprint str :: 'a machine_scheme \<Rightarrow> _)"
proof (induction str)
  case Nil
  then show ?case using console_op_id by simp
next
  case (Cons c cs)
  have "console_op (\<lambda>s :: 'a machine_scheme. kprint cs (kputc c s))"
    by (rule console_op_comp [OF Cons console_op_kputc])
  then show ?case using console_op_id by (cases "c = NUL") simp_all
qed

lemma console_op_clear_screen: "console_op clear_screen"
proof -
  have F: "console_op (fold (\<lambda>j s. poke (vidptr + of_nat (2 * j + 1)) 0x07
              (poke (vidptr + of_nat (2 * j)) 0x20 s)) [0..<2000])"
    by (intro console_op_fold console_op_comp [OF console_op_poke console_op_poke])
  show ?thesis
  proof
    fix s :: "'a machine_scheme"
    obtain i m l where "fold (\<lambda>j s. poke (vidptr + of_nat (2 * j + 1)) 0x07
              (poke (vidptr + of_nat (2 * j)) 0x20 s)) [0..<2000] s
          = s\<lparr>io := i @ io s, mem := m, current_loc := l\<rparr>"
      using console_op.upd [OF F] by blast
    then have "clear_screen s = s\<lparr>io := i @ io s, mem := m, current_loc := 0\<rparr>"
      by (simp only: clear_screen_def) simp
    then show "\<exists>i m l. clear_screen s = s\<lparr>io := i @ io s, mem := m, current_loc := l\<rparr>" by blast
  qed
qed

text \<open>The decimal printer prints one string.\<close>

definition dec_string :: "u32 \<Rightarrow> char list" where
  "dec_string v = (if v = 0 then ''0'' else rev (dec_loop v))"

definition ip_string :: "u32 \<Rightarrow> char list" where
  "ip_string ip = dec_string (drop_bit 24 ip AND 0xFF) @ ''.'' @ dec_string (drop_bit 16 ip AND 0xFF)
     @ ''.'' @ dec_string (drop_bit 8 ip AND 0xFF) @ ''.'' @ dec_string (ip AND 0xFF)"

lemma kprint_append: "NUL \<notin> set a \<Longrightarrow> kprint (a @ b) s = kprint b (kprint a s)"
  by (induction a arbitrary: s) auto

lemma kprint_cstr: "kprint (cstr str) s = kprint str s"
  by (induction str arbitrary: s) auto

lemma fold_kprint_chars: "NUL \<notin> set cs \<Longrightarrow> fold (\<lambda>c s. kprint [c, NUL] s) cs s = kprint cs s"
  by (induction cs arbitrary: s) auto

lemma dec_digit_range: "unat (v mod 10 + 48) < 58 \<and> 48 \<le> unat (v mod 10 + 48)
    \<and> unat (v mod 10 + 48) = unat v mod 10 + 48" for v :: u32
proof -
  have "unat (v mod 10) = unat v mod 10" by (simp add: unat_mod)
  then have "unat (v mod 10 + 48) = unat v mod 10 + 48"
    by (simp add: unat_word_ariths)
  then show ?thesis by simp
qed

lemma dec_loop_chars: "c \<in> set (dec_loop v) \<Longrightarrow> 48 \<le> (of_char c :: nat) \<and> (of_char c :: nat) < 58"
proof (induction v rule: dec_loop.induct)
  case (1 v)
  show ?case
  proof (cases "v = 0")
    case True
    with "1.prems" show ?thesis by (simp add: dec_loop.simps)
  next
    case False
    with "1.prems" consider "c = char_of (unat (v mod 10 + 48))" | "c \<in> set (dec_loop (v div 10))"
      by (subst (asm) dec_loop.simps) auto
    then show ?thesis
    proof cases
      case 1
      then show ?thesis using dec_digit_range [of v] by (simp add: of_char_of)
    next
      case 2
      then show ?thesis using "1.IH" False by blast
    qed
  qed
qed

lemma dec_string_chars: "c \<in> set (dec_string v) \<Longrightarrow> 48 \<le> (of_char c :: nat) \<and> (of_char c :: nat) < 58"
  by (auto simp: dec_string_def dest: dec_loop_chars split: if_splits)

lemma NUL_notin_dec_string: "NUL \<notin> set (dec_string v)"
  using dec_string_chars [of NUL v] by auto

lemma kprint_dec_string: "kprint_dec v s = kprint (dec_string v) s"
  using NUL_notin_dec_string [of v] fold_kprint_chars [of "rev (dec_loop v)" s]
  by (cases "v = 0") (simp_all add: kprint_dec_def dec_string_def del: kprint.simps)

lemma kprint_ip_string: "kprint_ip ip s = kprint (ip_string ip) s"
  by (simp add: kprint_ip_def ip_string_def kprint_dec_string kprint_append NUL_notin_dec_string
      Let_def)

lemma console_op_kprint_hex: "console_op (kprint_hex v)"
  using console_op_kprint [of "hex_string v"] by (simp add: kprint_hex_def [abs_def])

lemma console_op_kprint_dec: "console_op (kprint_dec v)"
  using console_op_kprint [of "dec_string v"] by (simp add: kprint_dec_string [abs_def])

lemma console_op_kprint_ip: "console_op (kprint_ip v)"
  using console_op_kprint [of "ip_string v"] by (simp add: kprint_ip_string [abs_def])

lemma console_op_kprint_mac: "console_op (kprint_mac m :: 'a machine_scheme \<Rightarrow> _)"
proof -
  have "console_op (kprint_mac_from i m :: 'a machine_scheme \<Rightarrow> _)" for i
  proof (induction m arbitrary: i)
    case Nil
    then show ?case using console_op_id by simp
  next
    case (Cons b bs)
    have "console_op (\<lambda>s :: 'a machine_scheme. kprint_mac_from (i + 1) bs (if i < 5 then kprint '':'' s else s))"
      by (rule console_op_comp [OF Cons [of "i + 1"]])
         (rule console_op_if [OF console_op_kprint console_op_id])
    from console_op_comp [OF this console_op_comp [OF console_op_kprint console_op_kprint]]
    show ?case by (simp add: Let_def del: kprint.simps)
  qed
  from this [of 0] show ?thesis by (simp add: kprint_mac_def [abs_def])
qed

interpretation wp: console_op "write_port p d" for p d by (rule console_op_write_port)
interpretation rp: console_op "\<lambda>s. snd (read_port h p s)" for h p by (rule console_op_read_port)
interpretation pk: console_op "poke a v" for a v by (rule console_op_poke)
interpretation er: console_op erase_cell by (rule console_op_erase_cell)
interpretation kc: console_op "kputc c" for c by (rule console_op_kputc)
interpretation kp: console_op "kprint str" for str by (rule console_op_kprint)
interpretation kh: console_op "kprint_hex v" for v by (rule console_op_kprint_hex)
interpretation kd: console_op "kprint_dec v" for v by (rule console_op_kprint_dec)
interpretation ki: console_op "kprint_ip v" for v by (rule console_op_kprint_ip)
interpretation km: console_op "kprint_mac m" for m by (rule console_op_kprint_mac)
interpretation cs: console_op clear_screen by (rule console_op_clear_screen)

lemmas console_unaffected = wp.unaffected rp.unaffected pk.unaffected er.unaffected kc.unaffected kp.unaffected
  kh.unaffected kd.unaffected ki.unaffected km.unaffected cs.unaffected


section \<open>Functional behaviour of the printers\<close>

lemma io_poke [simp]: "io (poke a v s) = io s"
  by (simp add: poke_def)

lemma current_loc_poke [simp]: "current_loc (poke a v s) = current_loc s"
  by (simp add: poke_def)

lemma mem_poke [simp]: "mem (poke a v s) = (mem s)(a := v)"
  by (simp add: poke_def)

lemma io_erase_cell [simp]: "io (erase_cell s) = io s"
  by (simp add: erase_cell_def Let_def)

lemma io_kputc: "io (kputc c s) = Out 0x3F8 (of_char c) # io s"
  by (simp add: kputc_def write_port_def Let_def)

text \<open>everything \<open>kprint\<close> prints is echoed on the serial port, byte for byte and in order,
  up to the terminating NUL; \<open>kprint\<close> does no other port access.\<close>

theorem kprint_serial_echo:
  "io (kprint str s) = rev (map (\<lambda>c. Out 0x3F8 (of_char c)) (cstr str)) @ io s"
  by (induction str arbitrary: s) (auto simp: io_kputc)

text \<open>The cursor as a number, and the condition under which a string stays on the 80 by 25
  screen (4000 bytes).\<close>

definition adv :: "char \<Rightarrow> nat \<Rightarrow> nat" where
  "adv c l = (if c = NL then l + (160 - l mod 160)
              else if c = BS then (if 2 \<le> l then l - 2 else l) else l + 2)"

fun fits :: "char list \<Rightarrow> nat \<Rightarrow> bool" where
  "fits [] l = (l \<le> 4000)"
| "fits (c # cs) l = (l \<le> 4000 \<and> (c = NUL \<or> fits cs (adv c l)))"

lemma fits_le: "fits str l \<Longrightarrow> l \<le> 4000"
  by (cases str) auto

lemma vid_cell_inside: "unat l < 4000 \<Longrightarrow> unat (vidptr + l - vidptr) < 4000" for l :: u32
  by simp

lemma erase_cell_cursor:
  assumes "unat (current_loc s) \<le> 4000"
  shows "unat (current_loc (erase_cell s)) = adv BS (unat (current_loc s))"
    and "\<And>a. 4000 \<le> unat (a - vidptr) \<Longrightarrow> mem (erase_cell s) a = mem s a"
proof -
  have two: "2 \<le> current_loc s \<longleftrightarrow> 2 \<le> unat (current_loc s)"
    by (simp add: word_le_nat_alt)
  have sub: "unat (current_loc s - 2) = unat (current_loc s) - 2" if "2 \<le> unat (current_loc s)"
    using that two by (simp add: unat_sub)
  show "unat (current_loc (erase_cell s)) = adv BS (unat (current_loc s))"
    using two sub by (auto simp: erase_cell_def adv_def Let_def)
  fix a assume a: "4000 \<le> unat (a - vidptr)"
  have "a \<noteq> vidptr + (current_loc s - 2)" if "2 \<le> unat (current_loc s)"
    using a sub [OF that] assms by auto
  moreover have "a \<noteq> vidptr + (current_loc s - 2 + 1)" if "2 \<le> unat (current_loc s)"
    using a sub [OF that] assms that unat_plus_small [of "current_loc s - 2" 1] by auto
  ultimately show "mem (erase_cell s) a = mem s a"
    using two by (auto simp: erase_cell_def Let_def)
qed

lemma kputc_cursor:
  assumes "unat (current_loc s) \<le> 4000" and "adv c (unat (current_loc s)) \<le> 4000"
  shows "unat (current_loc (kputc c s)) = adv c (unat (current_loc s))"
    and "\<And>a. 4000 \<le> unat (a - vidptr) \<Longrightarrow> mem (kputc c s) a = mem s a"
proof -
  let ?l = "current_loc s"
  let ?s1 = "write_port 0x3F8 (of_char c) s"
  have s1: "current_loc ?s1 = ?l" "mem ?s1 = mem s" by (simp_all add: write_port_def)
  consider (nl) "c = NL" | (bs) "c = BS" | (vis) "c \<noteq> NL" "c \<noteq> BS" by blast
  then have "unat (current_loc (kputc c s)) = adv c (unat ?l)
      \<and> (\<forall>a. 4000 \<le> unat (a - vidptr) \<longrightarrow> mem (kputc c s) a = mem s a)"
  proof cases
    case nl
    have m: "unat (?l mod 160) = unat ?l mod 160" by (simp add: unat_mod)
    then have "?l mod 160 \<le> 160" by (simp add: word_le_nat_alt)
    then have "unat (160 - ?l mod 160) = 160 - unat ?l mod 160"
      using m by (simp add: unat_sub)
    then have "unat (?l + (160 - ?l mod 160)) = unat ?l + (160 - unat ?l mod 160)"
      using assms(1) by (simp add: unat_word_ariths)
    then show ?thesis using nl s1 by (simp add: kputc_def adv_def Let_def)
  next
    case bs
    then show ?thesis using erase_cell_cursor [of ?s1] assms s1 by (simp add: kputc_def)
  next
    case vis
    with assms have lt: "unat ?l + 2 \<le> 4000" by (simp add: adv_def)
    then have l1: "unat (?l + 1) = unat ?l + 1" and l2: "unat (2 + ?l) = unat ?l + 2"
      using unat_plus_small [of ?l 1] unat_plus_small [of ?l 2] by (simp_all add: add.commute [of 2])
    have "mem (kputc c s) a = mem s a" if a: "4000 \<le> unat (a - vidptr)" for a
    proof -
      have "a \<noteq> vidptr + ?l" and "a \<noteq> vidptr + (?l + 1)" using a lt l1 by auto
      then show ?thesis using vis s1 by (simp add: kputc_def Let_def)
    qed
    then show ?thesis using vis s1 l2 by (simp add: kputc_def adv_def Let_def add.commute [of _ 2])
  qed
  then show "unat (current_loc (kputc c s)) = adv c (unat ?l)"
    and "\<And>a. 4000 \<le> unat (a - vidptr) \<Longrightarrow> mem (kputc c s) a = mem s a" by auto
qed

text \<open>C36: as long as the text fits on the screen, \<open>kprint\<close> writes no byte outside the 4000 bytes
  of the text page and leaves the cursor where the layout rules say.\<close>

theorem kprint_within_screen:
  assumes "fits str (unat (current_loc s))"
  shows "unat (current_loc (kprint str s)) = fold adv (cstr str) (unat (current_loc s))
     \<and> (\<forall>a. 4000 \<le> unat (a - vidptr) \<longrightarrow> mem (kprint str s) a = mem s a)"
  using assms
proof (induction str arbitrary: s)
  case Nil
  then show ?case by simp
next
  case (Cons c cs)
  show ?case
  proof (cases "c = NUL")
    case False
    with Cons.prems have f: "unat (current_loc s) \<le> 4000" "fits cs (adv c (unat (current_loc s)))"
      by auto
    note k = kputc_cursor [OF f(1) fits_le [OF f(2)]]
    have "fits cs (unat (current_loc (kputc c s)))" using f k by simp
    from Cons.IH [OF this] show ?thesis using False k by simp
  qed simp
qed

theorem kprint_within_screen_witness:
  fixes s :: machine
  defines "s \<equiv> \<lparr>io = [], mem = (\<lambda>_. 0), current_loc = 3840\<rparr>"
  shows "unat (current_loc (kprint ''OS> '' s)) = 3848"
  using kprint_within_screen [of "''OS> ''" s] by (simp add: s_def adv_def)

text \<open>\<open>kprint\<close> has no bottom of the screen: a visible character goes to the cell under the
  cursor wherever the cursor is, also at and beyond byte 4000, and the cursor moves on.\<close>

theorem kprint_no_scroll:
  assumes "c \<noteq> NUL" and "c \<noteq> NL" and "c \<noteq> BS"
  shows "mem (kprint [c] s) = (mem s)(vidptr + current_loc s := of_char c,
            vidptr + (current_loc s + 1) := 0x07)
     \<and> current_loc (kprint [c] s) = current_loc s + 2"
  using assms by (simp add: kputc_def Let_def write_port_def add.assoc)

theorem kprint_no_scroll_witness:
  fixes s :: machine
  defines "s \<equiv> \<lparr>io = [], mem = (\<lambda>_. 0), current_loc = 4000\<rparr>"
  shows "mem (kprint ''A'' s) (vidptr + 4000) = 0x41 \<and> current_loc (kprint ''A'' s) = 4002"
  using kprint_no_scroll [of "CHR ''A''" s] by (simp add: s_def vidptr_def)


lemma clear_fold:
  assumes "n \<le> 2000"
  shows "mem (fold (\<lambda>j s. poke (vidptr + of_nat (2 * j + 1)) 0x07
             (poke (vidptr + of_nat (2 * j)) 0x20 s)) [0..<n] s) a =
     (if unat (a - vidptr) < 2 * n then (if even (unat (a - vidptr)) then 0x20 else 0x07)
      else mem s a)"
  using assms
proof (induction n)
  case (Suc n)
  have u: "unat (of_nat (2 * n) :: u32) = 2 * n" "unat (of_nat (2 * n + 1) :: u32) = 2 * n + 1"
    by (rule unat_of_nat_small, use Suc.prems in simp)+
  have e: "a = vidptr + of_nat k \<longleftrightarrow> unat (a - vidptr) = k" if "unat (of_nat k :: u32) = k" for k
  proof
    assume "unat (a - vidptr) = k"
    then have "a - vidptr = of_nat k" by auto
    then show "a = vidptr + of_nat k" by (simp add: algebra_simps)
  qed (use that in simp)
  have e2: "a = vidptr + of_nat (Suc (2 * n)) \<longleftrightarrow> unat (a - vidptr) = Suc (2 * n)"
    using e [OF u(2)] by (simp only: Suc_eq_plus1)
  note e = e [OF u(1)] e2
  show ?case
    using Suc by (auto simp: e less_Suc_eq simp del: of_nat_mult of_nat_add of_nat_Suc)
qed simp

text \<open>\<open>clear_screen\<close> fills all 2000 cells with a blank in colour 0x07, writes nothing outside
  the 4000 bytes of the text page, and homes the cursor.\<close>

theorem clear_screen_blank:
  "current_loc (clear_screen s) = 0
   \<and> mem (clear_screen s) = (\<lambda>a. if unat (a - vidptr) < 4000
        then (if even (unat (a - vidptr)) then 0x20 else 0x07) else mem s a)"
  using clear_fold [of 2000 s] by (simp add: clear_screen_def fun_eq_iff)

definition dec_val :: "char list \<Rightarrow> nat" where
  "dec_val cs = fold (\<lambda>c v. 10 * v + (of_char c - 48)) cs 0"

definition hex_digit_val :: "char \<Rightarrow> nat" where
  "hex_digit_val c = (if (of_char c :: nat) < 58 then of_char c - 48 else of_char c - 55)"

definition hex_val :: "char list \<Rightarrow> nat" where
  "hex_val cs = fold (\<lambda>c v. 16 * v + hex_digit_val c) cs 0"

lemma dec_loop_val: "foldr (\<lambda>c v. 10 * v + (of_char c - 48)) (dec_loop v) 0 = unat v"
proof (induction v rule: dec_loop.induct)
  case (1 v)
  show ?case
  proof (cases "v = 0")
    case True
    then show ?thesis by (simp add: dec_loop.simps)
  next
    case False
    then have "foldr (\<lambda>c v. 10 * v + (of_char c - 48)) (dec_loop v) 0
        = 10 * unat (v div 10) + (of_char (char_of (unat (v mod 10 + 48)) :: char) - 48)"
      using "1.IH" by (subst dec_loop.simps) simp
    also have "of_char (char_of (unat (v mod 10 + 48)) :: char) - 48 = unat v mod 10"
      using dec_digit_range [of v] by (simp add: of_char_of)
    finally show ?thesis by (simp add: unat_div)
  qed
qed

lemma dec_loop_length: "unat v < 10 ^ k \<Longrightarrow> length (dec_loop v) \<le> k"
proof (induction k arbitrary: v)
  case 0
  then have "v = 0" by (simp add: unat_eq_zero)
  then show ?case by (simp add: dec_loop.simps)
next
  case (Suc k)
  then have "unat (v div 10) < 10 ^ k" by (simp add: unat_div)
  then have "length (dec_loop (v div 10)) \<le> k" by (rule Suc.IH)
  then show ?case by (subst dec_loop.simps) simp
qed

text \<open>the decimal printer prints the number it was given, in at most ten digits, so the local
  array of twelve characters never overflows.\<close>

theorem kprint_dec_correct:
  "kprint_dec v s = kprint (dec_string v) s \<and> dec_val (dec_string v) = unat v
   \<and> dec_string v \<noteq> [] \<and> length (dec_loop v) \<le> 10"
proof -
  have "dec_val (dec_string v) = unat v"
    using dec_loop_val [of v] by (simp add: dec_val_def dec_string_def foldr_conv_fold)
  moreover have "length (dec_loop v) \<le> 10"
    using dec_loop_length [of v 10] unat_less_size [of v] by simp
  moreover have "dec_string v \<noteq> []" by (subst dec_string_def, subst dec_loop.simps) simp
  ultimately show ?thesis by (simp add: kprint_dec_string)
qed

lemma hex_digit_val_hex_digit: "d < 16 \<Longrightarrow> hex_digit_val (hex_digit d) = unat d"
proof -
  assume d: "d < 16"
  then have u: "unat d < 16" by (simp add: word_less_nat_alt)
  show ?thesis
  proof (cases "d < 10")
    case True
    then have "unat (d + 48) = unat d + 48" using u by (simp add: unat_word_ariths)
    moreover have "unat d < 10" using True by (simp add: word_less_nat_alt)
    ultimately show ?thesis using True by (simp add: hex_digit_def hex_digit_val_def of_char_of)
  next
    case False
    then have g: "10 \<le> unat d" by (simp add: word_less_nat_alt)
    have "unat (d - 10 + 65) = unat d + 55" using u by (simp add: unat_word_ariths)
    then show ?thesis using False g u
      by (simp add: hex_digit_def hex_digit_val_def of_char_of del: add_diff_eq diff_add_eq)
  qed
qed

lemma nibble_split: "16 * unat (drop_bit 4 v) + unat (ucast (v AND 0xF) :: u8) = unat v"
  and nibble_small: "(ucast (v AND 0xF) :: u8) < 16" for v :: u32
proof -
  have m: "unat (v AND 0xF) = unat v mod 16" by (simp add: unat_and_15)
  show "16 * unat (drop_bit 4 v) + unat (ucast (v AND 0xF) :: u8) = unat v"
    using m by (simp add: unat_drop_bit_eq drop_bit_eq_div unat_ucast unat_div)
  show "(ucast (v AND 0xF) :: u8) < 16"
    using m by (simp add: word_less_nat_alt unat_ucast)
qed

lemma hex_loop_val: "foldr (\<lambda>c v. 16 * v + hex_digit_val c) (hex_loop v) 0 = unat v"
proof (induction v rule: hex_loop.induct)
  case (1 v)
  show ?case
  proof (cases "v = 0")
    case True
    then show ?thesis by (simp add: hex_loop.simps)
  next
    case False
    then show ?thesis using "1.IH" nibble_split [of v] nibble_small [of v]
      by (subst hex_loop.simps) (simp add: hex_digit_val_hex_digit)
  qed
qed

lemma hex_loop_length: "unat v < 16 ^ k \<Longrightarrow> length (hex_loop v) \<le> k"
proof (induction k arbitrary: v)
  case 0
  then have "v = 0" by (simp add: unat_eq_zero)
  then show ?case by (simp add: hex_loop.simps)
next
  case (Suc k)
  then have "unat v div 16 < 16 ^ k" by simp
  then have "unat (drop_bit 4 v) < 16 ^ k" by (simp add: unat_drop_bit_eq drop_bit_eq_div unat_div)
  then have "length (hex_loop (drop_bit 4 v)) \<le> k" by (rule Suc.IH)
  then show ?case by (subst hex_loop.simps) simp
qed

text \<open>the hexadecimal printer prints \<open>0x\<close> and the digits of the number it was given, at most
  eight, so neither of its two arrays of sixteen characters overflows.\<close>

theorem kprint_hex_correct:
  "\<exists>ds. hex_string v = ''0x'' @ ds \<and> hex_val ds = unat v \<and> 1 \<le> length ds \<and> length ds \<le> 8"
proof (cases "v = 0")
  case True
  then show ?thesis by (simp add: hex_string_def hex_val_def hex_digit_val_def)
next
  case False
  have "hex_val (rev (hex_loop v)) = unat v"
    using hex_loop_val [of v] by (simp add: hex_val_def foldr_conv_fold)
  moreover have "length (hex_loop v) \<le> 8"
    using hex_loop_length [of v 8] unat_less_size [of v] by simp
  moreover have "1 \<le> length (hex_loop v)" using False by (subst hex_loop.simps) simp
  ultimately show ?thesis using False by (simp add: hex_string_def)
qed

declare kprint.simps(2) [simp del]

end
