(* ===== verification/Net_Bytes.thy ===== *)
theory Net_Bytes
  imports Console
begin

text \<open>
  The parts of \<open>net.c\<close> and \<open>net.h\<close> that touch no global: byte order, the memory and string
  helpers, the Internet checksum and \<open>parse_ip\<close>.

  A buffer is a list of bytes and a pointer into it is an offset or the rest of the list. A
  write past the end of a buffer is lost in the model; the length lemmas and the bounds proved
  for the callers show that the code never gets there.
\<close>

section \<open>Byte order\<close>

definition htons :: "u16 \<Rightarrow> u16" where
  "htons h = drop_bit 8 h OR push_bit 8 h"

definition ntohs :: "u16 \<Rightarrow> u16" where
  "ntohs n = htons n"

definition htonl :: "u32 \<Rightarrow> u32" where
  "htonl h = drop_bit 24 (h AND 0xFF000000) OR drop_bit 8 (h AND 0x00FF0000)
     OR push_bit 8 (h AND 0x0000FF00) OR push_bit 24 (h AND 0x000000FF)"

definition ntohl :: "u32 \<Rightarrow> u32" where
  "ntohl n = htonl n"

definition MAKE_IP :: "u8 \<Rightarrow> u8 \<Rightarrow> u8 \<Rightarrow> u8 \<Rightarrow> u32" where
  "MAKE_IP a b c d = push_bit 24 (ucast a) OR push_bit 16 (ucast b) OR push_bit 8 (ucast c) OR ucast d"

lemma bit_high: "LENGTH('a) \<le> n \<Longrightarrow> \<not> bit w n" for w :: "'a::len word"
  using bit_imp_le_length by fastforce

lemma octet_cases: "k = 7 \<or> k = 6 \<or> k = 5 \<or> k = 4 \<or> k = 3 \<or> k = 2 \<or> k = 1 \<or> k = 0"
  if "k < 8" for k :: nat
  using that by presburger

text \<open>A bit of a 32-bit word is bit \<open>k\<close> of one of its four octets.\<close>

lemma bit_cases:
  fixes n :: nat
  assumes "n < 32"
  obtains k where "k < 8" and "n = k \<or> n = 8 + k \<or> n = 16 + k \<or> n = 24 + k"
proof
  show "n mod 8 < 8" by simp
  show "n = n mod 8 \<or> n = 8 + n mod 8 \<or> n = 16 + n mod 8 \<or> n = 24 + n mod 8"
    using assms by presburger
qed

lemma htons_htons [simp]: "htons (htons h) = h"
proof (rule bit_word_eqI)
  fix n assume "n < LENGTH(16)"
  then show "bit (htons (htons h)) n = bit h n"
    unfolding htons_def by (cases "n < 8") (auto simp: bit_simps)
qed

lemma ntohs_htons [simp]: "ntohs (htons h) = h"
  by (simp add: ntohs_def)

lemma htonl_htonl [simp]: "htonl (htonl h) = h"
proof (rule bit_word_eqI)
  fix n assume "n < LENGTH(32)"
  then have "n < 32" by simp
  then show "bit (htonl (htonl h)) n = bit h n"
  proof (cases rule: bit_cases)
    case (1 k)
    then show ?thesis
      unfolding htonl_def using octet_cases [OF 1(1)] by (elim disjE; simp add: bit_simps bit_high)
  qed
qed

lemma ntohl_htonl [simp]: "ntohl (htonl h) = h"
  by (simp add: ntohl_def)

section \<open>Memory and string helpers\<close>

text \<open>An array is a list, and a write past its end is lost in the model, where the C code would overwrite
  what the linker or the compiler has placed behind it. The callers copy inside their destinations:
  at most 1514 bytes into the 1518 of \<open>pkt_buf\<close>, 1536 into a transmit buffer, 64 into an echo reply, 512
  behind the header of a UDP packet, and 520 behind the headers of a frame of 1500 bytes.\<close>

fun memset_n :: "u8 list \<Rightarrow> nat \<Rightarrow> u8 \<Rightarrow> nat \<Rightarrow> u8 list" where
  "memset_n d off val 0 = d"
| "memset_n d off val (Suc n) = memset_n (d[off := val]) (off + 1) val n"

fun memcpy_n :: "u8 list \<Rightarrow> nat \<Rightarrow> u8 list \<Rightarrow> nat \<Rightarrow> u8 list" where
  "memcpy_n d off src 0 = d"
| "memcpy_n d off [] (Suc n) = d"
| "memcpy_n d off (b # src) (Suc n) = memcpy_n (d[off := b]) (off + 1) src n"

fun memcmp_n :: "u8 list \<Rightarrow> u8 list \<Rightarrow> nat \<Rightarrow> int" where
  "memcmp_n (x # xs) (y # ys) (Suc n) = (if x \<noteq> y then uint x - uint y else memcmp_n xs ys n)"
| "memcmp_n _ _ _ = 0"

fun strlen_loop :: "u16 \<Rightarrow> char list \<Rightarrow> u16" where
  "strlen_loop n [] = n"
| "strlen_loop n (c # s) = (if c = NUL then n else strlen_loop (n + 1) s)"

definition strlen_n :: "char list \<Rightarrow> u16" where
  "strlen_n s = strlen_loop 0 s"

definition isdigit_n :: "char \<Rightarrow> bool" where
  "isdigit_n c \<longleftrightarrow> 48 \<le> (of_char c :: nat) \<and> (of_char c :: nat) \<le> 57"

lemma length_memset_n [simp]: "length (memset_n d off v n) = length d"
  by (induction d off v n rule: memset_n.induct) simp_all

lemma length_memcpy_n [simp]: "length (memcpy_n d off src n) = length d"
  by (induction d off src n rule: memcpy_n.induct) simp_all

lemma memcpy_n_nth: "n \<le> length src \<Longrightarrow> off + n \<le> length d \<Longrightarrow>
    memcpy_n d off src n ! i = (if off \<le> i \<and> i < off + n then src ! (i - off) else d ! i)"
proof (induction d off src n rule: memcpy_n.induct)
  case (3 d off b src n)
  then show ?case by (auto simp: nth_Cons' nth_list_update)
qed auto

lemma memset_n_nth: "off + n \<le> length d \<Longrightarrow>
    memset_n d off v n ! i = (if off \<le> i \<and> i < off + n then v else d ! i)"
  by (induction d off v n rule: memset_n.induct) (auto simp: nth_list_update)

lemma memcpy_n_eq: "n \<le> length src \<Longrightarrow> off + n \<le> length d \<Longrightarrow>
    memcpy_n d off src n = take off d @ take n src @ drop (off + n) d"
  by (rule nth_equalityI) (auto simp: memcpy_n_nth nth_append)

lemma memcmp_n_zero_iff: "n \<le> length a \<Longrightarrow> n \<le> length b \<Longrightarrow> memcmp_n a b n = 0 \<longleftrightarrow> take n a = take n b"
  by (induction a b n rule: memcmp_n.induct) (auto simp: unsigned_word_eqI word_uint_eq_iff)

lemma strlen_n_cstr: "strlen_n s = of_nat (length (cstr s))"
proof -
  have "strlen_loop n s = n + of_nat (length (cstr s))" for n
    by (induction s arbitrary: n) (auto simp: algebra_simps)
  then show ?thesis by (simp add: strlen_n_def)
qed

section \<open>The Internet checksum\<close>

fun cksum_loop :: "u8 list \<Rightarrow> nat \<Rightarrow> u32 \<Rightarrow> u32" where
  "cksum_loop (a # b # p) (Suc (Suc len)) sm = cksum_loop p len (sm + ucast (load16 [a, b] 0))"
| "cksum_loop (a # p) (Suc 0) sm = sm + ucast a"
| "cksum_loop _ _ sm = sm"

function cksum_fold :: "u32 \<Rightarrow> u32" where
  "cksum_fold sm =
     (if drop_bit 16 sm \<noteq> 0 then cksum_fold ((sm AND 0xFFFF) + drop_bit 16 sm) else sm)"
  by pat_completeness auto

lemma unat_fold_step: "unat ((sm AND 0xFFFF) + drop_bit 16 sm) = unat sm mod 65536 + unat sm div 65536"
  for sm :: u32
proof -
  have d: "unat (drop_bit 16 sm) = unat sm div 65536"
    by (simp add: drop_bit_eq_div unat_div)
  have m: "unat (sm AND 0xFFFF) = unat sm mod 65536" by (rule unat_and_FFFF)
  have "unat sm < 2 ^ 32" using unat_less_size [of sm] by simp
  then show ?thesis by (simp add: unat_word_ariths d m)
qed

lemma drop_16_zero_iff: "drop_bit 16 sm = 0 \<longleftrightarrow> unat sm < 65536" for sm :: u32
proof -
  have "unat (drop_bit 16 sm) = unat sm div 65536"
    by (simp add: drop_bit_eq_div unat_div)
  then show ?thesis by (metis div_eq_0_iff unat_eq_zero zero_neq_numeral)
qed

termination cksum_fold
proof (relation "measure unat")
  fix sm :: u32 assume "drop_bit 16 sm \<noteq> 0"
  then have "65536 \<le> unat sm" by (simp add: drop_16_zero_iff)
  then have "unat sm mod 65536 + unat sm div 65536 < unat sm"
    using div_mult_mod_eq [of "unat sm" 65536] by linarith
  then show "((sm AND 0xFFFF) + drop_bit 16 sm, sm) \<in> measure unat" by (simp add: unat_fold_step)
qed simp

declare cksum_fold.simps [simp del]

definition ip_checksum :: "u8 list \<Rightarrow> nat \<Rightarrow> u16" where
  "ip_checksum data len = ucast (NOT (cksum_fold (cksum_loop data len 0)))"

text \<open>The number the loop adds up, and its residue modulo 65535, which folding keeps.\<close>

fun wsum :: "u8 list \<Rightarrow> nat" where
  "wsum (a # b # p) = unat (load16 [a, b] 0) + wsum p"
| "wsum [a] = unat a"
| "wsum [] = 0"

lemma wsum_bound: "wsum p \<le> 65535 * ((length p + 1) div 2)"
proof (induction p rule: wsum.induct)
  case (1 a b p)
  have "unat (load16 [a, b] 0) \<le> 65535" using unat_less_size [of "load16 [a, b] 0"] by simp
  with 1 show ?case by simp
next
  case (2 a)
  show ?case using unat_less_size [of a] by simp
qed simp

lemma cksum_loop_wsum: "len \<le> length p \<Longrightarrow> unat sm + wsum (take len p) < 2 ^ 32 \<Longrightarrow>
    unat (cksum_loop p len sm) = unat sm + wsum (take len p)"
proof (induction p len sm rule: cksum_loop.induct)
  case (1 a b p len sm)
  let ?v = "load16 [a, b] 0"
  have v: "unat (ucast ?v :: u32) = unat ?v" using unat_less_size [of ?v] by (simp add: unat_ucast)
  have "unat sm + unat ?v < 2 ^ 32" using "1.prems"(2) by simp
  then have "unat (sm + ucast ?v) = unat sm + unat ?v" by (simp add: unat_word_ariths v)
  then show ?case using "1.IH" "1.prems" by simp
next
  case (2 a p sm)
  have "unat (ucast a :: u32) = unat a" using unat_less_size [of a] by (simp add: unat_ucast)
  then show ?case using "2.prems" by (simp add: unat_word_ariths)
qed auto

lemma cksum_fold_mod: "unat (cksum_fold sm) mod 65535 = unat sm mod 65535
    \<and> unat (cksum_fold sm) < 65536 \<and> (unat (cksum_fold sm) = 0 \<longleftrightarrow> unat sm = 0)"
proof (induction sm rule: cksum_fold.induct)
  case (1 sm)
  show ?case
  proof (cases "drop_bit 16 sm = 0")
    case True
    then have "cksum_fold sm = sm" by (simp add: cksum_fold.simps [of sm])
    then show ?thesis using True by (simp add: drop_16_zero_iff)
  next
    case False
    let ?n = "(sm AND 0xFFFF) + drop_bit 16 sm"
    have f: "cksum_fold sm = cksum_fold ?n" by (subst cksum_fold.simps) (simp add: False)
    have n: "unat ?n = unat sm mod 65536 + unat sm div 65536" by (rule unat_fold_step)
    have "unat sm = unat ?n + 65535 * (unat sm div 65536)"
      unfolding n using div_mult_mod_eq [of "unat sm" 65536] by linarith
    then have "unat ?n mod 65535 = unat sm mod 65535" by (metis mod_mult_self2)
    moreover have "unat ?n = 0 \<longleftrightarrow> unat sm = 0"
      using False unfolding n by (auto simp: drop_16_zero_iff)
    ultimately show ?thesis using "1.IH" [OF False] unfolding f by simp
  qed
qed

lemma unat_not16: "unat (NOT w) = 65535 - unat w" for w :: u16
proof -
  have "NOT w = 0xFFFF - w" by (simp add: not_eq_complement)
  moreover have "w \<le> 0xFFFF" using unat_less_size [of w] by (simp add: word_le_nat_alt)
  ultimately show ?thesis by (simp add: unat_sub)
qed

lemma ip_checksum_wsum:
  assumes "len \<le> length p" and "len \<le> 65535"
  shows "(unat (ip_checksum p len) + wsum (take len p)) mod 65535 = 0"
    and "wsum (take len p) = 0 \<longleftrightarrow> ip_checksum p len = 0xFFFF"
proof -
  let ?S = "cksum_fold (cksum_loop p len 0)"
  have "(length (take len p) + 1) div 2 \<le> 32768" using assms by simp
  then have "wsum (take len p) \<le> 65535 * 32768"
    using wsum_bound [of "take len p"] by linarith
  then have s: "unat (cksum_loop p len 0) = wsum (take len p)"
    using cksum_loop_wsum [of len p 0] assms(1) by simp
  note S = cksum_fold_mod [of "cksum_loop p len 0", unfolded s]
  have c: "unat (ip_checksum p len) = 65535 - unat ?S"
  proof -
    have "ip_checksum p len = NOT (ucast ?S)"
      unfolding ip_checksum_def by (rule bit_word_eqI) (simp add: bit_simps)
    moreover have "unat (ucast ?S :: u16) = unat ?S" using S by (simp add: unat_ucast)
    ultimately show ?thesis by (simp add: unat_not16)
  qed
  have "(65535 - f + w) mod 65535 = 0" if "f mod 65535 = w mod 65535" "f < 65536" for f w :: nat
  proof -
    have "(65535 - f + w) mod 65535 = (65535 - f + w mod 65535) mod 65535" by (simp add: mod_simps)
    also have "\<dots> = (65535 - f + f) mod 65535" unfolding that(1) [symmetric] by (simp add: mod_simps)
    also have "\<dots> = 0" using that(2) by simp
    finally show ?thesis .
  qed
  then show "(unat (ip_checksum p len) + wsum (take len p)) mod 65535 = 0" using S unfolding c by blast
  have "ip_checksum p len = 0xFFFF \<longleftrightarrow> unat (ip_checksum p len) = 65535"
    by (simp add: word_unat_eq_iff)
  then show "wsum (take len p) = 0 \<longleftrightarrow> ip_checksum p len = 0xFFFF"
    using S unfolding c by linarith
qed

text \<open>Storing the checksum into a field that held zero.\<close>

lemma wsum_store16:
  "even off \<Longrightarrow> off + 1 < length p \<Longrightarrow> wsum (store16 off v p) = wsum (store16 off 0 p) + unat v"
proof (induction p arbitrary: off rule: wsum.induct)
  case (1 a b p)
  show ?case
  proof (cases off)
    case 0
    have "load16 [ucast v, ucast (drop_bit 8 v)] 0 = v" by (simp add: load16_def combine16)
    moreover have "load16 [0, 0] 0 = 0" by (simp add: load16_def)
    ultimately show ?thesis using 0 by (simp add: store16_def)
  next
    case (Suc n)
    with "1.prems"(1) obtain m where m: "off = Suc (Suc m)" "even m" by (cases n) auto
    then show ?thesis using "1.IH" [of m] "1.prems"(2) by (simp add: store16_def)
  qed
qed auto

lemma take_store16: "off + 1 < len \<Longrightarrow> take len (store16 off v p) = store16 off v (take len p)"
  by (simp add: store16_def take_update_swap)

lemma ip_checksum_verifies_fact:
  assumes "even off" and "off + 1 < len" and "len \<le> length p" and "len \<le> 65535"
  shows "ip_checksum (store16 off (ip_checksum (store16 off 0 p) len) p) len = 0"
proof -
  let ?z = "store16 off 0 p" let ?c = "ip_checksum ?z len" let ?q = "store16 off ?c p"
  have w: "wsum (take len ?q) = wsum (take len ?z) + unat ?c"
    using wsum_store16 [of off "take len p" ?c] assms(1-3) by (simp add: take_store16 [OF assms(2)])
  have z: "(unat ?c + wsum (take len ?z)) mod 65535 = 0"
      "wsum (take len ?z) = 0 \<longleftrightarrow> ?c = 0xFFFF"
    by (rule ip_checksum_wsum; use assms(3,4) in simp)+
  have q: "(unat (ip_checksum ?q len) + wsum (take len ?q)) mod 65535 = 0"
      "wsum (take len ?q) = 0 \<longleftrightarrow> ip_checksum ?q len = 0xFFFF"
    by (rule ip_checksum_wsum; use assms(3,4) in simp)+
  have "65535 dvd unat (ip_checksum ?q len) + wsum (take len ?q)" "65535 dvd wsum (take len ?q)"
    using q(1) z(1) unfolding w by (simp_all only: mod_eq_0_iff_dvd add.commute)
  then have "65535 dvd unat (ip_checksum ?q len)" by (simp only: dvd_add_left_iff)
  then obtain k where k: "unat (ip_checksum ?q len) = 65535 * k" by (elim dvdE)
  have "k \<noteq> 1"
  proof
    assume "k = 1"
    then have "ip_checksum ?q len = 0xFFFF" using k by (simp add: word_unat_eq_iff)
    then have "wsum (take len ?z) = 0" "unat ?c = 0" using q(2) w by simp_all
    then show False using z(2) by simp
  qed
  moreover have "65535 * k < 65536" using unat_less_size [of "ip_checksum ?q len"] unfolding k by simp
  ultimately have "k = 0" by linarith
  then show ?thesis using k by (simp add: unat_eq_zero)
qed

text \<open>C19: the checksum the code stores into a packet verifies at the receiver. Whatever the packet,
  of at most 65535 bytes, once the result of \<open>ip_checksum\<close> over the packet with a zero checksum
  field (16-bit aligned) is stored in that field, \<open>ip_checksum\<close> over the packet is 0. The
  carries of the 32-bit accumulator never overflow.\<close>

theorem ip_checksum_verifies:
  assumes "even off" and "off + 1 < len" and "len \<le> length p" and "len \<le> 65535"
  shows "ip_checksum (store16 off (ip_checksum (store16 off 0 p) len) p) len = 0"
  using assms by (rule ip_checksum_verifies_fact)

theorem ip_checksum_verifies_witness:
  "ip_checksum (store16 2 (ip_checksum [0x45, 1, 0, 0, 7] 5) [0x45, 1, 0xAA, 0, 7]) 5 = 0"
  using ip_checksum_verifies [of 2 5 "[0x45, 1, 0xAA, 0, 7]"] by (simp add: store16_def)

section \<open>Reading fields back\<close>

text \<open>The bytes of a field of array type, such as a MAC address, and what the writes of the other
  fields do to it.\<close>

definition bytes :: "u8 list \<Rightarrow> nat \<Rightarrow> nat \<Rightarrow> u8 list" where
  "bytes b off n = take n (drop off b)"

lemma length_bytes: "length (bytes b off n) = min n (length b - off)"
  by (simp add: bytes_def min.commute)

lemma bytes_eqI:
  assumes "length a = length b" and "\<And>i. off \<le> i \<Longrightarrow> i < off + n \<Longrightarrow> a ! i = b ! i"
  shows "bytes a off n = bytes b off n"
  using assms by (intro nth_equalityI) (auto simp: bytes_def)

lemma bytes_store16: "off + 1 < p \<or> p + n \<le> off \<Longrightarrow> bytes (store16 off v b) p n = bytes b p n"
  by (rule bytes_eqI) (auto simp: store16_nth_other)

lemma bytes_store32: "off + 3 < p \<or> p + n \<le> off \<Longrightarrow> bytes (store32 off v b) p n = bytes b p n"
  by (rule bytes_eqI) (auto simp: store32_nth_other)

lemma bytes_update: "i < p \<or> p + n \<le> i \<Longrightarrow> bytes (b[i := x]) p n = bytes b p n"
  by (rule bytes_eqI) auto

lemma bytes_memcpy_other: "m \<le> length src \<Longrightarrow> off + m \<le> length d \<Longrightarrow> off + m \<le> p \<or> p + n \<le> off \<Longrightarrow>
    bytes (memcpy_n d off src m) p n = bytes d p n"
  by (rule bytes_eqI) (auto simp: memcpy_n_nth)

lemma bytes_memcpy_same: "n \<le> length src \<Longrightarrow> off + n \<le> length d \<Longrightarrow>
    bytes (memcpy_n d off src n) off n = take n src"
  by (simp add: bytes_def memcpy_n_eq min_def)

lemma load16_memcpy_other: "m \<le> length src \<Longrightarrow> off + m \<le> length d \<Longrightarrow> off + m \<le> p \<or> p + 1 < off \<Longrightarrow>
    load16 (memcpy_n d off src m) p = load16 d p"
  by (auto simp: load16_def memcpy_n_nth)

lemma load32_memcpy_other: "m \<le> length src \<Longrightarrow> off + m \<le> length d \<Longrightarrow> off + m \<le> p \<or> p + 3 < off \<Longrightarrow>
    load32 (memcpy_n d off src m) p = load32 d p"
  by (auto simp: load32_def memcpy_n_nth)

lemmas packet_simps = bytes_store16 bytes_store32 bytes_update bytes_memcpy_other bytes_memcpy_same
  load16_memcpy_other load32_memcpy_other memcpy_n_nth fields

section \<open>Dotted-quad addresses\<close>

text \<open>The loop of \<open>parse_ip\<close>: \<open>None\<close> is the \<open>return 0\<close> in its body.\<close>

fun parse_ip_loop :: "char list \<Rightarrow> u32 \<Rightarrow> nat \<Rightarrow> u32 \<Rightarrow> (u32 \<times> nat \<times> u32) option" where
  "parse_ip_loop [] ip dots octet = Some (ip, dots, octet)"
| "parse_ip_loop (c # s) ip dots octet =
     (if c = NUL then Some (ip, dots, octet)
      else if isdigit_n c then
        let octet = octet * 10 + (of_char c - 48)
        in if 255 < octet then None else parse_ip_loop s ip dots octet
      else if c = CHR ''.'' then
        if 3 < dots + 1 then None
        else parse_ip_loop s (push_bit 8 ip OR octet) (dots + 1) 0
      else None)"

definition parse_ip :: "char list \<Rightarrow> u32 option" where
  "parse_ip s =
     (case parse_ip_loop s 0 0 0 of
        None \<Rightarrow> None
      | Some (ip, dots, octet) \<Rightarrow> if dots \<noteq> 3 then None else Some (push_bit 8 ip OR octet))"

lemma of_char_digit:
  "(of_char (char_of (unat (v mod 10 + 48))) :: u32) = v mod 10 + 48" for v :: u32
proof -
  have "(of_char (char_of (unat (v mod 10 + 48))) :: u32) = of_nat (unat (v mod 10 + 48) mod 256)"
    unfolding of_nat_of_char [where 'a = u32, symmetric] by (simp only: of_char_of)
  moreover have "unat (v mod 10 + 48) mod 256 = unat (v mod 10 + 48)"
    using dec_digit_range [of v] by (intro mod_less) linarith
  ultimately show ?thesis by (simp only: of_nat_unat ucast_id)
qed

lemma parse_dec_loop:
  "unat v \<le> 255 \<Longrightarrow> parse_ip_loop (rev (dec_loop v) @ s) ip dots 0 = parse_ip_loop s ip dots v"
proof (induction v arbitrary: s rule: dec_loop.induct)
  case (1 v)
  show ?case
  proof (cases "v = 0")
    case True
    then show ?thesis by (simp add: dec_loop.simps)
  next
    case False
    let ?c = "char_of (unat (v mod 10 + 48)) :: char"
    have "dec_loop v = ?c # dec_loop (v div 10)" by (subst dec_loop.simps) (simp add: False)
    moreover have "unat (v div 10) \<le> 255" using "1.prems" by (simp add: unat_div)
    ultimately have "parse_ip_loop (rev (dec_loop v) @ s) ip dots 0 = parse_ip_loop (?c # s) ip dots (v div 10)"
      using "1.IH" [OF False, of "?c # s"] by simp
    also have "\<dots> = parse_ip_loop s ip dots v"
    proof -
      have c: "(of_char ?c :: nat) = unat (v mod 10 + 48)"
        using dec_digit_range [of v] by (simp add: of_char_of)
      have "?c \<noteq> NUL"
      proof
        assume "?c = NUL"
        then have "(of_char NUL :: nat) = unat (v mod 10 + 48)" using c by (simp only:)
        then show False using dec_digit_range [of v] by simp
      qed
      moreover have "isdigit_n ?c" using c dec_digit_range [of v] by (simp add: isdigit_n_def)
      moreover have "v div 10 * 10 + (of_char ?c - 48) = v" by (simp add: of_char_digit word_mod_div_equality)
      moreover have "\<not> 255 < v" using "1.prems" by (simp add: word_less_nat_alt)
      ultimately show ?thesis by (simp add: Let_def)
    qed
    finally show ?thesis .
  qed
qed

lemma parse_dec_string:
  "unat v \<le> 255 \<Longrightarrow> parse_ip_loop (dec_string v @ s) ip dots 0 = parse_ip_loop s ip dots v"
  using parse_dec_loop [of v s ip dots]
  by (cases "v = 0") (simp_all add: dec_string_def isdigit_n_def dec_loop.simps)

lemma unat_octet: "unat (w AND 0xFF :: u32) \<le> 255"
  by (simp add: unat_and_255)

lemma octets: "push_bit 8 (push_bit 8 (push_bit 8 (push_bit 8 0 OR (drop_bit 24 ip AND 0xFF))
     OR (drop_bit 16 ip AND 0xFF)) OR (drop_bit 8 ip AND 0xFF)) OR (ip AND 0xFF) = ip" for ip :: u32
proof (rule bit_word_eqI)
  fix n assume "n < LENGTH(32)"
  then have "n < 32" by simp
  then show "bit (push_bit 8 (push_bit 8 (push_bit 8 (push_bit 8 0 OR (drop_bit 24 ip AND 0xFF))
     OR (drop_bit 16 ip AND 0xFF)) OR (drop_bit 8 ip AND 0xFF)) OR (ip AND 0xFF)) n = bit ip n"
  proof (cases rule: bit_cases)
    case (1 k)
    then show ?thesis
      using octet_cases [OF 1(1)] by (elim disjE; simp add: bit_simps bit_high)
  qed
qed

text \<open>C29: \<open>parse_ip\<close> reads back what \<open>kprint_ip\<close> prints, for every address.\<close>

theorem parse_ip_roundtrip:
  "parse_ip (ip_string ip) = Some ip \<and> kprint_ip ip s = kprint (ip_string ip) s"
proof
  show "parse_ip (ip_string ip) = Some ip"
    unfolding parse_ip_def ip_string_def
    using parse_dec_string [OF unat_octet, of ip "[]"] octets [of ip]
    by (simp add: parse_dec_string unat_octet isdigit_n_def)
  show "kprint_ip ip s = kprint (ip_string ip) s" by (rule kprint_ip_string)
qed

text \<open>\<open>parse_ip\<close> also accepts addresses with empty octets, which read as 0.\<close>

theorem parse_ip_empty_octets: "parse_ip ''...'' = Some 0 \<and> parse_ip ''10..2.'' = Some (MAKE_IP 10 0 2 0)"
  by (simp add: parse_ip_def isdigit_n_def Let_def MAKE_IP_def)

end
