(* ===== verification/Pmm.thy ===== *)
theory Pmm
  imports Console
begin

text \<open>
  \<open>pmm.c\<close>: the watermark allocator for physical page frames. The two static variables are record
  fields; \<open>pmm_free_page\<close> ignores its argument, as the source does. The lemmas show which frames
  a run of the allocator hands out and when it reports that memory is exhausted.
\<close>

record pmm = machine +
  free_mem_start :: u32
  system_max_mem :: u32

definition PAGE_SIZE :: u32 where "PAGE_SIZE = 4096"

definition pmm_init :: "u32 \<Rightarrow> 'a pmm_scheme \<Rightarrow> 'a pmm_scheme" where
  "pmm_init mem_size s = s\<lparr>system_max_mem := mem_size\<rparr>"

definition pmm_alloc_page :: "'a pmm_scheme \<Rightarrow> u32 \<times> 'a pmm_scheme" where
  "pmm_alloc_page s =
     (if system_max_mem s \<le> free_mem_start s then (0, s)
      else (free_mem_start s, s\<lparr>free_mem_start := free_mem_start s + PAGE_SIZE\<rparr>))"

definition pmm_free_page :: "u32 \<Rightarrow> 'a pmm_scheme \<Rightarrow> 'a pmm_scheme" where
  "pmm_free_page phys_addr s = s"

text \<open>A run of \<open>n\<close> allocations: the frames returned, in order.\<close>

fun pmm_alloc_run :: "nat \<Rightarrow> 'a pmm_scheme \<Rightarrow> u32 list \<times> 'a pmm_scheme" where
  "pmm_alloc_run 0 s = ([], s)"
| "pmm_alloc_run (Suc n) s =
     (let (a, s1) = pmm_alloc_page s; (as, s2) = pmm_alloc_run n s1 in (a # as, s2))"

text \<open>The watermark stays page-aligned, above the kernel and below 2 GB.\<close>

definition pmm_inv :: "'a pmm_scheme \<Rightarrow> bool" where
  "pmm_inv s \<longleftrightarrow> unat (free_mem_start s) mod 4096 = 0 \<and> 0x400000 \<le> unat (free_mem_start s)
     \<and> unat (free_mem_start s) \<le> 0x80000000 \<and> unat (system_max_mem s) \<le> 0x80000000"

lemma pmm_alloc_cases:
  obtains (full) "system_max_mem s \<le> free_mem_start s" "pmm_alloc_page s = (0, s)"
  | (frame) "free_mem_start s < system_max_mem s"
      "pmm_alloc_page s = (free_mem_start s, s\<lparr>free_mem_start := free_mem_start s + 4096\<rparr>)"
  by (cases "system_max_mem s \<le> free_mem_start s") (auto simp: pmm_alloc_page_def PAGE_SIZE_def)

lemma pmm_step:
  assumes "pmm_inv s" and "free_mem_start s < system_max_mem s"
  shows "unat (free_mem_start s + 4096) = unat (free_mem_start s) + 4096"
proof -
  have "unat (free_mem_start s) < 0x80000000"
    using assms by (auto simp: pmm_inv_def word_less_nat_alt)
  then show ?thesis using unat_plus_small [of "free_mem_start s" 4096] by simp
qed

lemma pmm_alloc_page_inv:
  assumes "pmm_inv s"
  shows "pmm_inv (snd (pmm_alloc_page s))"
proof (cases s rule: pmm_alloc_cases)
  case frame
  define n where "n = unat (free_mem_start s) div 4096"
  have "unat (free_mem_start s) mod 4096 = 0" using assms by (simp add: pmm_inv_def)
  then have f: "unat (free_mem_start s) = n * 4096" by (simp add: n_def mod_0_imp_dvd)
  moreover have "unat (free_mem_start s) < 0x80000000"
    using assms frame(1) by (simp add: pmm_inv_def word_less_nat_alt)
  ultimately have "n + 1 \<le> 0x80000" by simp
  then have "unat (free_mem_start s) + 4096 \<le> 0x80000000" by (simp add: f)
  then show ?thesis
    using assms pmm_step [OF assms frame(1)] by (simp add: frame(2) pmm_inv_def mod_add_left_eq [symmetric])
qed (use assms in simp)

text \<open>C30: an allocation keeps the invariant of the allocator, whatever it returns. A frame it returns
  is page-aligned, at or above 4 MB, below the top of memory, and never handed out again (the
  watermark is past it); it returns 0 exactly when the watermark has reached the top of
  memory, and then nothing changes.\<close>

theorem pmm_alloc_page_frame:
  assumes "pmm_inv s" and "pmm_alloc_page s = (a, s')"
  shows "pmm_inv s' \<and> system_max_mem s' = system_max_mem s
     \<and> (a = 0 \<longleftrightarrow> system_max_mem s \<le> free_mem_start s) \<and> (a = 0 \<longrightarrow> s' = s)
     \<and> (a \<noteq> 0 \<longrightarrow> unat a mod 4096 = 0 \<and> 0x400000 \<le> unat a \<and> a < system_max_mem s
          \<and> unat (free_mem_start s') = unat a + 4096 \<and> a = free_mem_start s)"
proof
  show "pmm_inv s'" using pmm_alloc_page_inv [OF assms(1)] by (simp add: assms(2))
  have "free_mem_start s \<noteq> 0" using assms(1) by (auto simp: pmm_inv_def)
  then show "system_max_mem s' = system_max_mem s
     \<and> (a = 0 \<longleftrightarrow> system_max_mem s \<le> free_mem_start s) \<and> (a = 0 \<longrightarrow> s' = s)
     \<and> (a \<noteq> 0 \<longrightarrow> unat a mod 4096 = 0 \<and> 0x400000 \<le> unat a \<and> a < system_max_mem s
          \<and> unat (free_mem_start s') = unat a + 4096 \<and> a = free_mem_start s)"
    using assms pmm_step [OF assms(1)]
    by (cases s rule: pmm_alloc_cases) (auto simp: pmm_inv_def not_le)
qed

theorem pmm_alloc_page_frame_witness:
  fixes s :: pmm
  defines "s \<equiv> \<lparr>io = [], mem = (\<lambda>_. 0), current_loc = 0, free_mem_start = 0x400000,
                 system_max_mem = 0x1000000\<rparr>"
  shows "pmm_alloc_page s = (0x400000, s\<lparr>free_mem_start := 0x401000\<rparr>)
     \<and> unat (free_mem_start (s\<lparr>free_mem_start := 0x401000\<rparr>)) = 0x400000 + 4096"
proof -
  have a: "pmm_alloc_page s = (0x400000, s\<lparr>free_mem_start := 0x401000\<rparr>)"
    by (simp add: s_def pmm_alloc_page_def PAGE_SIZE_def)
  have "pmm_inv s" by (simp add: s_def pmm_inv_def)
  from pmm_alloc_page_frame [OF this a] a show ?thesis by simp
qed

lemma pmm_alloc_run_frames:
  assumes "pmm_inv s" and "unat (system_max_mem s) mod 4096 = 0"
    and "unat (free_mem_start s) + 4096 * n \<le> unat (system_max_mem s)"
  shows "fst (pmm_alloc_run n s) = map (\<lambda>k. free_mem_start s + of_nat k * 4096) [0..<n]
    \<and> unat (free_mem_start (snd (pmm_alloc_run n s))) = unat (free_mem_start s) + 4096 * n
    \<and> system_max_mem (snd (pmm_alloc_run n s)) = system_max_mem s"
  using assms
proof (induction n arbitrary: s)
  case (Suc n)
  let ?f = "free_mem_start s"
  let ?t = "s\<lparr>free_mem_start := ?f + 4096\<rparr>"
  have lt: "?f < system_max_mem s" using Suc.prems by (simp add: word_less_nat_alt)
  then have a: "pmm_alloc_page s = (?f, ?t)"
    by (auto simp: pmm_alloc_page_def PAGE_SIZE_def)
  note st = pmm_step [OF Suc.prems(1) lt]
  have "pmm_inv ?t" using Suc.prems st by (auto simp: pmm_inv_def)
  from Suc.IH [OF this] Suc.prems st
  have IH: "fst (pmm_alloc_run n ?t) = map (\<lambda>k. ?f + 4096 + of_nat k * 4096) [0..<n]"
    "unat (free_mem_start (snd (pmm_alloc_run n ?t))) = unat ?f + 4096 + 4096 * n"
    "system_max_mem (snd (pmm_alloc_run n ?t)) = system_max_mem s" by auto
  have "map (\<lambda>k. ?f + of_nat k * 4096) [0..<Suc n]
      = ?f # map (\<lambda>k. ?f + 4096 + of_nat k * 4096) [0..<n]"
    by (simp add: map_upt_Suc algebra_simps del: upt_Suc)
  then show ?case using IH a by (simp add: Let_def split_beta)
qed simp

text \<open>after boot (16 MB, watermark at 4 MB) the allocator hands out exactly the 3072 frames
  from 4 MB to 16 MB, in order, and every later request is refused with 0 and changes nothing.\<close>

theorem pmm_exhaustion:
  assumes "free_mem_start s = 0x400000" and "system_max_mem s = 0x1000000"
  shows "fst (pmm_alloc_run 3072 s) = map (\<lambda>k. 0x400000 + of_nat k * 4096) [0..<3072]
     \<and> pmm_alloc_page (snd (pmm_alloc_run 3072 s)) = (0, snd (pmm_alloc_run 3072 s))"
proof -
  have "pmm_inv s" using assms by (simp add: pmm_inv_def)
  from pmm_alloc_run_frames [OF this, of 3072] assms
  have r: "fst (pmm_alloc_run 3072 s) = map (\<lambda>k. 0x400000 + of_nat k * 4096) [0..<3072]"
    "unat (free_mem_start (snd (pmm_alloc_run 3072 s))) = 0x1000000"
    "system_max_mem (snd (pmm_alloc_run 3072 s)) = 0x1000000" by simp_all
  then have "system_max_mem (snd (pmm_alloc_run 3072 s)) \<le> free_mem_start (snd (pmm_alloc_run 3072 s))"
    by (simp add: word_le_nat_alt)
  then show ?thesis using r by (simp add: pmm_alloc_page_def)
qed

theorem pmm_exhaustion_witness:
  fixes s :: pmm
  defines "s \<equiv> \<lparr>io = [], mem = (\<lambda>_. 0), current_loc = 0, free_mem_start = 0x400000,
                 system_max_mem = 0x1000000\<rparr>"
  shows "fst (pmm_alloc_page (snd (pmm_alloc_run 3072 s))) = 0"
  using pmm_exhaustion [of s] by (simp add: s_def)

end
