(* ===== verification/Paging.thy ===== *)
theory Paging
  imports Pmm
begin

text \<open>
  \<open>paging.c\<close>: the page directory, the one page table, and the operations that change them. The
  two arrays are record fields; their addresses are link parameters of \<open>hw\<close>. A pointer taken
  out of a directory entry reads and writes the array that lives at that address, and plain
  memory anywhere else. \<open>translate\<close> is the two-level walk of the 32-bit x86 MMU; it is the
  meaning of the tables, against which the operations are proved correct.
\<close>

record paging = pmm +
  page_directory :: "u32 list"
  first_page_table :: "u32 list"
  cr0 :: u32
  cr3 :: u32

abbreviation (input) PAGE_PRESENT :: u32 where "PAGE_PRESENT \<equiv> 0x001"
abbreviation (input) PAGE_RW :: u32 where "PAGE_RW \<equiv> 0x002"
abbreviation (input) PAGE_USER :: u32 where "PAGE_USER \<equiv> 0x004"

definition pd_index :: "u32 \<Rightarrow> nat" where
  "pd_index virt_addr = unat (drop_bit 22 virt_addr)"

definition pt_index :: "u32 \<Rightarrow> nat" where
  "pt_index virt_addr = unat (drop_bit 12 virt_addr AND 0x03FF)"

definition page_of :: "u32 \<Rightarrow> u32" where
  "page_of a = a AND NOT 0xFFF"

definition page_off :: "u32 \<Rightarrow> u32" where
  "page_off a = a AND 0xFFF"

definition present :: "u32 \<Rightarrow> bool" where
  "present e = (e AND PAGE_PRESENT \<noteq> 0)"

section \<open>Tables in memory\<close>

definition mem_load32 :: "u32 \<Rightarrow> 'a machine_scheme \<Rightarrow> u32" where
  "mem_load32 a s = load32 (map (\<lambda>k. mem s (a + of_nat k)) [0..<4]) 0"

definition mem_store32 :: "u32 \<Rightarrow> u32 \<Rightarrow> 'a machine_scheme \<Rightarrow> 'a machine_scheme" where
  "mem_store32 a v s = poke (a + 3) (ucast (drop_bit 24 v)) (poke (a + 2) (ucast (drop_bit 16 v))
     (poke (a + 1) (ucast (drop_bit 8 v)) (poke a (ucast v) s)))"

definition table_read :: "hw \<Rightarrow> u32 \<Rightarrow> nat \<Rightarrow> 'a paging_scheme \<Rightarrow> u32" where
  "table_read h base i s =
     (if base = addr_first_page_table h then first_page_table s ! i
      else if base = addr_page_directory h then page_directory s ! i
      else mem_load32 (base + 4 * of_nat i) s)"

definition table_write :: "hw \<Rightarrow> u32 \<Rightarrow> nat \<Rightarrow> u32 \<Rightarrow> 'a paging_scheme \<Rightarrow> 'a paging_scheme" where
  "table_write h base i v s =
     (if base = addr_first_page_table h then s\<lparr>first_page_table := (first_page_table s)[i := v]\<rparr>
      else if base = addr_page_directory h then s\<lparr>page_directory := (page_directory s)[i := v]\<rparr>
      else mem_store32 (base + 4 * of_nat i) v s)"

text \<open>The hardware's page walk: \<open>None\<close> is a page fault.\<close>

definition translate :: "hw \<Rightarrow> 'a paging_scheme \<Rightarrow> u32 \<Rightarrow> u32 option" where
  "translate h s va =
     (if cr0 s AND 0x80000000 = 0 then Some va
      else
        let pde = table_read h (cr3 s) (pd_index va) s in
        if \<not> present pde then None
        else
          let pte = table_read h (page_of pde) (pt_index va) s in
          if \<not> present pte then None else Some (page_of pte OR page_off va))"

section \<open>The operations\<close>

definition map_page :: "hw \<Rightarrow> u32 \<Rightarrow> u32 \<Rightarrow> u32 \<Rightarrow> 'a paging_scheme \<Rightarrow> 'a paging_scheme" where
  "map_page h phys_addr virt_addr flags s =
     (let pde = page_directory s ! pd_index virt_addr in
      if \<not> present pde then s
      else table_write h (page_of pde) (pt_index virt_addr)
             (page_of phys_addr OR page_off flags OR PAGE_PRESENT) s)"

definition unmap_page :: "hw \<Rightarrow> u32 \<Rightarrow> 'a paging_scheme \<Rightarrow> 'a paging_scheme" where
  "unmap_page h virt_addr s =
     (let pde = page_directory s ! pd_index virt_addr in
      if present pde then table_write h (page_of pde) (pt_index virt_addr) 0 s else s)"

text \<open>Steps 1 to 5 of \<open>paging_init\<close>; the calls to \<open>pmm_init\<close> and \<open>swap_init\<close> at its end are
  added in theory \<open>Swap\<close>.\<close>

definition paging_tables_init :: "hw \<Rightarrow> 'a paging_scheme \<Rightarrow> 'a paging_scheme" where
  "paging_tables_init h s =
     (let s = s\<lparr>page_directory := map (\<lambda>i. 0x00000002) [0..<1024]\<rparr>;
          s = s\<lparr>first_page_table :=
                 map (\<lambda>i. (of_nat i * PAGE_SIZE) OR PAGE_PRESENT OR PAGE_RW) [0..<1024]\<rparr>;
          s = s\<lparr>page_directory :=
                 (page_directory s)[0 := addr_first_page_table h OR PAGE_PRESENT OR PAGE_RW]\<rparr>;
          s = s\<lparr>cr3 := addr_page_directory h\<rparr>
      in s\<lparr>cr0 := cr0 s OR 0x80000000\<rparr>)"

section \<open>Invariant\<close>

text \<open>The linker places the two arrays at distinct page-aligned addresses (the \<open>aligned\<close>
  attributes of the source).\<close>

definition link_ok :: "hw \<Rightarrow> bool" where
  "link_ok h \<longleftrightarrow> page_off (addr_first_page_table h) = 0 \<and> page_off (addr_page_directory h) = 0
     \<and> addr_first_page_table h \<noteq> addr_page_directory h"

text \<open>Paging is on, the directory is the kernel's own, and its only present entry is entry 0,
  which points to the one page table.\<close>

definition paging_inv :: "hw \<Rightarrow> 'a paging_scheme \<Rightarrow> bool" where
  "paging_inv h s \<longleftrightarrow> length (page_directory s) = 1024 \<and> length (first_page_table s) = 1024
     \<and> cr3 s = addr_page_directory h \<and> cr0 s AND 0x80000000 \<noteq> 0
     \<and> page_directory s ! 0 = addr_first_page_table h OR PAGE_PRESENT OR PAGE_RW
     \<and> (\<forall>i. 0 < i \<and> i < 1024 \<longrightarrow> \<not> present (page_directory s ! i))"

definition paging_example :: paging where
  "paging_example = \<lparr>io = [], mem = (\<lambda>_. 0), current_loc = 0, free_mem_start = 0x400000,
     system_max_mem = 0x1000000, page_directory = [], first_page_table = [], cr0 = 0x11, cr3 = 0\<rparr>"

lemma link_ok_idle_board: "link_ok idle_board"
  by (simp add: link_ok_def idle_board_def page_off_def)

section \<open>Word lemmas for page addresses\<close>

lemma pd_index_less: "pd_index va < 1024"
  using unat_less_size [of va] by (simp add: pd_index_def unat_drop_bit_eq drop_bit_eq_div unat_div)

lemma unat_and_3FF: "unat (w AND 0x3FF) = unat w mod 1024" for w :: u32
  using unat_and_mask [of w 10] by (simp add: mask_eq_exp_minus_1)

lemma pt_index_less: "pt_index va < 1024"
  by (simp add: pt_index_def unat_and_3FF)

lemma unat_drop_bit: "unat (drop_bit n w) = unat w div 2 ^ n" for w :: "'a::len word"
  using unat_drop_bit_eq [of n w] by (simp only: drop_bit_eq_div)

lemma pd_index_0_iff: "pd_index va = 0 \<longleftrightarrow> va < 0x400000"
proof -
  have "pd_index va = unat va div 2 ^ 22" by (simp only: pd_index_def unat_drop_bit)
  then show ?thesis by (simp add: word_less_nat_alt div_eq_0_iff)
qed

lemma FFF_mask: "(0xFFF :: u32) = mask 12"
  by (simp add: mask_eq_exp_minus_1)

lemma bit_page_of: "bit (page_of a) n \<longleftrightarrow> 12 \<le> n \<and> bit a n"
  unfolding page_of_def FFF_mask
  using bit_imp_le_length [of a n]
  by (auto simp only: bit_and_iff bit_not_iff bit_mask_iff possible_bit_word not_less)

lemma bit_page_off: "bit (page_off a) n \<longleftrightarrow> n < 12 \<and> bit a n"
  unfolding page_off_def FFF_mask
  using bit_imp_le_length [of a n]
  by (auto simp only: bit_and_iff bit_mask_iff possible_bit_word)

lemma present_iff: "present e \<longleftrightarrow> bit e 0"
  by (auto simp: present_def bit_0 and_one_eq odd_iff_mod_2_eq_one)

lemma bit_rw: "bit PAGE_RW n \<longleftrightarrow> n = 1"
proof -
  have "PAGE_RW = push_bit 1 1" by simp
  then show ?thesis by (simp only: bit_push_bit_iff bit_1_iff) auto
qed

lemma page_off_page_of: "page_off (page_of a) = 0"
  by (rule bit_word_eqI) (auto simp: bit_page_off bit_page_of)

lemma page_of_off: "page_of a OR page_off a = a"
  by (rule bit_word_eqI) (auto simp: bit_page_off bit_page_of bit_or_iff)

lemma page_of_id: "page_off a = 0 \<Longrightarrow> page_of a = a"
  using page_of_off [of a] by simp

lemma page_of_entry: "page_of (page_of pa OR page_off fl OR PAGE_PRESENT) = page_of pa"
  by (rule bit_word_eqI) (auto simp: bit_page_off bit_page_of bit_or_iff bit_1_iff)

lemma present_entry: "present (w OR PAGE_PRESENT)"
  by (simp add: present_iff bit_or_iff)

lemma table_entry:
  assumes "page_off a = 0"
  shows "page_of (a OR PAGE_PRESENT OR PAGE_RW) = a" and "present (a OR PAGE_PRESENT OR PAGE_RW)"
proof -
  have "page_of (a OR PAGE_PRESENT OR PAGE_RW) = page_of a"
    by (rule bit_word_eqI) (auto simp only: bit_page_of bit_or_iff bit_1_iff bit_rw)
  then show "page_of (a OR PAGE_PRESENT OR PAGE_RW) = a" using page_of_id [OF assms] by simp
  show "present (a OR PAGE_PRESENT OR PAGE_RW)" by (simp add: present_iff bit_or_iff)
qed

text \<open>Under the invariant the walk is one read of the page table.\<close>

lemma dir_entry_0:
  assumes "paging_inv h s" and "link_ok h"
  shows "page_of (page_directory s ! 0) = addr_first_page_table h" and "present (page_directory s ! 0)"
proof -
  have "page_off (addr_first_page_table h) = 0" using assms(2) by (simp add: link_ok_def)
  note e = table_entry [OF this]
  show "page_of (page_directory s ! 0) = addr_first_page_table h" "present (page_directory s ! 0)"
    using assms(1) e by (simp_all only: paging_inv_def)
qed

lemma dir_entry_other:
  "paging_inv h s \<Longrightarrow> pd_index va \<noteq> 0 \<Longrightarrow> \<not> present (page_directory s ! pd_index va)"
  using pd_index_less [of va] by (simp add: paging_inv_def)

lemma translate_inv:
  assumes "paging_inv h s" and "link_ok h"
  shows "translate h s va =
     (if va < 0x400000 then
        let pte = first_page_table s ! pt_index va in
        if \<not> present pte then None else Some (page_of pte OR page_off va)
      else None)"
proof -
  have d: "table_read h (cr3 s) i s = page_directory s ! i" for i
    using assms by (auto simp: table_read_def paging_inv_def link_ok_def)
  have pg: "cr0 s AND 0x80000000 \<noteq> 0" using assms by (simp add: paging_inv_def)
  show ?thesis
  proof (cases "va < 0x400000")
    case True
    then have "pd_index va = 0" by (simp add: pd_index_0_iff)
    with True d pg dir_entry_0 [OF assms] show ?thesis
      by (simp add: translate_def table_read_def Let_def)
  next
    case False
    then have "pd_index va \<noteq> 0" by (simp add: pd_index_0_iff)
    with False d pg dir_entry_other [OF assms(1), of va] show ?thesis
      by (simp add: translate_def Let_def)
  qed
qed

lemma page_base:
  assumes "va < 0x400000"
  shows "of_nat (pt_index va) * 4096 = page_of va"
proof -
  have lt: "unat (drop_bit 12 va) < 1024"
    using assms by (simp add: unat_drop_bit word_less_nat_alt)
  then have "unat (drop_bit 12 va AND 0x3FF) = unat (drop_bit 12 va)"
    by (simp only: unat_and_3FF) simp
  then have "of_nat (pt_index va) = drop_bit 12 va" by (simp only: pt_index_def) simp
  moreover have "drop_bit 12 va * 4096 = push_bit 12 (drop_bit 12 va)"
    by (simp add: push_bit_eq_mult)
  moreover have "push_bit 12 (drop_bit 12 va) = page_of va"
    by (rule bit_word_eqI) (auto simp: bit_push_bit_iff bit_drop_bit_eq bit_page_of)
  ultimately show ?thesis by simp
qed

lemma same_page_region: "page_of va = page_of vb \<Longrightarrow> va < 0x400000 \<longleftrightarrow> vb < 0x400000"
proof -
  assume eq: "page_of va = page_of vb"
  have "drop_bit 22 w = drop_bit 22 (page_of w)" for w :: u32
    by (rule bit_word_eqI) (auto simp: bit_drop_bit_eq bit_page_of)
  then have "drop_bit 22 va = drop_bit 22 vb" using eq by metis
  then show ?thesis by (simp only: pd_index_0_iff [symmetric] pd_index_def)
qed

lemma pt_index_same_page:
  assumes "va < 0x400000" and "vb < 0x400000"
  shows "pt_index va = pt_index vb \<longleftrightarrow> page_of va = page_of vb"
proof
  assume "page_of va = page_of vb"
  then have "(of_nat (pt_index va) :: u32) * 4096 = of_nat (pt_index vb) * 4096"
    using assms by (simp only: page_base)
  then have "unat ((of_nat (pt_index va) :: u32) * 4096) = unat ((of_nat (pt_index vb) :: u32) * 4096)"
    by simp
  moreover have "unat ((of_nat (pt_index w) :: u32) * 4096) = pt_index w * 4096" for w
    using pt_index_less [of w] by (simp add: unat_word_ariths unat_of_nat_small)
  ultimately show "pt_index va = pt_index vb" by simp
next
  assume "pt_index va = pt_index vb"
  then show "page_of va = page_of vb"
    using page_base [OF assms(1)] page_base [OF assms(2)] by simp
qed

section \<open>Boot: identity mapping of the first 4 MB\<close>

lemma identity_entry:
  assumes "i < 1024"
  shows "page_of ((of_nat i * PAGE_SIZE) OR PAGE_PRESENT OR PAGE_RW) = of_nat i * 4096"
    and "present ((of_nat i * PAGE_SIZE) OR PAGE_PRESENT OR PAGE_RW)"
proof -
  have e: "(of_nat i :: u32) * PAGE_SIZE = push_bit 12 (of_nat i)"
    by (simp add: PAGE_SIZE_def push_bit_eq_mult)
  have "page_off (push_bit 12 (of_nat i)) = 0"
    by (rule bit_word_eqI) (auto simp: bit_page_off bit_push_bit_iff)
  note f = table_entry [OF this]
  show "page_of ((of_nat i * PAGE_SIZE) OR PAGE_PRESENT OR PAGE_RW) = of_nat i * 4096"
    unfolding e f(1) by (simp add: push_bit_eq_mult)
  show "present ((of_nat i * PAGE_SIZE) OR PAGE_PRESENT OR PAGE_RW)"
    unfolding e by (rule f(2))
qed

lemma or_high_bit: "(w OR 0x80000000) AND 0x80000000 \<noteq> 0" for w :: u32
proof
  assume z: "(w OR 0x80000000) AND 0x80000000 = 0"
  have "(0x80000000 :: u32) = push_bit 31 1" by simp
  then have "bit (0x80000000 :: u32) 31" by (simp only: bit_push_bit_iff bit_1_iff) simp
  then have "bit ((w OR 0x80000000) AND 0x80000000) 31" by (simp only: bit_and_iff bit_or_iff) simp
  then show False by (simp only: z bit_0_eq bot_apply bot_bool_def)
qed

lemma paging_tables_init_inv:
  assumes "link_ok h"
  shows "paging_inv h (paging_tables_init h s)"
proof -
  have "\<not> present 2" by (simp add: present_def)
  then show ?thesis by (auto simp: paging_inv_def paging_tables_init_def Let_def or_high_bit)
qed

lemma paging_identity_fact:
  assumes "link_ok h"
  shows "translate h (paging_tables_init h s) va = (if va < 0x400000 then Some va else None)"
proof -
  have e: "first_page_table (paging_tables_init h s) ! pt_index va
      = (of_nat (pt_index va) * PAGE_SIZE) OR PAGE_PRESENT OR PAGE_RW"
    using pt_index_less [of va] by (simp add: paging_tables_init_def Let_def)
  show ?thesis
    unfolding translate_inv [OF paging_tables_init_inv [OF assms] assms] e Let_def
    using identity_entry [OF pt_index_less [of va]] page_base [of va] page_of_off [of va]
    by (cases "va < 0x400000") (simp_all only: if_True if_False simp_thms)
qed

text \<open>C37: after \<open>paging_init\<close> every address below 4 MB is mapped to itself and every access at or
  above 4 MB faults.\<close>

theorem paging_identity:
  assumes "link_ok h"
  shows "translate h (paging_tables_init h s) va = (if va < 0x400000 then Some va else None)"
  using assms by (rule paging_identity_fact)

theorem paging_identity_witness:
  "translate idle_board (paging_tables_init idle_board paging_example) 0xB8123 = Some 0xB8123"
  using paging_identity [OF link_ok_idle_board, of paging_example "0xB8123"] by simp

section \<open>map_page and unmap_page\<close>

lemma map_page_inv_eq:
  assumes "paging_inv h s" and "link_ok h"
  shows "map_page h pa va fl s =
     (if va < 0x400000 then
        s\<lparr>first_page_table := (first_page_table s)
            [pt_index va := page_of pa OR page_off fl OR PAGE_PRESENT]\<rparr>
      else s)"
  using dir_entry_0 [OF assms] dir_entry_other [OF assms(1), of va] pd_index_0_iff [of va]
  by (cases "va < 0x400000") (simp_all add: map_page_def table_write_def Let_def)

lemma unmap_page_inv_eq:
  assumes "paging_inv h s" and "link_ok h"
  shows "unmap_page h va s =
     (if va < 0x400000 then s\<lparr>first_page_table := (first_page_table s)[pt_index va := 0]\<rparr> else s)"
  using dir_entry_0 [OF assms] dir_entry_other [OF assms(1), of va] pd_index_0_iff [of va]
  by (cases "va < 0x400000") (simp_all add: unmap_page_def table_write_def Let_def)

lemma paging_inv_table_update:
  "paging_inv h s \<Longrightarrow> paging_inv h (s\<lparr>first_page_table := (first_page_table s)[i := v]\<rparr>)"
  by (simp add: paging_inv_def)

lemma map_page_inv: "paging_inv h s \<Longrightarrow> link_ok h \<Longrightarrow> paging_inv h (map_page h pa va fl s)"
  by (simp add: map_page_inv_eq paging_inv_table_update)

lemma unmap_page_inv: "paging_inv h s \<Longrightarrow> link_ok h \<Longrightarrow> paging_inv h (unmap_page h va s)"
  by (simp add: unmap_page_inv_eq paging_inv_table_update)

lemma translate_table_update:
  assumes "paging_inv h s" and "link_ok h" and "va < 0x400000"
  shows "translate h (s\<lparr>first_page_table := (first_page_table s)[pt_index va := v]\<rparr>) vb =
     (if page_of vb = page_of va then
        if \<not> present v then None else Some (page_of v OR page_off vb)
      else translate h s vb)"
proof (cases "vb < 0x400000")
  case True
  have "length (first_page_table s) = 1024" using assms by (simp add: paging_inv_def)
  with True pt_index_same_page [OF True assms(3)] pt_index_less [of va] show ?thesis
    by (auto simp: translate_inv [OF paging_inv_table_update [OF assms(1)] assms(2)]
        translate_inv [OF assms(1,2)] Let_def)
next
  case False
  with same_page_region [of vb va] assms(3) show ?thesis
    by (auto simp: translate_inv [OF paging_inv_table_update [OF assms(1)] assms(2)]
        translate_inv [OF assms(1,2)])
qed

text \<open>C25: \<open>map_page\<close> of a virtual address in the first 4 MB maps its whole page to the given
  frame, whatever the flags, and leaves the translation of every other address alone.\<close>

theorem map_page_translate:
  assumes "paging_inv h s" and "link_ok h" and "va < 0x400000"
  shows "translate h (map_page h pa va fl s) vb =
     (if page_of vb = page_of va then Some (page_of pa OR page_off vb) else translate h s vb)"
  using page_of_entry [of pa fl] present_entry [of "page_of pa OR page_off fl"]
    translate_table_update [OF assms] assms
  by (simp only: map_page_inv_eq if_True if_False simp_thms or.assoc)

theorem map_page_translate_witness:
  "translate idle_board (map_page idle_board 0x500000 0x3000 7
      (paging_tables_init idle_board paging_example)) 0x3456 = Some 0x500456"
  using map_page_translate [OF paging_tables_init_inv [OF link_ok_idle_board, of paging_example] link_ok_idle_board,
      where va = "0x3000" and pa = "0x500000" and fl = 7 and vb = "0x3456"]
  by (simp add: page_of_def page_off_def)

text \<open>\<open>unmap_page\<close> makes exactly the one page inaccessible.\<close>

theorem unmap_page_translate:
  assumes "paging_inv h s" and "link_ok h" and "va < 0x400000"
  shows "translate h (unmap_page h va s) vb =
     (if page_of vb = page_of va then None else translate h s vb)"
proof -
  have "\<not> present 0" by (simp add: present_def)
  then show ?thesis using translate_table_update [OF assms] assms
    by (simp only: unmap_page_inv_eq if_True if_False simp_thms)
qed

theorem unmap_page_translate_witness:
  "translate idle_board (unmap_page idle_board 0x3000
      (paging_tables_init idle_board paging_example)) 0x3456 = None"
  using unmap_page_translate [OF paging_tables_init_inv [OF link_ok_idle_board, of paging_example] link_ok_idle_board,
      where va = "0x3000" and vb = "0x3456"]
  by (simp add: page_of_def)

text \<open>above 4 MB \<open>map_page\<close> and \<open>unmap_page\<close> return without doing anything: there is no page
  table there and none is allocated.\<close>

theorem map_page_above_4MB:
  assumes "paging_inv h s" and "link_ok h" and "0x400000 \<le> va"
  shows "map_page h pa va fl s = s \<and> unmap_page h va s = s \<and> translate h s va = None"
  using assms by (simp add: map_page_inv_eq unmap_page_inv_eq translate_inv linorder_not_less [symmetric])

theorem map_page_above_4MB_witness:
  "map_page idle_board 0x500000 0x400000 7 (paging_tables_init idle_board paging_example)
     = paging_tables_init idle_board paging_example"
  using map_page_above_4MB [OF paging_tables_init_inv [OF link_ok_idle_board, of paging_example] link_ok_idle_board,
      where va = "0x400000" and pa = "0x500000" and fl = 7] by simp

end
