(* ===== verification/Swap.thy ===== *)
theory Swap
  imports Paging
begin

text \<open>
  \<open>swap.c\<close> and the page-fault handler of \<open>paging.c\<close>. The swap store is a table of 256 pages; the
  loops that copy a page go through the MMU, so a copy can fault, and a fault inside the handler
  is an outcome of its own. The lemmas show that the store implements a map from pages to
  contents, and what demand paging achieves on the tables the kernel sets up.
\<close>

record swap_page =
  virt_addr :: u32
  data :: "u8 list"
  used :: bool

record swap = paging +
  swap_storage :: "swap_page list"

definition SWAP_MAX_PAGES :: nat where "SWAP_MAX_PAGES = 256"

section \<open>The MMU on loads and stores\<close>

definition mmu_store :: "hw \<Rightarrow> u32 \<Rightarrow> u8 \<Rightarrow> 'a paging_scheme \<Rightarrow> u32 + 'a paging_scheme" where
  "mmu_store h va b s =
     (case translate h s va of None \<Rightarrow> Inl va | Some pa \<Rightarrow> Inr (poke pa b s))"

definition mmu_load :: "hw \<Rightarrow> u32 \<Rightarrow> 'a paging_scheme \<Rightarrow> u8 option" where
  "mmu_load h va s = (case translate h s va of None \<Rightarrow> None | Some pa \<Rightarrow> Some (mem s pa))"

section \<open>The swap store\<close>

definition swap_init :: "'a swap_scheme \<Rightarrow> 'a swap_scheme" where
  "swap_init s =
     s\<lparr>swap_storage := map (\<lambda>p. p\<lparr>used := False, virt_addr := 0\<rparr>) (swap_storage s)\<rparr>"

definition swap_find_index :: "u32 \<Rightarrow> 'a swap_scheme \<Rightarrow> int" where
  "swap_find_index va s =
     scan (\<lambda>i. used (swap_storage s ! i) \<and> virt_addr (swap_storage s ! i) = page_of va)
       SWAP_MAX_PAGES"

definition swap_exists :: "u32 \<Rightarrow> 'a swap_scheme \<Rightarrow> bool" where
  "swap_exists va s = (swap_find_index va s \<noteq> -1)"

text \<open>\<open>for (i = 0; i < PAGE_SIZE; i++) dest[i] = ...\<close>; \<open>Inl\<close> is the address that faulted and the
  state at that moment.\<close>

fun copy_out :: "hw \<Rightarrow> u32 \<Rightarrow> u8 list \<Rightarrow> 'a swap_scheme \<Rightarrow> (u32 \<times> 'a swap_scheme) + 'a swap_scheme"
where
  "copy_out h dest [] s = Inr s"
| "copy_out h dest (b # bs) s =
     (case mmu_store h dest b s of Inl va \<Rightarrow> Inl (va, s) | Inr s' \<Rightarrow> copy_out h (dest + 1) bs s')"

definition swap_read ::
  "hw \<Rightarrow> u32 \<Rightarrow> u32 \<Rightarrow> 'a swap_scheme \<Rightarrow> (u32 \<times> 'a swap_scheme) + 'a swap_scheme" where
  "swap_read h va phys s =
     (let idx = swap_find_index va s in
      if idx \<noteq> -1 then copy_out h phys (data (swap_storage s ! nat idx)) s else Inr s)"

text \<open>\<open>for (i = 0; i < PAGE_SIZE; i++) swap_storage[idx].data[i] = src[i]\<close>, \<open>n\<close> bytes to go.\<close>

fun copy_in ::
  "hw \<Rightarrow> nat \<Rightarrow> u32 \<Rightarrow> nat \<Rightarrow> nat \<Rightarrow> 'a swap_scheme \<Rightarrow> (u32 \<times> 'a swap_scheme) + 'a swap_scheme"
where
  "copy_in h idx src i 0 s = Inr s"
| "copy_in h idx src i (Suc n) s =
     (case mmu_load h (src + of_nat i) s of
        None \<Rightarrow> Inl (src + of_nat i, s)
      | Some b \<Rightarrow>
          let p = swap_storage s ! idx in
          copy_in h idx src (Suc i) n
            (s\<lparr>swap_storage := (swap_storage s)[idx := p\<lparr>data := (data p)[i := b]\<rparr>]\<rparr>))"

definition swap_free_slot :: "'a swap_scheme \<Rightarrow> int" where
  "swap_free_slot s = scan (\<lambda>i. \<not> used (swap_storage s ! i)) SWAP_MAX_PAGES"

definition swap_claim :: "nat \<Rightarrow> u32 \<Rightarrow> 'a swap_scheme \<Rightarrow> 'a swap_scheme" where
  "swap_claim i va s =
     s\<lparr>swap_storage := (swap_storage s)
         [i := (swap_storage s ! i)\<lparr>used := True, virt_addr := page_of va\<rparr>]\<rparr>"

definition swap_write ::
  "hw \<Rightarrow> u32 \<Rightarrow> u32 \<Rightarrow> 'a swap_scheme \<Rightarrow> (u32 \<times> 'a swap_scheme) + 'a swap_scheme" where
  "swap_write h va phys s =
     (let idx = swap_find_index va s;
          (idx, s) = (if idx = -1 then
                        let i = swap_free_slot s in
                        if i \<noteq> -1 then (i, swap_claim (nat i) va s) else (-1, s)
                      else (idx, s))
      in if idx \<noteq> -1 then copy_in h (nat idx) phys 0 4096 s else Inr s)"

text \<open>\<open>while (data[c] && c < PAGE_SIZE)\<close> of \<open>swap_test_store\<close>.\<close>

function store_string :: "char list \<Rightarrow> nat \<Rightarrow> u8 list \<Rightarrow> u8 list" where
  "store_string str c d =
     (if charat str c \<noteq> NUL \<and> c < 4096 then store_string str (c + 1) (d[c := of_char (charat str c)])
      else d)"
  by pat_completeness auto
termination by (relation "measure (\<lambda>(str, c, d). 4096 - c)") auto

declare store_string.simps [simp del]

definition swap_test_store :: "u32 \<Rightarrow> char list \<Rightarrow> 'a swap_scheme \<Rightarrow> 'a swap_scheme" where
  "swap_test_store va str s =
     (let idx = swap_free_slot s in
      if idx \<noteq> -1 then
        let s = swap_claim (nat idx) va s; p = swap_storage s ! nat idx in
        s\<lparr>swap_storage := (swap_storage s)[nat idx := p\<lparr>data := store_string str 0 (data p)\<rparr>]\<rparr>
      else s)"

definition paging_init :: "hw \<Rightarrow> 'a swap_scheme \<Rightarrow> 'a swap_scheme" where
  "paging_init h s = swap_init (pmm_init 0x1000000 (paging_tables_init h s))"

section \<open>The page-fault handler\<close>

text \<open>The handler resumes the interrupted code, or halts the machine after the panic message, or
  faults itself (the processor re-enters the handler for the address given).\<close>

datatype 's pf_outcome = Resumed 's | Halted 's | Nested_fault u32 's

definition put_message :: "nat \<Rightarrow> u8 \<Rightarrow> char list \<Rightarrow> 'a machine_scheme \<Rightarrow> 'a machine_scheme" where
  "put_message offset attr msg s =
     fold (\<lambda>(i, c) s. poke (0xb8000 + of_nat (offset + i * 2 + 1)) attr
                       (poke (0xb8000 + of_nat (offset + i * 2)) (of_char c) s))
       (enumerate 0 msg) s"

definition pf_panic :: "'a machine_scheme \<Rightarrow> 'a machine_scheme" where
  "pf_panic s = put_message 0 0x4F ''PAGE FAULT DETECTED!'' s"

definition page_fault_handler :: "hw \<Rightarrow> u32 \<Rightarrow> 'a swap_scheme \<Rightarrow> 'a swap_scheme pf_outcome" where
  "page_fault_handler h faulting_address s =
     (if swap_exists faulting_address s then
        let (new_phys, s) = pmm_alloc_page s in
        if new_phys = 0 then Halted (pf_panic s)
        else
          case swap_read h faulting_address new_phys s of
            Inl (va, s) \<Rightarrow> Nested_fault va s
          | Inr s \<Rightarrow>
              let s = map_page h new_phys faulting_address (PAGE_PRESENT OR PAGE_RW OR PAGE_USER) s
              in Resumed (put_message (80 * 24 * 2) 0x02
                   ''Page Fault Handled: Loaded from Swap!'' s)
      else Halted (pf_panic s))"


section \<open>Invariant and frames\<close>

text \<open>256 slots of one page each; slots are claimed from the front and never given back, so the
  used slots are a prefix of the table.\<close>

definition swap_inv :: "'a swap_scheme \<Rightarrow> bool" where
  "swap_inv s \<longleftrightarrow> length (swap_storage s) = SWAP_MAX_PAGES
     \<and> (\<forall>i<SWAP_MAX_PAGES. length (data (swap_storage s ! i)) = 4096)
     \<and> (\<forall>i<SWAP_MAX_PAGES. \<forall>j<i. used (swap_storage s ! i) \<longrightarrow> used (swap_storage s ! j))"

lemma table_read_swap [simp]: "table_read h b i (s\<lparr>swap_storage := x\<rparr>) = table_read h b i s"
  by (simp add: table_read_def mem_load32_def)

lemma translate_swap [simp]: "translate h (s\<lparr>swap_storage := x\<rparr>) va = translate h s va"
  by (simp add: translate_def Let_def)

lemma mmu_load_swap [simp]: "mmu_load h va (s\<lparr>swap_storage := x\<rparr>) = mmu_load h va s"
  by (simp add: mmu_load_def split: option.split)

lemma paging_inv_swap [simp]: "paging_inv h (s\<lparr>swap_storage := x\<rparr>) = paging_inv h s"
  by (simp add: paging_inv_def)

lemma paging_inv_mem [simp]: "paging_inv h (s\<lparr>mem := x\<rparr>) = paging_inv h s"
  by (simp add: paging_inv_def)

lemma paging_inv_pmm [simp]:
  "paging_inv h (s\<lparr>free_mem_start := x\<rparr>) = paging_inv h s"
  "paging_inv h (s\<lparr>system_max_mem := x\<rparr>) = paging_inv h s"
  by (simp_all add: paging_inv_def)

lemma translate_mem:
  "paging_inv h s \<Longrightarrow> link_ok h \<Longrightarrow> translate h (s\<lparr>mem := x\<rparr>) va = translate h s va"
  by (simp add: translate_inv)

section \<open>The store as a map from pages to contents\<close>

definition swap_lookup :: "u32 \<Rightarrow> 'a swap_scheme \<Rightarrow> u8 list option" where
  "swap_lookup va s =
     (let i = swap_find_index va s in if i = -1 then None else Some (data (swap_storage s ! nat i)))"

lemma swap_find_index_range:
  "swap_find_index va s \<noteq> -1 \<Longrightarrow> nat (swap_find_index va s) < 256
     \<and> int (nat (swap_find_index va s)) = swap_find_index va s"
  using scan_found_nat [of _ SWAP_MAX_PAGES] unfolding swap_find_index_def SWAP_MAX_PAGES_def by blast

lemma swap_lookup_data_update:
  assumes "swap_find_index va s = int i" and "swap_inv s"
  shows "swap_lookup vb (s\<lparr>swap_storage := (swap_storage s)[i := (swap_storage s ! i)\<lparr>data := d\<rparr>]\<rparr>)
     = (if page_of vb = page_of va then Some d else swap_lookup vb s)"
proof -
  let ?s = "s\<lparr>swap_storage := (swap_storage s)[i := (swap_storage s ! i)\<lparr>data := d\<rparr>]\<rparr>"
  have i: "i < 256" "used (swap_storage s ! i)" "virt_addr (swap_storage s ! i) = page_of va"
    using assms(1) by (auto simp: swap_find_index_def scan_found_iff SWAP_MAX_PAGES_def)
  have len: "length (swap_storage s) = 256" using assms(2) by (simp add: swap_inv_def SWAP_MAX_PAGES_def)
  have same: "swap_find_index w ?s = swap_find_index w s" for w
    unfolding swap_find_index_def
    by (rule scan_cong) (use len i(1) in \<open>auto simp: nth_list_update SWAP_MAX_PAGES_def\<close>)
  show ?thesis
  proof (cases "page_of vb = page_of va")
    case True
    then have "swap_find_index vb s = swap_find_index va s" by (simp add: swap_find_index_def)
    then show ?thesis using True assms(1) i len by (simp add: swap_lookup_def same)
  next
    case False
    have "nat (swap_find_index vb s) \<noteq> i" if "swap_find_index vb s \<noteq> -1"
    proof
      assume "nat (swap_find_index vb s) = i"
      then have "swap_find_index vb s = int i" using swap_find_index_range [OF that] by simp
      then have "virt_addr (swap_storage s ! i) = page_of vb"
        by (simp add: swap_find_index_def scan_found_iff)
      then show False using i False by simp
    qed
    then show ?thesis using False by (auto simp: swap_lookup_def same Let_def)
  qed
qed

lemma swap_claim_find:
  assumes "swap_inv s" and "swap_free_slot s = int i" and "swap_find_index va s = -1"
  shows "swap_inv (swap_claim i va s)" and "swap_find_index va (swap_claim i va s) = int i"
    and "page_of vb \<noteq> page_of va \<Longrightarrow> swap_lookup vb (swap_claim i va s) = swap_lookup vb s"
proof -
  have i: "i < 256" "\<not> used (swap_storage s ! i)" "\<forall>j<i. used (swap_storage s ! j)"
    using assms(2) by (auto simp: swap_free_slot_def scan_found_iff SWAP_MAX_PAGES_def)
  have len: "length (swap_storage s) = 256" using assms(1) by (simp add: swap_inv_def SWAP_MAX_PAGES_def)
  have nf: "\<forall>j<256. \<not> (used (swap_storage s ! j) \<and> virt_addr (swap_storage s ! j) = page_of va)"
    using assms(3) by (simp add: swap_find_index_def scan_none_iff SWAP_MAX_PAGES_def)
  show "swap_inv (swap_claim i va s)"
    using assms(1) i len unfolding swap_inv_def SWAP_MAX_PAGES_def swap_claim_def
    by (auto simp: nth_list_update)
  show "swap_find_index va (swap_claim i va s) = int i"
    using i len nf unfolding swap_find_index_def swap_claim_def scan_found_iff
    by (auto simp: nth_list_update SWAP_MAX_PAGES_def)
  assume ne: "page_of vb \<noteq> page_of va"
  have same: "swap_find_index vb (swap_claim i va s) = swap_find_index vb s"
    unfolding swap_find_index_def swap_claim_def
    by (rule scan_cong) (use len i ne in \<open>auto simp: nth_list_update SWAP_MAX_PAGES_def\<close>)
  have "nat (swap_find_index vb s) \<noteq> i" if "swap_find_index vb s \<noteq> -1"
  proof
    assume "nat (swap_find_index vb s) = i"
    then have "swap_find_index vb s = int i" using swap_find_index_range [OF that] by simp
    then show False using i by (simp add: swap_find_index_def scan_found_iff)
  qed
  moreover have "swap_storage (swap_claim i va s) ! k = swap_storage s ! k" if "k \<noteq> i" for k
    using that by (simp add: swap_claim_def)
  ultimately show "swap_lookup vb (swap_claim i va s) = swap_lookup vb s"
    by (auto simp: swap_lookup_def same Let_def)
qed

lemma copy_in_bytes:
  assumes "idx < length (swap_storage s)" and "length (data (swap_storage s ! idx)) = 4096"
    and "i + n \<le> 4096" and "\<forall>k<n. mmu_load h (src + of_nat (i + k)) s = Some (f (i + k))"
  shows "\<exists>d. copy_in h idx src i n s
        = Inr (s\<lparr>swap_storage := (swap_storage s)[idx := (swap_storage s ! idx)\<lparr>data := d\<rparr>]\<rparr>)
     \<and> length d = 4096
     \<and> (\<forall>k<4096. d ! k = (if i \<le> k \<and> k < i + n then f k else data (swap_storage s ! idx) ! k))"
  using assms
proof (induction n arbitrary: i s)
  case 0
  then show ?case by (intro exI [of _ "data (swap_storage s ! idx)"]) auto
next
  case (Suc n)
  let ?p = "swap_storage s ! idx"
  let ?t = "s\<lparr>swap_storage := (swap_storage s)[idx := ?p\<lparr>data := (data ?p)[i := f i]\<rparr>]\<rparr>"
  have l: "mmu_load h (src + of_nat i) s = Some (f i)" using Suc.prems(4) by auto
  have "\<forall>k<n. mmu_load h (src + of_nat (Suc i + k)) ?t = Some (f (Suc i + k))"
  proof (intro allI impI)
    fix k assume "k < n"
    then have "mmu_load h (src + of_nat (i + Suc k)) s = Some (f (i + Suc k))"
      using Suc.prems(4) by blast
    then show "mmu_load h (src + of_nat (Suc i + k)) ?t = Some (f (Suc i + k))" by simp
  qed
  from Suc.IH [OF _ _ _ this] Suc.prems obtain d where
    d: "copy_in h idx src (Suc i) n ?t
        = Inr (?t\<lparr>swap_storage := (swap_storage ?t)[idx := (swap_storage ?t ! idx)\<lparr>data := d\<rparr>]\<rparr>)"
    "length d = 4096"
    "\<forall>k<4096. d ! k = (if Suc i \<le> k \<and> k < Suc i + n then f k else (data ?p)[i := f i] ! k)"
    by auto
  have "d ! k = (if i \<le> k \<and> k < i + Suc n then f k else data ?p ! k)" if "k < 4096" for k
    using d(3) that Suc.prems(2,3) by (cases "k = i") (auto simp: nth_list_update)
  then show ?case using d(1,2) l Suc.prems(1) by (auto simp: Let_def)
qed

text \<open>The slot \<open>swap_write\<close> uses: the page's own, or a free one it claims first.\<close>

lemma swap_slot:
  assumes "swap_inv s" and "swap_exists va s \<or> swap_free_slot s \<noteq> -1"
  shows "\<exists>t i x. t = s\<lparr>swap_storage := x\<rparr> \<and> swap_inv t \<and> swap_find_index va t = int i
      \<and> (\<forall>vb. page_of vb \<noteq> page_of va \<longrightarrow> swap_lookup vb t = swap_lookup vb s)
      \<and> (\<forall>h phys. swap_write h va phys s = copy_in h i phys 0 4096 t)"
proof (cases "swap_find_index va s = -1")
  case True
  then have nf: "swap_free_slot s \<noteq> -1" using assms(2) by (simp add: swap_exists_def)
  then obtain i where i: "swap_free_slot s = int i"
    using scan_found_nat [of _ SWAP_MAX_PAGES] unfolding swap_free_slot_def by metis
  have w: "swap_write h va phys s = copy_in h i phys 0 4096 (swap_claim i va s)" for h phys
    using True i by (simp add: swap_write_def)
  have e: "\<exists>x. swap_claim i va s = s\<lparr>swap_storage := x\<rparr>" by (auto simp: swap_claim_def)
  then show ?thesis using w swap_claim_find [OF assms(1) i True] by metis
next
  case False
  then obtain i where i: "swap_find_index va s = int i" using swap_find_index_range by metis
  have "swap_write h va phys s = copy_in h i phys 0 4096 s" for h phys
    using i by (simp add: swap_write_def)
  moreover have "s = s\<lparr>swap_storage := swap_storage s\<rparr>" by simp
  ultimately show ?thesis using i assms(1) by metis
qed

lemma swap_write_lookup_fact:
  assumes "swap_inv s" and "swap_exists va s \<or> swap_free_slot s \<noteq> -1"
    and "\<forall>k<4096. mmu_load h (phys + of_nat k) s = Some (f k)"
  shows "\<exists>x. swap_write h va phys s = Inr (s\<lparr>swap_storage := x\<rparr>) \<and> swap_inv (s\<lparr>swap_storage := x\<rparr>)
     \<and> (\<forall>vb. swap_lookup vb (s\<lparr>swap_storage := x\<rparr>)
          = (if page_of vb = page_of va then Some (map f [0..<4096]) else swap_lookup vb s))"
proof -
  obtain t i x where t: "t = s\<lparr>swap_storage := x\<rparr>" "swap_inv t" "swap_find_index va t = int i"
      "\<forall>vb. page_of vb \<noteq> page_of va \<longrightarrow> swap_lookup vb t = swap_lookup vb s"
      "swap_write h va phys s = copy_in h i phys 0 4096 t"
    using swap_slot [OF assms(1,2)] by metis
  have i: "i < 256" using t(3) by (simp add: swap_find_index_def scan_found_iff SWAP_MAX_PAGES_def)
  have len: "length (swap_storage t) = 256" "length (data (swap_storage t ! i)) = 4096"
    using t(2) i by (simp_all add: swap_inv_def SWAP_MAX_PAGES_def)
  have "\<forall>k<4096. mmu_load h (phys + of_nat k) t = Some (f k)" using assms(3) t(1) by simp
  then obtain d where d: "copy_in h i phys 0 4096 t
        = Inr (t\<lparr>swap_storage := (swap_storage t)[i := (swap_storage t ! i)\<lparr>data := d\<rparr>]\<rparr>)"
      "length d = 4096" "\<forall>k<4096. d ! k = f k"
    using copy_in_bytes [of i t 0 4096 h phys f] i len by auto
  let ?x = "(swap_storage t)[i := (swap_storage t ! i)\<lparr>data := d\<rparr>]"
  have dm: "d = map f [0..<4096]" using d(2,3) by (intro nth_equalityI) simp_all
  have inv: "swap_inv (t\<lparr>swap_storage := ?x\<rparr>)"
    using t(2) i d(2) len(1) unfolding swap_inv_def SWAP_MAX_PAGES_def
    by (auto simp: nth_list_update)
  have "swap_lookup vb (t\<lparr>swap_storage := ?x\<rparr>)
      = (if page_of vb = page_of va then Some (map f [0..<4096]) else swap_lookup vb s)" for vb
    using swap_lookup_data_update [OF t(3,2)] t(4) dm by simp
  moreover have "t\<lparr>swap_storage := ?x\<rparr> = s\<lparr>swap_storage := ?x\<rparr>" using t(1) by simp
  ultimately show ?thesis using t(5) d(1) inv by metis
qed

text \<open>C39: if the page is in the store or a slot is free, and the source page can be read, \<open>swap_write\<close>
  records the 4096 bytes under the page's address and leaves every other page's contents alone;
  the table keeps its invariant.\<close>

theorem swap_write_lookup:
  assumes "swap_inv s" and "swap_exists va s \<or> swap_free_slot s \<noteq> -1"
    and "\<forall>k<4096. mmu_load h (phys + of_nat k) s = Some (f k)"
  shows "\<exists>x. swap_write h va phys s = Inr (s\<lparr>swap_storage := x\<rparr>) \<and> swap_inv (s\<lparr>swap_storage := x\<rparr>)
     \<and> (\<forall>vb. swap_lookup vb (s\<lparr>swap_storage := x\<rparr>)
          = (if page_of vb = page_of va then Some (map f [0..<4096]) else swap_lookup vb s))"
  using assms by (rule swap_write_lookup_fact)

text \<open>when all 256 slots are taken, \<open>swap_write\<close> of a new page silently drops it.\<close>

theorem swap_write_full:
  assumes "\<not> swap_exists va s" and "swap_free_slot s = -1"
  shows "swap_write h va phys s = Inr s"
  using assms by (simp add: swap_write_def swap_exists_def)

lemma copy_out_identity:
  assumes "paging_inv h s" and "link_ok h" and "length bs \<le> 4096"
    and "\<forall>k<length bs. translate h s (dest + of_nat k) = Some (dest + of_nat k)"
  shows "copy_out h dest bs s
     = Inr (s\<lparr>mem := (\<lambda>a. if unat (a - dest) < length bs then bs ! unat (a - dest) else mem s a)\<rparr>)"
  using assms
proof (induction bs arbitrary: dest s)
  case Nil
  then show ?case by simp
next
  case (Cons b bs)
  let ?t = "s\<lparr>mem := (mem s)(dest := b)\<rparr>"
  have "translate h s dest = Some dest" using Cons.prems(4) by force
  then have st: "mmu_store h dest b s = Inr ?t" by (simp add: mmu_store_def poke_def)
  have "\<forall>k<length bs. translate h ?t (dest + 1 + of_nat k) = Some (dest + 1 + of_nat k)"
  proof (intro allI impI)
    fix k assume "k < length bs"
    then have "translate h s (dest + of_nat (Suc k)) = Some (dest + of_nat (Suc k))"
      using Cons.prems(4) by (simp del: of_nat_Suc)
    then show "translate h ?t (dest + 1 + of_nat k) = Some (dest + 1 + of_nat k)"
      using Cons.prems(1,2) by (simp add: translate_mem add.assoc)
  qed
  with Cons.IH [of ?t "dest + 1"] Cons.prems
  have IH: "copy_out h (dest + 1) bs ?t = Inr (?t\<lparr>mem := (\<lambda>a. if unat (a - (dest + 1)) < length bs
       then bs ! unat (a - (dest + 1)) else mem ?t a)\<rparr>)" by simp
  have eq: "(\<lambda>a. if unat (a - (dest + 1)) < length bs then bs ! unat (a - (dest + 1)) else mem ?t a)
      = (\<lambda>a. if unat (a - dest) < length (b # bs) then (b # bs) ! unat (a - dest) else mem s a)"
  proof
    fix a
    show "(if unat (a - (dest + 1)) < length bs then bs ! unat (a - (dest + 1)) else mem ?t a)
      = (if unat (a - dest) < length (b # bs) then (b # bs) ! unat (a - dest) else mem s a)"
  proof (cases "a = dest")
    case True
    have "unat (- 1 :: u32) = 4294967295" by (simp add: unsigned_minus_1_eq_mask mask_eq_exp_minus_1)
    then show ?thesis using True Cons.prems(3) by simp
  next
    case False
    then have "a - dest \<noteq> 0" by simp
    then have "unat (a - dest) = Suc (unat (a - (dest + 1)))"
      using unatSuc [of "a - (dest + 1)"] by (simp add: algebra_simps)
    then show ?thesis using False by simp
  qed
  qed
  have "copy_out h dest (b # bs) s = copy_out h (dest + 1) bs ?t" using st by simp
  then show ?case unfolding IH eq by simp
qed

text \<open>A page-sized region that the MMU maps to itself.\<close>

definition identity_region :: "hw \<Rightarrow> 'a paging_scheme \<Rightarrow> u32 \<Rightarrow> bool" where
  "identity_region h s a \<longleftrightarrow> (\<forall>k<4096. translate h s (a + of_nat k) = Some (a + of_nat k))"

text \<open>C27: what \<open>swap_write\<close> saved from one frame, \<open>swap_read\<close> puts back into another, byte for byte.\<close>

theorem swap_roundtrip:
  assumes "paging_inv h s" and "link_ok h" and "swap_inv s"
    and "swap_exists va s \<or> swap_free_slot s \<noteq> -1"
    and "identity_region h s src" and "identity_region h s dst"
  shows "\<exists>s1 s2. swap_write h va src s = Inr s1 \<and> swap_read h va dst s1 = Inr s2
     \<and> (\<forall>k<4096. mem s2 (dst + of_nat k) = mem s (src + of_nat k))"
proof -
  have "\<forall>k<4096. mmu_load h (src + of_nat k) s = Some (mem s (src + of_nat k))"
    using assms(5) by (simp add: identity_region_def mmu_load_def)
  from swap_write_lookup_fact [OF assms(3,4) this] obtain x s1 where
    x: "s1 = s\<lparr>swap_storage := x\<rparr>" and
    s1: "swap_write h va src s = Inr s1"
      "swap_lookup va s1 = Some (map (\<lambda>k. mem s (src + of_nat k)) [0..<4096])" by auto
  have id1: "\<forall>k<4096. translate h s1 (dst + of_nat k) = Some (dst + of_nat k)"
    using assms(6) by (simp add: x identity_region_def)
  have f: "swap_find_index va s1 \<noteq> -1"
    "data (swap_storage s1 ! nat (swap_find_index va s1)) = map (\<lambda>k. mem s (src + of_nat k)) [0..<4096]"
    using s1(2) by (auto simp: swap_lookup_def Let_def split: if_splits)
  have "paging_inv h s1" using assms(1) by (simp add: x)
  from copy_out_identity [OF this assms(2), of "map (\<lambda>k. mem s (src + of_nat k)) [0..<4096]" dst] id1
  have "swap_read h va dst s1 = Inr (s1\<lparr>mem := (\<lambda>a. if unat (a - dst) < 4096
      then mem s (src + of_nat (unat (a - dst))) else mem s1 a)\<rparr>)"
    using f by (simp add: swap_read_def Let_def cong: if_cong)
  moreover have "unat (dst + of_nat k - dst) = k" if "k < 4096" for k
    using that by (simp add: unat_of_nat_small)
  ultimately show ?thesis using s1(1) by (auto simp: unat_of_nat_small)
qed

text \<open>\<open>swap_test_store\<close> for a page that is already in the store has no effect on what the store
  returns: it claims a second slot for the same page, behind the first.\<close>

theorem swap_test_store_shadowed:
  assumes "swap_inv s" and "swap_exists va s"
  shows "swap_lookup va (swap_test_store va str s) = swap_lookup va s"
proof (cases "swap_free_slot s = -1")
  case True
  then show ?thesis by (simp add: swap_test_store_def)
next
  case False
  define j where "j = nat (swap_find_index va s)"
  obtain i where i: "swap_free_slot s = int i"
    using False scan_cases [of "\<lambda>i. \<not> used (swap_storage s ! i)" SWAP_MAX_PAGES]
    unfolding swap_free_slot_def by metis
  then have i': "i < 256" "\<not> used (swap_storage s ! i)"
    by (auto simp: swap_free_slot_def scan_found_iff SWAP_MAX_PAGES_def)
  have fj: "swap_find_index va s = int j"
    using assms(2) swap_find_index_range [of va s] by (simp add: swap_exists_def j_def)
  then have j: "j < 256" "used (swap_storage s ! j)" "virt_addr (swap_storage s ! j) = page_of va"
     "\<forall>k<j. \<not> (used (swap_storage s ! k) \<and> virt_addr (swap_storage s ! k) = page_of va)"
    by (auto simp: swap_find_index_def scan_found_iff SWAP_MAX_PAGES_def)
  have "j < i"
    using assms(1) i' j by (metis SWAP_MAX_PAGES_def linorder_neqE_nat swap_inv_def)
  let ?t = "swap_test_store va str s"
  have len: "length (swap_storage s) = 256" using assms(1) by (simp add: swap_inv_def SWAP_MAX_PAGES_def)
  have nth: "swap_storage ?t ! k = swap_storage s ! k" if "k \<noteq> i" for k
    using that i by (simp add: swap_test_store_def swap_claim_def Let_def)
  have "swap_find_index va ?t = int j"
    unfolding swap_find_index_def scan_found_iff using j nth \<open>j < i\<close> by (auto simp: SWAP_MAX_PAGES_def)
  then show ?thesis using fj nth \<open>j < i\<close> by (simp add: swap_lookup_def)
qed

section \<open>Demand paging\<close>

lemma swap_find_index_pmm [simp]:
  "swap_find_index va (s\<lparr>free_mem_start := x\<rparr>) = swap_find_index va s"
  by (simp add: swap_find_index_def)

text \<open>a fault on a page that is not in the swap store stops the machine with the panic message;
  this is every fault of the running kernel, whose store is empty after boot.\<close>

theorem page_fault_not_swapped:
  assumes "\<not> swap_exists va s"
  shows "page_fault_handler h va s = Halted (pf_panic s)"
  using assms by (simp add: page_fault_handler_def)

lemma swap_exists_after_boot:
  "length (swap_storage s) = 256 \<Longrightarrow> \<not> swap_exists va (paging_init h s)"
  by (simp add: swap_exists_def swap_find_index_def scan_none_iff paging_init_def swap_init_def
      pmm_init_def paging_tables_init_def Let_def SWAP_MAX_PAGES_def)

text \<open>C26: demand paging never succeeds on the tables the kernel sets up. The frame the allocator
  returns is at or above 4 MB, where nothing is mapped, and \<open>swap_read\<close> writes to it through its
  physical address; so for every page in the store the handler faults again on the first byte,
  or panics when memory is exhausted. It never resumes the interrupted code.\<close>

theorem demand_paging_never_resumes:
  assumes "paging_inv h s" and "link_ok h" and "swap_inv s" and "pmm_inv s"
  shows "page_fault_handler h va s =
     (if swap_exists va s \<and> free_mem_start s < system_max_mem s
      then Nested_fault (free_mem_start s) (s\<lparr>free_mem_start := free_mem_start s + 4096\<rparr>)
      else Halted (pf_panic s))"
proof (cases "swap_exists va s")
  case False
  then show ?thesis by (simp add: page_fault_handler_def)
next
  case True
  show ?thesis
  proof (cases s rule: pmm_alloc_cases)
    case full
    then have "\<not> free_mem_start s < system_max_mem s" by simp
    then show ?thesis using True full by (simp add: page_fault_handler_def)
  next
    case frame
    let ?f = "free_mem_start s"
    let ?t = "s\<lparr>free_mem_start := ?f + 4096\<rparr>"
    have ge: "0x400000 \<le> ?f" using assms(4) by (simp add: pmm_inv_def word_le_nat_alt)
    then have nz: "?f \<noteq> 0" by auto
    have "paging_inv h ?t" using assms(1) by simp
    from translate_inv [OF this assms(2), of ?f] ge
    have unmapped: "translate h ?t ?f = None" by (simp add: linorder_not_less [symmetric])
    have idx: "nat (swap_find_index va s) < 256"
      using True swap_find_index_range [of va s] by (simp add: swap_exists_def)
    then obtain b bs where "data (swap_storage s ! nat (swap_find_index va s)) = b # bs"
      using assms(3) by (cases "data (swap_storage s ! nat (swap_find_index va s))")
        (auto simp: swap_inv_def SWAP_MAX_PAGES_def)
    then have "swap_read h va ?f ?t = Inl (?f, ?t)"
      using True unmapped by (simp add: swap_read_def swap_exists_def mmu_store_def Let_def)
    then show ?thesis using True frame nz by (simp add: page_fault_handler_def)
  qed
qed


section \<open>Examples\<close>

text \<open>The virtual-memory globals right after \<open>paging_init\<close>, and with one page in the store.\<close>

definition boot_swap :: swap where
  "boot_swap = paging_init idle_board
     \<lparr>io = [], mem = (\<lambda>_. 0), current_loc = 0, free_mem_start = 0x400000, system_max_mem = 0,
      page_directory = [], first_page_table = [], cr0 = 0x11, cr3 = 0,
      swap_storage = replicate 256 \<lparr>virt_addr = 0, data = replicate 4096 0, used = False\<rparr>\<rparr>"

lemma paging_inv_paging_init: "link_ok h \<Longrightarrow> paging_inv h (paging_init h s)"
  by (simp add: paging_init_def swap_init_def pmm_init_def paging_tables_init_inv)

lemma table_read_pmm [simp]:
  "table_read h b i (s\<lparr>system_max_mem := x\<rparr>) = table_read h b i s"
  "table_read h b i (s\<lparr>free_mem_start := x\<rparr>) = table_read h b i s"
  by (simp_all add: table_read_def mem_load32_def)

lemma translate_pmm [simp]:
  "translate h (s\<lparr>system_max_mem := x\<rparr>) va = translate h s va"
  "translate h (s\<lparr>free_mem_start := x\<rparr>) va = translate h s va"
  by (simp_all add: translate_def Let_def)

lemma translate_paging_init:
  "link_ok h \<Longrightarrow> translate h (paging_init h s) va = (if va < 0x400000 then Some va else None)"
  by (simp add: paging_init_def swap_init_def pmm_init_def paging_identity_fact)

lemma boot_swap_storage:
  "swap_storage boot_swap = replicate 256 \<lparr>virt_addr = 0, data = replicate 4096 0, used = False\<rparr>"
  by (simp add: boot_swap_def paging_init_def swap_init_def pmm_init_def paging_tables_init_def Let_def)

lemma boot_swap_invs:
  "paging_inv idle_board boot_swap" "swap_inv boot_swap" "pmm_inv boot_swap"
  "swap_free_slot boot_swap = int 0" "swap_find_index va boot_swap = -1"
proof -
  show "paging_inv idle_board boot_swap"
    unfolding boot_swap_def by (rule paging_inv_paging_init [OF link_ok_idle_board])
  show "swap_inv boot_swap" by (simp add: swap_inv_def boot_swap_storage SWAP_MAX_PAGES_def)
  show "pmm_inv boot_swap"
    by (simp add: pmm_inv_def boot_swap_def paging_init_def swap_init_def pmm_init_def
        paging_tables_init_def Let_def)
  show "swap_free_slot boot_swap = int 0"
    unfolding swap_free_slot_def scan_found_iff by (simp add: boot_swap_storage SWAP_MAX_PAGES_def)
  show "swap_find_index va boot_swap = -1"
    unfolding swap_find_index_def scan_none_iff by (simp add: boot_swap_storage SWAP_MAX_PAGES_def)
qed

lemma identity_region_boot:
  assumes "unat a + 4096 \<le> 0x400000"
  shows "identity_region idle_board boot_swap a"
  unfolding identity_region_def
proof (intro allI impI)
  fix k :: nat assume "k < 4096"
  then have "unat (a + of_nat k) = unat a + k" using assms by (intro unat_plus_small) simp
  then have "a + of_nat k < 0x400000" using assms \<open>k < 4096\<close> by (simp add: word_less_nat_alt)
  then show "translate idle_board boot_swap (a + of_nat k) = Some (a + of_nat k)"
    by (simp add: boot_swap_def translate_paging_init [OF link_ok_idle_board])
qed

theorem swap_write_lookup_witness:
  "\<exists>s'. swap_write idle_board 0x500000 0x2000 boot_swap = Inr s'
     \<and> swap_lookup 0x500123 s' = Some (replicate 4096 0)"
proof -
  have "mem boot_swap = (\<lambda>_. 0)"
    by (simp add: boot_swap_def paging_init_def swap_init_def pmm_init_def paging_tables_init_def Let_def)
  then have "\<forall>k<4096. mmu_load idle_board (0x2000 + of_nat k) boot_swap = Some ((\<lambda>_. 0) k)"
    using identity_region_boot [of "0x2000"] by (simp add: mmu_load_def identity_region_def)
  from swap_write_lookup [OF boot_swap_invs(2) _ this, of "0x500000"]
  show ?thesis using boot_swap_invs(4) by (auto simp: page_of_def map_replicate_const)
qed

theorem swap_roundtrip_witness:
  "\<exists>s1 s2. swap_write idle_board 0x500000 0x2000 boot_swap = Inr s1
     \<and> swap_read idle_board 0x500000 0x3000 s1 = Inr s2
     \<and> (\<forall>k<4096. mem s2 (0x3000 + of_nat k) = mem boot_swap (0x2000 + of_nat k))"
  using swap_roundtrip [OF boot_swap_invs(1) link_ok_idle_board boot_swap_invs(2) _
      identity_region_boot [of "0x2000"] identity_region_boot [of "0x3000"], of "0x500000"]
    boot_swap_invs(4) by simp

definition one_page_swap :: swap where
  "one_page_swap = swap_claim 0 0x500000 boot_swap"

lemma one_page_swap:
  "swap_inv one_page_swap" "swap_find_index 0x500000 one_page_swap = 0"
  "paging_inv idle_board one_page_swap" "pmm_inv one_page_swap"
  using swap_claim_find [OF boot_swap_invs(2,4,5), of "0x500000"] boot_swap_invs(1,3)
  by (simp_all add: one_page_swap_def swap_claim_def pmm_inv_def)

theorem swap_test_store_shadowed_witness:
  "swap_lookup 0x500000 (swap_test_store 0x500000 ''hello'' one_page_swap)
     = swap_lookup 0x500000 one_page_swap"
  using swap_test_store_shadowed [OF one_page_swap(1), of "0x500000" "''hello''"]
  by (simp add: swap_exists_def one_page_swap(2))

theorem demand_paging_never_resumes_witness:
  "\<exists>s'. page_fault_handler idle_board 0x500000 one_page_swap = Nested_fault 0x400000 s'"
proof -
  have "free_mem_start one_page_swap = 0x400000" "system_max_mem one_page_swap = 0x1000000"
    by (simp_all add: one_page_swap_def swap_claim_def boot_swap_def paging_init_def swap_init_def
        pmm_init_def paging_tables_init_def Let_def)
  then show ?thesis
    using demand_paging_never_resumes [OF one_page_swap(3) link_ok_idle_board one_page_swap(1,4),
        of "0x500000"]
    by (simp add: swap_exists_def one_page_swap(2))
qed

end
