(* ===== verification/CString.thy ===== *)
theory CString
  imports Prelude
begin

text \<open>
  \<open>strcmp\<close> and \<open>strncmp\<close> of \<open>kernel.c\<close>, which the file system and the terminal use for every
  name and command. A pointer is the list of the characters from it on, \<open>s++\<close> is the tail. The
  lemmas show that the two functions decide equality of the strings (of their prefixes), and that
  the sign of \<open>strcmp\<close> orders strings lexicographically by unsigned character.
\<close>

function strcmp :: "char list \<Rightarrow> char list \<Rightarrow> int" where
  "strcmp s1 s2 =
     (if deref s1 \<noteq> NUL \<and> deref s1 = deref s2 then strcmp (tl s1) (tl s2)
      else of_char (deref s1) - of_char (deref s2))"
  by pat_completeness auto
termination
proof (relation "measure (\<lambda>(s1, s2). length s1)")
  show "((tl s1, tl s2), (s1, s2)) \<in> measure (\<lambda>(s1, s2). length s1)"
    if "deref s1 \<noteq> NUL \<and> deref s1 = deref s2" for s1 s2 :: "char list"
    using that by (cases s1) auto
qed simp

function strncmp :: "char list \<Rightarrow> char list \<Rightarrow> int \<Rightarrow> int" where
  "strncmp s1 s2 n =
     (if 0 < n \<and> deref s1 \<noteq> NUL \<and> deref s1 = deref s2 then strncmp (tl s1) (tl s2) (n - 1)
      else if n = 0 then 0
      else of_char (deref s1) - of_char (deref s2))"
  by pat_completeness auto
termination
  by (relation "measure (\<lambda>(s1, s2, n). nat n)") auto

declare strcmp.simps [simp del] strncmp.simps [simp del]

lemma strcmp_Cons [simp]:
  "strcmp [] t = - of_char (deref t)"
  "strcmp (c # s) [] = of_char c"
  "strcmp (c # s) (d # t) = (if c \<noteq> NUL \<and> c = d then strcmp s t else of_char c - of_char d)"
  by (subst strcmp.simps; auto)+

lemma strncmp_Cons [simp]:
  "strncmp s t 0 = 0"
  "0 < n \<Longrightarrow> strncmp [] t n = - of_char (deref t)"
  "0 < n \<Longrightarrow> strncmp (c # s) [] n = of_char c"
  "0 < n \<Longrightarrow> strncmp (c # s) (d # t) n
     = (if c \<noteq> NUL \<and> c = d then strncmp s t (n - 1) else of_char c - of_char d)"
  by (subst strncmp.simps; auto)+

lemma of_char_zero_iff: "(of_char c :: int) = 0 \<longleftrightarrow> c = NUL"
  using of_char_eq_iff [where 'a = int, of c NUL] by simp

text \<open>\<open>strcmp\<close> returns 0 exactly for equal strings.\<close>

theorem strcmp_zero_iff: "strcmp s1 s2 = 0 \<longleftrightarrow> cstr s1 = cstr s2"
proof (induction s1 s2 rule: strcmp.induct)
  case (1 s1 s2)
  show ?case
  proof (cases "deref s1 \<noteq> NUL \<and> deref s1 = deref s2")
    case True
    then obtain c t1 t2 where "s1 = c # t1" "s2 = c # t2" "c \<noteq> NUL"
      by (cases s1; cases s2) auto
    then show ?thesis using "1.IH" True by simp
  next
    case False
    then have "strcmp s1 s2 = of_char (deref s1) - of_char (deref s2)"
      by (subst strcmp.simps) auto
    then show ?thesis using False by (cases s1; cases s2) (auto simp: of_char_zero_iff)
  qed
qed

text \<open>\<open>strcmp\<close> orders strings: swapping the arguments negates the result.\<close>

theorem strcmp_antisym: "strcmp s2 s1 = - strcmp s1 s2"
proof (induction s1 s2 rule: strcmp.induct)
  case (1 s1 s2)
  show ?case
  proof (cases "deref s1 \<noteq> NUL \<and> deref s1 = deref s2")
    case True
    then show ?thesis using "1.IH" by (subst (1 2) strcmp.simps) simp
  next
    case False
    then show ?thesis by (subst (1 2) strcmp.simps) auto
  qed
qed

lemma strncmp_zero_iff_fact:
  "strncmp s1 s2 (int n) = 0 \<longleftrightarrow> take n (cstr s1) = take n (cstr s2)"
proof (induction n arbitrary: s1 s2)
  case (Suc n)
  show ?case
  proof (cases "deref s1 \<noteq> NUL \<and> deref s1 = deref s2")
    case True
    then obtain c t1 t2 where "s1 = c # t1" "s2 = c # t2" "c \<noteq> NUL"
      by (cases s1; cases s2) auto
    then show ?thesis using Suc.IH by simp
  next
    case False
    then have "strncmp s1 s2 (int (Suc n)) = of_char (deref s1) - of_char (deref s2)"
      by (subst strncmp.simps) auto
    then show ?thesis using False by (cases s1; cases s2) (auto simp: of_char_zero_iff)
  qed
qed simp

text \<open>\<open>strncmp\<close> with a bound compares the first \<open>n\<close> characters of the two strings, so
  \<open>strncmp(c, "mkdir ", 6) == 0\<close> decides whether the command line starts with that word.\<close>

theorem strncmp_zero_iff:
  "strncmp s1 s2 (int n) = 0 \<longleftrightarrow> take n (cstr s1) = take n (cstr s2)"
  by (rule strncmp_zero_iff_fact)

end
