(* ===== verification/Fs.thy ===== *)
theory Fs
  imports Swap CString
begin

text \<open>
  \<open>fs.c\<close> and \<open>fs.h\<close>: the in-memory file system, a table of 32 entries with parent indices. Names and
  contents are the fixed-size character arrays of the source, with whatever an earlier string left
  behind the terminator. The walk to the root is a loop that need not end on an arbitrary table,
  so it is a partial function with result \<open>None\<close> for a run that does not return.
\<close>

datatype fs_type = FS_TYPE_NONE | FS_TYPE_FILE | FS_TYPE_DIR

record fs_entry =
  e_name :: "char list"
  e_content :: "char list"
  e_size :: int
  e_type :: fs_type
  e_parent :: int

record fsys = swap +
  fs_table :: "fs_entry list"
  fs_cwd :: int

definition FS_MAX_ENTRIES :: nat where "FS_MAX_ENTRIES = 32"
definition FS_MAX_NAME_LEN :: nat where "FS_MAX_NAME_LEN = 16"
definition FS_MAX_FILE_SIZE :: nat where "FS_MAX_FILE_SIZE = 256"
abbreviation (input) FS_ROOT_IDX :: int where "FS_ROOT_IDX \<equiv> 0"
abbreviation (input) FS_NULL_IDX :: int where "FS_NULL_IDX \<equiv> -1"
abbreviation QUO :: char where "QUO \<equiv> CHR 0x27"

definition ent :: "'a fsys_scheme \<Rightarrow> int \<Rightarrow> fs_entry" where
  "ent s i = fs_table s ! nat i"

definition upd_ent :: "int \<Rightarrow> (fs_entry \<Rightarrow> fs_entry) \<Rightarrow> 'a fsys_scheme \<Rightarrow> 'a fsys_scheme" where
  "upd_ent i f s = s\<lparr>fs_table := (fs_table s)[nat i := f (fs_table s ! nat i)]\<rparr>"

section \<open>Local helpers\<close>

text \<open>\<open>while (src[i] && i < max) { dst[i] = src[i]; i++; }\<close>, shared by \<open>fs_strncpy\<close> and the loop of
  \<open>fs_write_file\<close>: the array and the index where the loop stopped.\<close>

function cpy_loop :: "char list \<Rightarrow> char list \<Rightarrow> nat \<Rightarrow> nat \<Rightarrow> char list \<times> nat" where
  "cpy_loop dst src lim i =
     (if charat src i \<noteq> NUL \<and> i < lim then cpy_loop (dst[i := charat src i]) src lim (i + 1)
      else (dst, i))"
  by pat_completeness auto
termination by (relation "measure (\<lambda>(dst, src, lim, i). lim - i)") auto

declare cpy_loop.simps [simp del]

definition fs_strncpy :: "char list \<Rightarrow> char list \<Rightarrow> nat \<Rightarrow> char list" where
  "fs_strncpy dst src lim = (let (dst, i) = cpy_loop dst src lim 0 in dst[i := NUL])"

definition fs_find_in :: "char list \<Rightarrow> int \<Rightarrow> 'a fsys_scheme \<Rightarrow> int" where
  "fs_find_in name parent_idx s =
     scan (\<lambda>i. e_type (fs_table s ! i) \<noteq> FS_TYPE_NONE \<and> e_parent (fs_table s ! i) = parent_idx
             \<and> strcmp (e_name (fs_table s ! i)) name = 0) FS_MAX_ENTRIES"

definition fs_alloc :: "'a fsys_scheme \<Rightarrow> int" where
  "fs_alloc s = scan (\<lambda>i. e_type (fs_table s ! i) = FS_TYPE_NONE) FS_MAX_ENTRIES"

text \<open>\<open>while (cur != FS_ROOT_IDX && cur != FS_NULL_IDX)\<close> of \<open>fs_print_path\<close>.\<close>

partial_function (option) fs_walk_up :: "fs_entry list \<Rightarrow> int list \<Rightarrow> int \<Rightarrow> int list option" where
  "fs_walk_up tab stack cur =
     (if cur \<noteq> FS_ROOT_IDX \<and> cur \<noteq> FS_NULL_IDX
      then fs_walk_up tab (stack @ [cur]) (e_parent (tab ! nat cur))
      else Some stack)"

definition fs_print_path :: "int \<Rightarrow> 'a fsys_scheme \<Rightarrow> 'a fsys_scheme option" where
  "fs_print_path idx s =
     (if idx = FS_ROOT_IDX then Some (kprint ''/'' s)
      else case fs_walk_up (fs_table s) [] idx of
             None \<Rightarrow> None
           | Some stack \<Rightarrow>
               Some (fold (\<lambda>i s. kprint (e_name (ent s i)) (kprint ''/'' s)) (rev stack) s))"

definition fs_dir_empty :: "int \<Rightarrow> 'a fsys_scheme \<Rightarrow> bool" where
  "fs_dir_empty dir_idx s =
     (scan (\<lambda>i. e_type (fs_table s ! i) \<noteq> FS_TYPE_NONE \<and> e_parent (fs_table s ! i) = dir_idx)
        FS_MAX_ENTRIES = -1)"

definition fs_resolve_dir :: "char list \<Rightarrow> 'a fsys_scheme \<Rightarrow> int" where
  "fs_resolve_dir name s =
     (if strcmp name ''.'' = 0 then fs_cwd s
      else if strcmp name ''..'' = 0 then
        (if e_parent (ent s (fs_cwd s)) = FS_NULL_IDX then FS_ROOT_IDX
         else e_parent (ent s (fs_cwd s)))
      else fs_find_in name (fs_cwd s) s)"

section \<open>The public operations\<close>

definition fs_init :: "'a fsys_scheme \<Rightarrow> 'a fsys_scheme" where
  "fs_init s =
     (let s = s\<lparr>fs_table := map (\<lambda>e. e\<lparr>e_type := FS_TYPE_NONE, e_size := 0, e_parent := FS_NULL_IDX,
                  e_name := replicate (FS_MAX_NAME_LEN + 1) NUL,
                  e_content := replicate FS_MAX_FILE_SIZE NUL\<rparr>) (fs_table s)\<rparr>;
          s = upd_ent FS_ROOT_IDX (\<lambda>e. e\<lparr>e_type := FS_TYPE_DIR, e_parent := FS_NULL_IDX,
                  e_name := (e_name e)[0 := NUL]\<rparr>) s
      in s\<lparr>fs_cwd := FS_ROOT_IDX\<rparr>)"

definition quoted :: "char list \<Rightarrow> char list \<Rightarrow> char list \<Rightarrow> 'a fsys_scheme \<Rightarrow> 'a fsys_scheme" where
  "quoted before name after s =
     kprint (QUO # after @ [NL]) (kprint name (kprint (before @ [QUO]) s))"

definition fs_mkdir :: "char list \<Rightarrow> 'a fsys_scheme \<Rightarrow> int \<times> 'a fsys_scheme" where
  "fs_mkdir name s =
     (if deref name = NUL then (-1, kprint (''mkdir: invalid name'' @ [NL]) s)
      else if strcmp name ''.'' = 0 \<or> strcmp name ''..'' = 0 then
        (-1, kprint (''mkdir: cannot use '' @ [QUO] @ ''.'' @ [QUO] @ '' or '' @ [QUO] @ ''..'' @ [QUO, NL]) s)
      else if fs_find_in name (fs_cwd s) s \<noteq> FS_NULL_IDX then
        (-1, quoted ''mkdir: '' name '' already exists'' s)
      else
        let slot = fs_alloc s in
        if slot = FS_NULL_IDX then (-1, kprint (''mkdir: filesystem full'' @ [NL]) s)
        else (slot, upd_ent slot (\<lambda>e. e\<lparr>e_type := FS_TYPE_DIR, e_parent := fs_cwd s, e_size := 0,
                      e_name := fs_strncpy (e_name e) name FS_MAX_NAME_LEN\<rparr>) s))"

definition fs_cd :: "char list \<Rightarrow> 'a fsys_scheme \<Rightarrow> int \<times> 'a fsys_scheme" where
  "fs_cd name s =
     (if deref name = NUL then (-1, kprint (''cd: missing argument'' @ [NL]) s)
      else if charat name 0 = CHR ''/'' \<and> charat name 1 = NUL then (0, s\<lparr>fs_cwd := FS_ROOT_IDX\<rparr>)
      else
        let target = fs_resolve_dir name s in
        if strcmp name ''..'' = 0 \<and> e_parent (ent s (fs_cwd s)) = FS_NULL_IDX then
          (0, s\<lparr>fs_cwd := FS_ROOT_IDX\<rparr>)
        else if target = FS_NULL_IDX then (-1, quoted ''cd: '' name '': no such directory'' s)
        else if e_type (ent s target) \<noteq> FS_TYPE_DIR then
          (-1, quoted ''cd: '' name '': not a directory'' s)
        else (0, s\<lparr>fs_cwd := target\<rparr>))"

definition fs_pwd :: "'a fsys_scheme \<Rightarrow> 'a fsys_scheme option" where
  "fs_pwd s = map_option (kprint [NL]) (fs_print_path (fs_cwd s) s)"

definition fs_list_files :: "'a fsys_scheme \<Rightarrow> 'a fsys_scheme" where
  "fs_list_files s =
     (let (count, s) =
        fold (\<lambda>i (count, s).
          if e_type (fs_table s ! i) = FS_TYPE_NONE then (count, s)
          else if e_parent (fs_table s ! i) \<noteq> fs_cwd s then (count, s)
          else if e_type (fs_table s ! i) = FS_TYPE_DIR then
            (count + 1, kprint [NL] (kprint (e_name (fs_table s ! i)) (kprint ''[DIR]  '' s)))
          else
            (count + 1, kprint [NL] (kprint (e_name (fs_table s ! i)) (kprint ''[FILE] '' s))))
        [0..<FS_MAX_ENTRIES] (0 :: int, s)
      in if count = 0 then kprint (''(empty)'' @ [NL]) s else s)"

definition fs_create_file :: "char list \<Rightarrow> 'a fsys_scheme \<Rightarrow> int \<times> 'a fsys_scheme" where
  "fs_create_file name s =
     (if deref name = NUL then (-1, kprint (''touch: invalid name'' @ [NL]) s)
      else if fs_find_in name (fs_cwd s) s \<noteq> FS_NULL_IDX then
        (-1, quoted ''touch: '' name '' already exists'' s)
      else
        let slot = fs_alloc s in
        if slot = FS_NULL_IDX then (-1, kprint (''touch: filesystem full'' @ [NL]) s)
        else (slot, upd_ent slot (\<lambda>e. e\<lparr>e_type := FS_TYPE_FILE, e_parent := fs_cwd s, e_size := 0,
                      e_name := fs_strncpy (e_name e) name FS_MAX_NAME_LEN\<rparr>) s))"

text \<open>The copy loop at the end of \<open>fs_write_file\<close>, on the entry found.\<close>

definition fs_put_content :: "char list \<Rightarrow> fs_entry \<Rightarrow> fs_entry" where
  "fs_put_content dat e =
     (let (content, j) = cpy_loop (e_content e) dat (FS_MAX_FILE_SIZE - 1) 0
      in e\<lparr>e_content := content[j := NUL], e_size := int j\<rparr>)"

definition fs_write_file :: "char list \<Rightarrow> char list \<Rightarrow> 'a fsys_scheme \<Rightarrow> 'a fsys_scheme" where
  "fs_write_file name dat s =
     (let idx = fs_find_in name (fs_cwd s) s in
      if idx = FS_NULL_IDX \<or> e_type (ent s idx) \<noteq> FS_TYPE_FILE then
        quoted ''write: '' name '': no such file'' s
      else upd_ent idx (fs_put_content dat) s)"

definition fs_read_file :: "char list \<Rightarrow> 'a fsys_scheme \<Rightarrow> 'a fsys_scheme" where
  "fs_read_file name s =
     (let idx = fs_find_in name (fs_cwd s) s in
      if idx = FS_NULL_IDX \<or> e_type (ent s idx) \<noteq> FS_TYPE_FILE then
        quoted ''cat: '' name '': no such file'' s
      else kprint [NL] (kprint (e_content (ent s idx)) s))"

definition fs_rm :: "char list \<Rightarrow> 'a fsys_scheme \<Rightarrow> int \<times> 'a fsys_scheme" where
  "fs_rm name s =
     (let idx = fs_find_in name (fs_cwd s) s in
      if idx = FS_NULL_IDX \<or> e_type (ent s idx) \<noteq> FS_TYPE_FILE then
        (-1, quoted ''rm: '' name '': no such file'' s)
      else (0, upd_ent idx (\<lambda>e. e\<lparr>e_type := FS_TYPE_NONE\<rparr>) s))"

definition fs_rmdir :: "char list \<Rightarrow> 'a fsys_scheme \<Rightarrow> int \<times> 'a fsys_scheme" where
  "fs_rmdir name s =
     (if strcmp name ''.'' = 0 \<or> strcmp name ''..'' = 0 then
        (-1, kprint (''rmdir: cannot remove '' @ [QUO] @ ''.'' @ [QUO] @ '' or '' @ [QUO] @ ''..'' @ [QUO, NL]) s)
      else
        let idx = fs_find_in name (fs_cwd s) s in
        if idx = FS_NULL_IDX \<or> e_type (ent s idx) \<noteq> FS_TYPE_DIR then
          (-1, quoted ''rmdir: '' name '': no such directory'' s)
        else if \<not> fs_dir_empty idx s then
          (-1, quoted ''rmdir: '' name '': directory not empty'' s)
        else (0, upd_ent idx (\<lambda>e. e\<lparr>e_type := FS_TYPE_NONE\<rparr>) s))"


section \<open>String copies\<close>

lemma charat_stop: "i \<le> length (cstr src) \<Longrightarrow> charat src i \<noteq> NUL \<longleftrightarrow> i < length (cstr src)"
  using charat_cstr [of i src] charat_end [of src] by (cases "i < length (cstr src)") auto

lemma cpy_loop_eq:
  assumes "n = min lim (length (cstr src))" and "i \<le> n" and "n \<le> length dst"
  shows "cpy_loop dst src lim i = (take i dst @ drop i (take n (cstr src)) @ drop n dst, n)"
  using assms
proof (induction dst src lim i rule: cpy_loop.induct)
  case (1 dst src lim i)
  show ?case
  proof (cases "i < n")
    case True
    then have c: "charat src i \<noteq> NUL" "i < lim" "charat src i = cstr src ! i"
      using "1.prems"(1) charat_cstr [of i src] by auto
    then have step: "cpy_loop dst src lim i = cpy_loop (dst[i := charat src i]) src lim (i + 1)"
      by (subst cpy_loop.simps) simp
    have len: "n \<le> length (dst[i := charat src i])" using "1.prems"(3) by simp
    have "take (i + 1) (dst[i := charat src i]) = take i dst @ [cstr src ! i]"
      using True "1.prems"(3) c(3) by (simp add: take_Suc_conv_app_nth)
    moreover have "drop i (take n (cstr src)) = cstr src ! i # drop (i + 1) (take n (cstr src))"
      using True "1.prems"(1) by (simp add: Cons_nth_drop_Suc [symmetric])
    moreover have "drop n (dst[i := charat src i]) = drop n dst" using True by simp
    ultimately show ?thesis
      using step "1.IH" [OF _ "1.prems"(1) _ len] c True by simp
  next
    case False
    then have "i = n" using "1.prems"(2) by simp
    then have "\<not> (charat src i \<noteq> NUL \<and> i < lim)"
      using "1.prems"(1) charat_end [of src] by (auto simp: min_def split: if_splits)
    then have "cpy_loop dst src lim i = (dst, i)" by (subst cpy_loop.simps) auto
    then show ?thesis using \<open>i = n\<close> "1.prems"(3) by simp
  qed
qed

lemma cpy_loop_0:
  assumes "lim \<le> length dst"
  shows "cpy_loop dst src lim 0
     = (take lim (cstr src) @ drop (min lim (length (cstr src))) dst, min lim (length (cstr src)))"
  using cpy_loop_eq [of "min lim (length (cstr src))" lim src 0 dst] assms
  by (simp add: min_def take_all_iff)

lemma take_cstr_no_NUL: "NUL \<notin> set (take n (cstr s))"
  using cstr_no_NUL [of s] by (meson in_set_takeD)

lemma terminated_copy:
  assumes "lim < length dst"
  shows "(take lim (cstr src) @ drop (min lim (length (cstr src))) dst)
             [min lim (length (cstr src)) := NUL]
     = take lim (cstr src) @ NUL # drop (Suc (min lim (length (cstr src)))) dst"
proof -
  let ?n = "min lim (length (cstr src))"
  have l: "length (take lim (cstr src)) = ?n" by simp
  have d: "drop ?n dst = dst ! ?n # drop (Suc ?n) dst"
    using assms by (intro Cons_nth_drop_Suc [symmetric]) simp
  show ?thesis
    using list_update_length [of "take lim (cstr src)" "dst ! ?n" "drop (Suc ?n) dst" NUL]
    unfolding d l .
qed

lemma fs_strncpy_eq:
  assumes "lim < length dst"
  shows "fs_strncpy dst src lim
     = take lim (cstr src) @ NUL # drop (Suc (min lim (length (cstr src)))) dst"
  using assms by (simp add: fs_strncpy_def cpy_loop_0 terminated_copy)

lemma fs_strncpy_props:
  assumes "lim < length dst"
  shows "length (fs_strncpy dst src lim) = length dst" "cstr (fs_strncpy dst src lim) = take lim (cstr src)"
    "NUL \<in> set (fs_strncpy dst src lim)"
  using assms by (auto simp: fs_strncpy_eq cstr_append_NUL take_cstr_no_NUL min_def)

section \<open>Frames\<close>

text \<open>Printing does not touch the file system.\<close>

lemma fs_kprint [simp]: "fs_table (kprint m s) = fs_table s" "fs_cwd (kprint m s) = fs_cwd s"
  by (rule kp.unaffected; simp)+

lemma fs_kputc [simp]: "fs_table (kputc c s) = fs_table s" "fs_cwd (kputc c s) = fs_cwd s"
  by (rule kc.unaffected; simp)+

lemma fs_quoted [simp]:
  "fs_table (quoted a n b s) = fs_table s" "fs_cwd (quoted a n b s) = fs_cwd s"
  by (simp_all add: quoted_def)

lemma fs_upd_ent [simp]:
  "fs_table (upd_ent i f s) = (fs_table s)[nat i := f (fs_table s ! nat i)]"
  "fs_cwd (upd_ent i f s) = fs_cwd s"
  by (simp_all add: upd_ent_def)

text \<open>The searches depend on the table alone.\<close>

lemma fs_find_in_cong: "fs_table s = fs_table t \<Longrightarrow> fs_find_in n d s = fs_find_in n d t"
  by (simp add: fs_find_in_def)

lemma ent_cong: "fs_table s = fs_table t \<Longrightarrow> ent s i = ent t i"
  by (simp add: ent_def)

section \<open>Invariant\<close>

definition live :: "fs_entry list \<Rightarrow> nat \<Rightarrow> bool" where
  "live tab i \<longleftrightarrow> e_type (tab ! i) \<noteq> FS_TYPE_NONE"

text \<open>Arrays have their declared sizes and are terminated.\<close>

definition entry_ok :: "fs_entry \<Rightarrow> bool" where
  "entry_ok e \<longleftrightarrow> length (e_name e) = 17 \<and> NUL \<in> set (e_name e)
     \<and> length (e_content e) = 256 \<and> NUL \<in> set (e_content e) \<and> 0 \<le> e_size e \<and> e_size e < 256"

text \<open>The parent indices form a tree: each live entry but the root has a live directory as parent,
  and some rank decreases from every entry to its parent, so there is no cycle.\<close>

definition tree_ok :: "fs_entry list \<Rightarrow> (nat \<Rightarrow> nat) \<Rightarrow> bool" where
  "tree_ok tab r \<longleftrightarrow> (\<forall>i<32. 0 < i \<longrightarrow> live tab i \<longrightarrow>
     0 \<le> e_parent (tab ! i) \<and> e_parent (tab ! i) < 32
     \<and> e_type (tab ! nat (e_parent (tab ! i))) = FS_TYPE_DIR \<and> r (nat (e_parent (tab ! i))) < r i)"

definition fs_inv :: "'a fsys_scheme \<Rightarrow> bool" where
  "fs_inv s \<longleftrightarrow> length (fs_table s) = 32
     \<and> (\<forall>i<32. entry_ok (fs_table s ! i))
     \<and> e_type (fs_table s ! 0) = FS_TYPE_DIR \<and> e_parent (fs_table s ! 0) = FS_NULL_IDX
     \<and> (\<exists>r. tree_ok (fs_table s) r)
     \<and> 0 \<le> fs_cwd s \<and> fs_cwd s < 32 \<and> e_type (ent s (fs_cwd s)) = FS_TYPE_DIR"

lemma fs_inv_cong:
  "fs_table s = fs_table t \<Longrightarrow> fs_cwd s = fs_cwd t \<Longrightarrow> fs_inv s = fs_inv t"
  by (simp add: fs_inv_def ent_def)

lemma fs_find_in_found:
  assumes "fs_find_in n d s \<noteq> -1"
  obtains i where "fs_find_in n d s = int i" "i < 32" "live (fs_table s) i"
    "e_parent (fs_table s ! i) = d" "cstr (e_name (fs_table s ! i)) = cstr n"
  using assms unfolding fs_find_in_def FS_MAX_ENTRIES_def live_def
  by (elim scan_foundE) (auto simp: strcmp_zero_iff)

lemma fs_alloc_found:
  assumes "fs_alloc s \<noteq> -1"
  obtains i where "fs_alloc s = int i" "i < 32" "\<not> live (fs_table s) i"
  using assms unfolding fs_alloc_def FS_MAX_ENTRIES_def live_def
  by (elim scan_foundE) auto

lemma fs_alloc_full: "fs_alloc s = -1 \<longleftrightarrow> (\<forall>i<32. live (fs_table s) i)"
  by (simp add: fs_alloc_def scan_none_iff live_def FS_MAX_ENTRIES_def)

lemma fs_find_in_none:
  "fs_find_in n d s = -1 \<longleftrightarrow> (\<forall>i<32. live (fs_table s) i \<longrightarrow> e_parent (fs_table s ! i) = d
      \<longrightarrow> cstr (e_name (fs_table s ! i)) \<noteq> cstr n)"
  by (auto simp: fs_find_in_def scan_none_iff live_def FS_MAX_ENTRIES_def strcmp_zero_iff)

lemma ent_int [simp]: "ent s (int i) = fs_table s ! i"
  by (simp add: ent_def)

lemma ent_upd [simp]: "i < length (fs_table s) \<Longrightarrow>
    ent (upd_ent (int i) f s) j = (if nat j = i then f (fs_table s ! i) else ent s j)"
  by (simp add: ent_def)

section \<open>Every operation preserves the invariant\<close>

lemma fs_inv_print:
  "fs_inv (kprint m s) = fs_inv s" "fs_inv (quoted a n b s) = fs_inv s"
  by (rule fs_inv_cong; simp)+

lemma fs_inv_create:
  assumes "fs_inv s" and "i < 32" and "\<not> live (fs_table s) i"
    and "ty \<noteq> FS_TYPE_NONE"
  shows "fs_inv (upd_ent (int i) (\<lambda>e. e\<lparr>e_type := ty, e_parent := fs_cwd s, e_size := 0,
            e_name := fs_strncpy (e_name e) name FS_MAX_NAME_LEN\<rparr>) s)"
proof -
  let ?e = "(fs_table s ! i)\<lparr>e_type := ty, e_parent := fs_cwd s, e_size := 0,
      e_name := fs_strncpy (e_name (fs_table s ! i)) name FS_MAX_NAME_LEN\<rparr>"
  let ?tab = "(fs_table s)[i := ?e]"
  note inv = assms(1) [unfolded fs_inv_def]
  obtain r where r: "tree_ok (fs_table s) r" using inv by blast
  have len: "length (fs_table s) = 32" using inv by blast
  have i0: "0 < i" using inv assms(3) by (cases i) (auto simp: live_def)
  have cwd: "nat (fs_cwd s) \<noteq> i" using inv assms(3) by (auto simp: live_def ent_def)
  have ok: "entry_ok ?e"
    using inv assms(2) fs_strncpy_props [of 16 "e_name (fs_table s ! i)" name]
    by (auto simp: entry_ok_def FS_MAX_NAME_LEN_def)
  have "tree_ok ?tab (r(i := Suc (r (nat (fs_cwd s)))))"
    unfolding tree_ok_def
  proof (intro allI impI)
    fix j assume j: "j < 32" "0 < j" "live ?tab j"
    let ?r = "r(i := Suc (r (nat (fs_cwd s))))"
    show "0 \<le> e_parent (?tab ! j) \<and> e_parent (?tab ! j) < 32
        \<and> e_type (?tab ! nat (e_parent (?tab ! j))) = FS_TYPE_DIR
        \<and> ?r (nat (e_parent (?tab ! j))) < ?r j"
    proof (cases "j = i")
      case True
      then show ?thesis using inv cwd assms(2) len by (simp add: ent_def)
    next
      case False
      then have p: "0 \<le> e_parent (fs_table s ! j)" "e_parent (fs_table s ! j) < 32"
          "e_type (fs_table s ! nat (e_parent (fs_table s ! j))) = FS_TYPE_DIR"
          "r (nat (e_parent (fs_table s ! j))) < r j"
        using r j by (auto simp: tree_ok_def live_def)
      then have "nat (e_parent (fs_table s ! j)) \<noteq> i" using assms(3) by (auto simp: live_def)
      then show ?thesis using False p by simp
    qed
  qed
  then show ?thesis
    using inv ok i0 cwd assms(2) len unfolding fs_inv_def by (auto simp: nth_list_update ent_def)
qed

text \<open>Removing an entry that is nobody's parent and not the working directory.\<close>

lemma fs_inv_remove:
  assumes "fs_inv s" and "i < 32" and "0 < i" and "int i \<noteq> fs_cwd s"
    and leaf: "\<forall>j<32. live (fs_table s) j \<longrightarrow> e_parent (fs_table s ! j) \<noteq> int i"
  shows "fs_inv (upd_ent (int i) (\<lambda>e. e\<lparr>e_type := FS_TYPE_NONE\<rparr>) s)"
proof -
  let ?tab = "(fs_table s)[i := (fs_table s ! i)\<lparr>e_type := FS_TYPE_NONE\<rparr>]"
  note inv = assms(1) [unfolded fs_inv_def]
  obtain r where r: "tree_ok (fs_table s) r" using inv by blast
  have len: "length (fs_table s) = 32" using inv by blast
  have "tree_ok ?tab r"
    unfolding tree_ok_def
  proof (intro allI impI)
    fix j assume j: "j < 32" "0 < j" "live ?tab j"
    then have "j \<noteq> i" using len by (auto simp: live_def)
    then have l: "live (fs_table s) j" using j by (simp add: live_def)
    then have "0 \<le> e_parent (fs_table s ! j)" "e_parent (fs_table s ! j) \<noteq> int i"
      using r j leaf by (auto simp: tree_ok_def)
    then have "nat (e_parent (fs_table s ! j)) \<noteq> i" by auto
    then show "0 \<le> e_parent (?tab ! j) \<and> e_parent (?tab ! j) < 32
        \<and> e_type (?tab ! nat (e_parent (?tab ! j))) = FS_TYPE_DIR
        \<and> r (nat (e_parent (?tab ! j))) < r j"
      using \<open>j \<noteq> i\<close> r j l by (auto simp: tree_ok_def)
  qed
  moreover have "entry_ok ((fs_table s ! i)\<lparr>e_type := FS_TYPE_NONE\<rparr>)"
    using inv assms(2) by (simp add: entry_ok_def)
  ultimately show ?thesis
    using inv assms(2,3,4) len unfolding fs_inv_def by (auto simp: nth_list_update ent_def)
qed

lemma not_own_parent:
  assumes "fs_inv s" and "i < 32" and "live (fs_table s) i" and "e_parent (fs_table s ! i) = fs_cwd s"
  shows "0 < i" "int i \<noteq> fs_cwd s"
proof -
  obtain r where r: "tree_ok (fs_table s) r" using assms(1) by (auto simp: fs_inv_def)
  show "0 < i" using assms by (cases i) (auto simp: fs_inv_def)
  then have "r (nat (fs_cwd s)) < r i" using r assms by (auto simp: tree_ok_def)
  then show "int i \<noteq> fs_cwd s" by (metis less_irrefl nat_int)
qed

lemma fs_create_inv:
  assumes "fs_inv s" and "fs_alloc s \<noteq> -1" and "ty \<noteq> FS_TYPE_NONE"
  shows "fs_inv (upd_ent (fs_alloc s) (\<lambda>e. e\<lparr>e_type := ty, e_parent := fs_cwd s, e_size := 0,
            e_name := fs_strncpy (e_name e) name FS_MAX_NAME_LEN\<rparr>) s)"
proof -
  obtain i where "fs_alloc s = int i" "i < 32" "\<not> live (fs_table s) i"
    using fs_alloc_found [OF assms(2)] by blast
  with fs_inv_create [OF assms(1) _ _ assms(3)] show ?thesis by simp
qed

lemma fs_mkdir_inv: "fs_inv s \<Longrightarrow> fs_inv (snd (fs_mkdir name s))"
  by (simp add: fs_mkdir_def fs_inv_print fs_create_inv Let_def)

lemma fs_create_file_inv: "fs_inv s \<Longrightarrow> fs_inv (snd (fs_create_file name s))"
  by (simp add: fs_create_file_def fs_inv_print fs_create_inv Let_def)


lemma fs_inv_update:
  assumes "fs_inv s" and "i < 32"
    and "e_type (f (fs_table s ! i)) = e_type (fs_table s ! i)"
    and "e_parent (f (fs_table s ! i)) = e_parent (fs_table s ! i)"
    and "entry_ok (f (fs_table s ! i))"
  shows "fs_inv (upd_ent (int i) f s)"
proof -
  note inv = assms(1) [unfolded fs_inv_def]
  have len: "length (fs_table s) = 32" using inv by blast
  let ?tab = "(fs_table s)[i := f (fs_table s ! i)]"
  have same: "e_type (?tab ! j) = e_type (fs_table s ! j)" "e_parent (?tab ! j) = e_parent (fs_table s ! j)"
    for j using assms(2-4) len by (cases "j = i"; simp)+
  have "tree_ok ?tab r = tree_ok (fs_table s) r" for r
    by (simp add: tree_ok_def live_def same)
  moreover have "entry_ok (?tab ! j)" if "j < 32" for j
    using inv assms(2,5) len that by (cases "j = i") simp_all
  ultimately show ?thesis using inv len same by (simp add: fs_inv_def ent_def)
qed

lemma write_content:
  assumes "length (e_content e) = 256"
  shows "fs_put_content dat e
     = e\<lparr>e_content := fs_strncpy (e_content e) dat 255, e_size := int (min 255 (length (cstr dat)))\<rparr>"
  using assms by (simp add: fs_put_content_def FS_MAX_FILE_SIZE_def fs_strncpy_def cpy_loop_0)

lemma fs_write_file_inv:
  assumes "fs_inv s"
  shows "fs_inv (fs_write_file name dat s)"
proof (cases "fs_find_in name (fs_cwd s) s = -1 \<or> e_type (ent s (fs_find_in name (fs_cwd s) s)) \<noteq> FS_TYPE_FILE")
  case True
  then show ?thesis using assms by (auto simp: fs_write_file_def fs_inv_print Let_def)
next
  case False
  then obtain i where i: "fs_find_in name (fs_cwd s) s = int i" "i < 32"
    using fs_find_in_found by blast
  have ok: "entry_ok (fs_table s ! i)" using assms i(2) by (simp add: fs_inv_def)
  then have c: "length (e_content (fs_table s ! i)) = 256" by (simp add: entry_ok_def)
  have "fs_inv (upd_ent (int i) (fs_put_content dat) s)"
    by (rule fs_inv_update [OF assms i(2)])
       (use ok fs_strncpy_props [of 255 "e_content (fs_table s ! i)" dat] in
          \<open>simp_all add: write_content [OF c] entry_ok_def\<close>)
  then show ?thesis using False i by (simp add: fs_write_file_def)
qed

lemma fs_read_file_inv: "fs_inv s \<Longrightarrow> fs_inv (fs_read_file name s)"
  by (simp add: fs_read_file_def fs_inv_print Let_def)

lemma fs_rm_inv:
  assumes "fs_inv s"
  shows "fs_inv (snd (fs_rm name s))"
proof (cases "fs_find_in name (fs_cwd s) s = -1 \<or> e_type (ent s (fs_find_in name (fs_cwd s) s)) \<noteq> FS_TYPE_FILE")
  case True
  then show ?thesis using assms by (auto simp: fs_rm_def fs_inv_print Let_def)
next
  case False
  then obtain i where i: "fs_find_in name (fs_cwd s) s = int i" "i < 32" "live (fs_table s) i"
      "e_parent (fs_table s ! i) = fs_cwd s" using fs_find_in_found by blast
  then have f: "e_type (fs_table s ! i) = FS_TYPE_FILE" using False by simp
  have leaf: "\<forall>j<32. live (fs_table s) j \<longrightarrow> e_parent (fs_table s ! j) \<noteq> int i"
  proof (intro allI impI)
    fix j assume j: "j < 32" "live (fs_table s) j"
    show "e_parent (fs_table s ! j) \<noteq> int i"
    proof
      assume e: "e_parent (fs_table s ! j) = int i"
      then have "0 < j" using assms by (cases j) (auto simp: fs_inv_def)
      then show False using assms j e f by (auto simp: fs_inv_def tree_ok_def)
    qed
  qed
  from fs_inv_remove [OF assms i(2) not_own_parent [OF assms i(2-4)] leaf] False i
  show ?thesis by (simp add: fs_rm_def)
qed

lemma fs_rmdir_inv:
  assumes "fs_inv s"
  shows "fs_inv (snd (fs_rmdir name s))"
proof (cases "strcmp name ''.'' = 0 \<or> strcmp name ''..'' = 0
    \<or> fs_find_in name (fs_cwd s) s = -1 \<or> e_type (ent s (fs_find_in name (fs_cwd s) s)) \<noteq> FS_TYPE_DIR
    \<or> \<not> fs_dir_empty (fs_find_in name (fs_cwd s) s) s")
  case True
  then show ?thesis using assms by (auto simp: fs_rmdir_def fs_inv_print Let_def)
next
  case False
  then obtain i where i: "fs_find_in name (fs_cwd s) s = int i" "i < 32" "live (fs_table s) i"
      "e_parent (fs_table s ! i) = fs_cwd s" using fs_find_in_found by blast
  then have "\<forall>j<32. live (fs_table s) j \<longrightarrow> e_parent (fs_table s ! j) \<noteq> int i"
    using False by (auto simp: fs_dir_empty_def scan_none_iff live_def FS_MAX_ENTRIES_def)
  from fs_inv_remove [OF assms i(2) not_own_parent [OF assms i(2-4)] this] False i
  show ?thesis by (simp add: fs_rmdir_def)
qed

lemma fs_inv_chdir:
  assumes "fs_inv s" and "0 \<le> d" and "d < 32" and "e_type (ent s d) = FS_TYPE_DIR"
  shows "fs_inv (s\<lparr>fs_cwd := d\<rparr>)"
  using assms by (simp add: fs_inv_def ent_def)

lemma cwd_parent:
  assumes "fs_inv s"
  shows "e_parent (ent s (fs_cwd s)) = -1 \<longleftrightarrow> fs_cwd s = 0"
    and "fs_cwd s \<noteq> 0 \<Longrightarrow> 0 \<le> e_parent (ent s (fs_cwd s)) \<and> e_parent (ent s (fs_cwd s)) < 32
          \<and> e_type (ent s (e_parent (ent s (fs_cwd s)))) = FS_TYPE_DIR"
proof -
  note inv = assms [unfolded fs_inv_def]
  obtain r where r: "tree_ok (fs_table s) r" using inv by blast
  show p: "fs_cwd s \<noteq> 0 \<Longrightarrow> 0 \<le> e_parent (ent s (fs_cwd s)) \<and> e_parent (ent s (fs_cwd s)) < 32
          \<and> e_type (ent s (e_parent (ent s (fs_cwd s)))) = FS_TYPE_DIR"
  proof -
    assume "fs_cwd s \<noteq> 0"
    then have "0 < nat (fs_cwd s)" "nat (fs_cwd s) < 32" "live (fs_table s) (nat (fs_cwd s))"
      using inv by (auto simp: live_def ent_def)
    then show ?thesis using r by (simp add: tree_ok_def ent_def)
  qed
  show "e_parent (ent s (fs_cwd s)) = -1 \<longleftrightarrow> fs_cwd s = 0"
    using p inv by (cases "fs_cwd s = 0") (auto simp: ent_def)
qed

lemma fs_resolve_dir_range:
  assumes "fs_inv s" and "fs_resolve_dir name s \<noteq> -1"
  shows "0 \<le> fs_resolve_dir name s \<and> fs_resolve_dir name s < 32"
proof -
  have "0 \<le> fs_find_in name d s \<and> fs_find_in name d s < 32" if "fs_find_in name d s \<noteq> -1" for d
    using fs_find_in_found [OF that] by (metis of_nat_0_le_iff of_nat_less_iff of_nat_numeral)
  then show ?thesis
    using assms cwd_parent [OF assms(1)] by (auto simp: fs_resolve_dir_def fs_inv_def split: if_splits)
qed

lemma fs_cd_inv:
  assumes "fs_inv s"
  shows "fs_inv (snd (fs_cd name s))"
proof -
  have root: "fs_inv (s\<lparr>fs_cwd := 0\<rparr>)"
    by (rule fs_inv_chdir [OF assms]) (use assms in \<open>simp_all add: fs_inv_def ent_def\<close>)
  have "fs_inv (s\<lparr>fs_cwd := fs_resolve_dir name s\<rparr>)"
    if "fs_resolve_dir name s \<noteq> -1" "e_type (ent s (fs_resolve_dir name s)) = FS_TYPE_DIR"
    using fs_inv_chdir [OF assms] fs_resolve_dir_range [OF assms that(1)] that(2) by blast
  then show ?thesis using assms root by (simp add: fs_cd_def fs_inv_print Let_def)
qed

lemma fs_list_files_table:
  "fs_table (fs_list_files s) = fs_table s \<and> fs_cwd (fs_list_files s) = fs_cwd s"
proof -
  let ?F = "\<lambda>i (count :: int, s).
          if e_type (fs_table s ! i) = FS_TYPE_NONE then (count, s)
          else if e_parent (fs_table s ! i) \<noteq> fs_cwd s then (count, s)
          else if e_type (fs_table s ! i) = FS_TYPE_DIR then
            (count + 1, kprint [NL] (kprint (e_name (fs_table s ! i)) (kprint ''[DIR]  '' s)))
          else
            (count + 1, kprint [NL] (kprint (e_name (fs_table s ! i)) (kprint ''[FILE] '' s)))"
  have "fs_table (snd (fold ?F xs p)) = fs_table (snd p) \<and> fs_cwd (snd (fold ?F xs p)) = fs_cwd (snd p)"
    for xs and p :: "int \<times> 'a fsys_scheme"
  proof (induction xs arbitrary: p)
    case (Cons x xs)
    then show ?case by (cases p) simp
  qed simp
  from this [of "[0..<FS_MAX_ENTRIES]" "(0, s)"] show ?thesis
    by (simp add: fs_list_files_def split_beta Let_def)
qed

lemma fs_list_files_inv: "fs_inv s \<Longrightarrow> fs_inv (fs_list_files s)"
  using fs_inv_cong [of "fs_list_files s" s] fs_list_files_table [of s] by simp

lemma fs_pwd_table:
  assumes "fs_pwd s = Some t"
  shows "fs_table t = fs_table s \<and> fs_cwd t = fs_cwd s"
proof -
  have f: "fs_table (fold (\<lambda>i s. kprint (e_name (ent s i)) (kprint ''/'' s)) xs u) = fs_table u
      \<and> fs_cwd (fold (\<lambda>i s. kprint (e_name (ent s i)) (kprint ''/'' s)) xs u) = fs_cwd u"
    for xs and u :: "'a fsys_scheme"
    by (induction xs arbitrary: u) simp_all
  show ?thesis using assms f
    by (auto simp: fs_pwd_def fs_print_path_def split: if_splits option.splits)
qed

lemma fs_init_inv:
  assumes "length (fs_table s) = 32"
  shows "fs_inv (fs_init s)"
proof -
  have z: "(replicate 17 NUL)[0 := NUL] = replicate 17 NUL" by (simp add: list_update_same_conv)
  have "tree_ok (fs_table (fs_init s)) (\<lambda>_. 0)"
    using assms by (auto simp: tree_ok_def live_def fs_init_def Let_def nth_list_update)
  then show ?thesis using assms
    unfolding fs_inv_def
    by (auto simp: fs_init_def Let_def entry_ok_def nth_list_update ent_def FS_MAX_NAME_LEN_def
        FS_MAX_FILE_SIZE_def z)
qed

end
