(* ===== verification/Fs_Spec.thy ===== *)
theory Fs_Spec
  imports Fs
begin

text \<open>
  What the file system promises: every sequence of operations keeps the table a tree and returns;
  \<open>pwd\<close> prints the path of the working directory; creating, removing, writing and reading act on
  an abstract directory, a map from a directory and a name to an entry, as they should. Also the
  places where the arrays of fixed size show through: names are cut at 16 characters and a
  recycled entry keeps the contents of the file that used it before.
\<close>

section \<open>Sequences of operations\<close>

datatype fs_op = Touch "char list" | Write "char list" "char list" | Cat "char list"
  | Mkdir "char list" | Cd "char list" | Pwd | Ls | Rm "char list" | Rmdir "char list"

fun fs_step :: "fs_op \<Rightarrow> 'a fsys_scheme \<Rightarrow> 'a fsys_scheme option" where
  "fs_step (Touch n) s = Some (snd (fs_create_file n s))"
| "fs_step (Write n d) s = Some (fs_write_file n d s)"
| "fs_step (Cat n) s = Some (fs_read_file n s)"
| "fs_step (Mkdir n) s = Some (snd (fs_mkdir n s))"
| "fs_step (Cd n) s = Some (snd (fs_cd n s))"
| "fs_step Pwd s = fs_pwd s"
| "fs_step Ls s = Some (fs_list_files s)"
| "fs_step (Rm n) s = Some (snd (fs_rm n s))"
| "fs_step (Rmdir n) s = Some (snd (fs_rmdir n s))"

fun fs_run :: "fs_op list \<Rightarrow> 'a fsys_scheme \<Rightarrow> 'a fsys_scheme option" where
  "fs_run [] s = Some s"
| "fs_run (x # xs) s = (case fs_step x s of None \<Rightarrow> None | Some t \<Rightarrow> fs_run xs t)"

section \<open>The walk to the root\<close>

lemma walk_up_root [simp]: "fs_walk_up tab st 0 = Some st"
  by (subst fs_walk_up.simps) simp

lemma walk_up_step: "0 < i \<Longrightarrow> fs_walk_up tab st (int i)
    = fs_walk_up tab (st @ [int i]) (e_parent (tab ! i))"
  by (subst fs_walk_up.simps) simp

lemma walk_up_terminates:
  assumes "tree_ok tab r" and "i < 32" and "i = 0 \<or> live tab i"
  shows "\<exists>p. (\<forall>st. fs_walk_up tab st (int i) = Some (st @ map int p))
     \<and> distinct p \<and> set p \<subseteq> {1..<32} \<and> (\<forall>x \<in> set p. r x \<le> r i)"
  using assms(2,3)
proof (induction "r i" arbitrary: i rule: less_induct)
  case less
  show ?case
  proof (cases "i = 0")
    case True
    then show ?thesis by (intro exI [of _ "[]"]) simp
  next
    case False
    let ?p = "nat (e_parent (tab ! i))"
    have p: "0 \<le> e_parent (tab ! i)" "?p < 32" "live tab ?p" "r ?p < r i"
      using assms(1) less.prems False by (auto simp: tree_ok_def live_def)
    then obtain q where q: "\<forall>st. fs_walk_up tab st (int ?p) = Some (st @ map int q)"
        "distinct q" "set q \<subseteq> {1..<32}" "\<forall>x \<in> set q. r x \<le> r ?p"
      using less.hyps [OF p(4,2)] by blast
    have "\<forall>st. fs_walk_up tab st (int i) = Some (st @ map int (i # q))"
      using False q(1) p(1) by (simp add: walk_up_step)
    moreover have "i \<notin> set q" using q(4) p(4) by auto
    ultimately show ?thesis
      using q(2-4) p(4) less.prems False by (intro exI [of _ "i # q"]) auto
  qed
qed

lemma cwd_walk:
  assumes "fs_inv s"
  obtains p where "\<And>st. fs_walk_up (fs_table s) st (fs_cwd s) = Some (st @ map int p)"
    "distinct p" "set p \<subseteq> {1..<32}" "length p \<le> 31"
proof -
  note inv = assms [unfolded fs_inv_def]
  obtain r where r: "tree_ok (fs_table s) r" using inv by blast
  have "live (fs_table s) (nat (fs_cwd s))" using inv by (auto simp: live_def ent_def)
  moreover have "nat (fs_cwd s) < 32" using inv by linarith
  ultimately obtain p where p: "\<forall>st. fs_walk_up (fs_table s) st (int (nat (fs_cwd s))) = Some (st @ map int p)"
      "distinct p" "set p \<subseteq> {1..<32}"
    using walk_up_terminates [OF r, of "nat (fs_cwd s)"] by blast
  have "length p = card (set p)" using p(2) by (simp add: distinct_card)
  also have "\<dots> \<le> 31" using card_mono [OF _ p(3)] by simp
  finally show ?thesis using that [of p] p inv by simp
qed

lemma fs_pwd_total: "fs_inv s \<Longrightarrow> \<exists>t. fs_pwd s = Some t"
  by (rule cwd_walk) (auto simp: fs_pwd_def fs_print_path_def)

text \<open>\<open>pwd\<close> terminates, and the array of 32 indices in which it collects the path is never
  overrun: the path from the root has at most 31 entries, all different.\<close>

theorem fs_pwd_bounded:
  assumes "fs_inv s"
  shows "\<exists>st t. fs_walk_up (fs_table s) [] (fs_cwd s) = Some st \<and> fs_pwd s = Some t
     \<and> distinct st \<and> length st \<le> 31"
proof -
  obtain p where p: "fs_walk_up (fs_table s) [] (fs_cwd s) = Some (map int p)"
    "distinct p" "length p \<le> 31" using cwd_walk [OF assms] by (metis append_Nil)
  then show ?thesis using fs_pwd_total [OF assms] by (auto simp: distinct_map)
qed

lemma fs_step_inv: "fs_inv s \<Longrightarrow> \<exists>t. fs_step x s = Some t \<and> fs_inv t"
proof (cases x)
  case Pwd
  assume inv: "fs_inv s"
  then obtain t where "fs_pwd s = Some t" using fs_pwd_total by blast
  moreover from this have "fs_inv t" using fs_pwd_table [of s t] fs_inv_cong [of t s] inv by simp
  ultimately show ?thesis using Pwd by simp
qed (simp_all add: fs_create_file_inv fs_write_file_inv fs_read_file_inv fs_mkdir_inv fs_cd_inv
      fs_list_files_inv fs_rm_inv fs_rmdir_inv)

text \<open>C5: whatever operations run after \<open>fs_init\<close>, each of them returns, and afterwards the table
  is a tree rooted at entry 0 whose arrays are terminated inside their bounds, with the working
  directory an existing directory.\<close>

theorem fs_run_inv:
  assumes "length (fs_table s) = 32"
  shows "\<exists>t. fs_run ops (fs_init s) = Some t \<and> fs_inv t"
proof -
  have "fs_inv u \<Longrightarrow> \<exists>t. fs_run ops u = Some t \<and> fs_inv t" for u :: "'a fsys_scheme"
  proof (induction ops arbitrary: u)
    case (Cons x xs)
    obtain v where "fs_step x u = Some v" "fs_inv v" using fs_step_inv [OF Cons.prems] by blast
    then show ?case using Cons.IH by simp
  qed simp
  from this [OF fs_init_inv [OF assms]] show ?thesis .
qed

section \<open>Paths\<close>

text \<open>The path of an entry, as a relation on the table, and the text of a path.\<close>

inductive path_to :: "fs_entry list \<Rightarrow> nat \<Rightarrow> char list list \<Rightarrow> bool" for tab where
  root: "path_to tab 0 []"
| child: "path_to tab p ns \<Longrightarrow> 0 < i \<Longrightarrow> e_parent (tab ! i) = int p
    \<Longrightarrow> path_to tab i (ns @ [cstr (e_name (tab ! i))])"

inductive_cases path_to_cases: "path_to tab i ns"

definition path_text :: "char list list \<Rightarrow> char list" where
  "path_text ns = (if ns = [] then ''/'' else concat (map (\<lambda>n. CHR ''/'' # n) ns))"

lemma path_walk:
  "path_to tab i ns \<Longrightarrow> \<exists>p. (\<forall>st. fs_walk_up tab st (int i) = Some (st @ map int p))
     \<and> map (\<lambda>j. cstr (e_name (tab ! j))) (rev p) = ns \<and> (p = [] \<longleftrightarrow> i = 0)"
proof (induction rule: path_to.induct)
  case root
  show ?case by (intro exI [of _ "[]"]) simp
next
  case (child p ns i)
  then obtain q where "\<forall>st. fs_walk_up tab st (int p) = Some (st @ map int q)"
      "map (\<lambda>j. cstr (e_name (tab ! j))) (rev q) = ns" by blast
  then show ?case using child.hyps by (intro exI [of _ "i # q"]) (simp add: walk_up_step)
qed

lemma print_path_fold:
  "fold (\<lambda>i s. kprint (e_name (ent s i)) (kprint ''/'' s)) (map int p) s
     = kprint (concat (map (\<lambda>j. CHR ''/'' # cstr (e_name (fs_table s ! j))) p)) s"
proof (induction p arbitrary: s)
  case (Cons j p)
  let ?n = "cstr (e_name (fs_table s ! j))"
  have "kprint (e_name (ent (kprint ''/'' s) (int j))) (kprint ''/'' s)
      = kprint (CHR ''/'' # ?n) s"
    by (simp add: kprint_cstr kprint.simps)
  moreover have "NUL \<notin> set (CHR ''/'' # ?n)" using cstr_no_NUL by auto
  ultimately show ?case using Cons.IH by (simp add: kprint_append [symmetric])
qed simp

text \<open>C21: \<open>pwd\<close> prints the path of the working directory: \<open>/\<close> for the root, otherwise the names on
  the way from the root, each after a \<open>/\<close>, then a newline.\<close>

theorem fs_pwd_prints_path:
  assumes "path_to (fs_table s) (nat (fs_cwd s)) ns" and "0 \<le> fs_cwd s"
  shows "fs_pwd s = Some (kprint [NL] (kprint (path_text ns) s))"
proof -
  obtain p where p: "fs_walk_up (fs_table s) [] (fs_cwd s) = Some (map int p)"
      "map (\<lambda>j. cstr (e_name (fs_table s ! j))) (rev p) = ns" "p = [] \<longleftrightarrow> nat (fs_cwd s) = 0"
    using path_walk [OF assms(1)] assms(2) by auto
  show ?thesis
  proof (cases "fs_cwd s = 0")
    case True
    then have "ns = []" using p by auto
    then show ?thesis using True by (simp add: fs_pwd_def fs_print_path_def path_text_def)
  next
    case False
    then have ne: "ns \<noteq> []" using p assms(2) by auto
    have "concat (map (\<lambda>j. CHR ''/'' # cstr (e_name (fs_table s ! j))) (rev p)) = path_text ns"
      using ne p(2) by (auto simp: path_text_def comp_def)
    then show ?thesis using False p(1) print_path_fold [of "rev p" s]
      by (simp add: fs_pwd_def fs_print_path_def rev_map)
  qed
qed


section \<open>The directory as a map\<close>

text \<open>The entry that a name denotes in a directory.\<close>

definition fs_dir :: "'a fsys_scheme \<Rightarrow> int \<times> char list \<Rightarrow> int option" where
  "fs_dir s = (\<lambda>(d, n). if NUL \<in> set n \<or> fs_find_in n d s = -1 then None else Some (fs_find_in n d s))"

lemma fs_name_short:
  assumes "fs_inv s" and "i < 32"
  shows "length (cstr (e_name (fs_table s ! i))) \<le> 16"
proof -
  have "length (e_name (fs_table s ! i)) = 17" "NUL \<in> set (e_name (fs_table s ! i))"
    using assms by (auto simp: fs_inv_def entry_ok_def)
  moreover have "NUL \<in> set n \<Longrightarrow> length (cstr n) < length n" for n
    by (induction n) auto
  ultimately show ?thesis by fastforce
qed

lemma find_in_create:
  assumes "length (fs_table s) = 32" and "i < 32" and "\<not> live (fs_table s) i"
    and "cstr (e_name e) = cstr name" and "e_parent e = d" and "e_type e \<noteq> FS_TYPE_NONE"
    and "fs_find_in name d s = -1"
  shows "fs_find_in n d' (upd_ent (int i) (\<lambda>_. e) s)
     = (if cstr n = cstr name \<and> d' = d then int i else fs_find_in n d' s)"
proof -
  let ?s = "upd_ent (int i) (\<lambda>_. e) s"
  have free: "e_type (fs_table s ! i) = FS_TYPE_NONE" using assms(3) by (simp add: live_def)
  show ?thesis
  proof (cases "cstr n = cstr name \<and> d' = d")
    case True
    have "\<not> (e_type (fs_table s ! j) \<noteq> FS_TYPE_NONE \<and> e_parent (fs_table s ! j) = d
        \<and> strcmp (e_name (fs_table s ! j)) n = 0)" if "j < 32" for j
      using assms(7) True that by (auto simp: fs_find_in_none strcmp_zero_iff live_def)
    then have "fs_find_in n d ?s = int i"
      unfolding fs_find_in_def scan_found_iff
      using assms(1,2,4-6) True by (auto simp: FS_MAX_ENTRIES_def strcmp_zero_iff)
    then show ?thesis using True by simp
  next
    case False
    then have "fs_find_in n d' ?s = fs_find_in n d' s"
      unfolding fs_find_in_def using assms(1,2,4,5) free
      by (intro scan_cong) (auto simp: FS_MAX_ENTRIES_def strcmp_zero_iff nth_list_update)
    then show ?thesis using False by auto
  qed
qed

lemma upd_ent_const: "upd_ent i f s = upd_ent i (\<lambda>_. f (fs_table s ! nat i)) s"
  by (simp add: upd_ent_def)

lemma create_dir:
  assumes "fs_inv s" and "fs_find_in name (fs_cwd s) s = -1" and "fs_alloc s = slot" and "slot \<noteq> -1"
    and "length (cstr name) \<le> 16" and "ty \<noteq> FS_TYPE_NONE"
  shows "fs_dir (upd_ent slot (\<lambda>e. e\<lparr>e_type := ty, e_parent := fs_cwd s, e_size := 0,
            e_name := fs_strncpy (e_name e) name FS_MAX_NAME_LEN\<rparr>) s)
     = (fs_dir s)((fs_cwd s, cstr name) \<mapsto> slot)"
proof -
  obtain i where i: "slot = int i" "i < 32" "\<not> live (fs_table s) i"
    using fs_alloc_found [of s] assms(3,4) by metis
  have len: "length (fs_table s) = 32" and "entry_ok (fs_table s ! i)"
    using assms(1) i(2) by (auto simp: fs_inv_def)
  then have nm: "cstr (fs_strncpy (e_name (fs_table s ! i)) name 16) = cstr name"
    using assms(5) fs_strncpy_props [of 16 "e_name (fs_table s ! i)" name] by (simp add: entry_ok_def)
  let ?e = "(fs_table s ! i)\<lparr>e_type := ty, e_parent := fs_cwd s, e_size := 0,
            e_name := fs_strncpy (e_name (fs_table s ! i)) name FS_MAX_NAME_LEN\<rparr>"
  have f: "fs_find_in n d (upd_ent (int i) (\<lambda>_. ?e) s)
      = (if cstr n = cstr name \<and> d = fs_cwd s then int i else fs_find_in n d s)" for n d
    by (rule find_in_create [OF len i(2,3) _ _ _ assms(2)])
       (use nm assms(6) in \<open>simp_all add: FS_MAX_NAME_LEN_def\<close>)
  show ?thesis
    by (rule ext, subst upd_ent_const)
       (auto simp: fs_dir_def f i(1) cstr_id cstr_no_NUL split: prod.splits)
qed

lemma fs_create_refines_fact:
  assumes "fs_inv s" and "length (cstr name) \<le> 16"
    and op: "fs_create_file name s = (slot, s') \<and> ty = FS_TYPE_FILE
           \<or> fs_mkdir name s = (slot, s') \<and> ty = FS_TYPE_DIR"
    and "slot \<noteq> -1"
  shows "fs_dir s' = (fs_dir s)((fs_cwd s, cstr name) \<mapsto> slot) \<and> e_type (ent s' slot) = ty"
proof -
  have len: "length (fs_table s) = 32" using assms(1) by (simp add: fs_inv_def)
  have r: "nat (fs_alloc s) < 32" if "fs_alloc s \<noteq> -1"
    using fs_alloc_found [OF that] by (metis nat_int)
  show ?thesis
    using op assms(4) create_dir [OF assms(1) _ _ _ assms(2), of slot ty] len r
    by (auto simp: fs_create_file_def fs_mkdir_def Let_def ent_def split: if_splits)
qed

text \<open>C10: creating a file or a directory with a name of at most 16 characters adds exactly one binding
  to the directory map: the name in the working directory, bound to the returned entry, which has
  the requested type. All other names in all directories denote what they denoted before.\<close>

theorem fs_create_refines:
  assumes "fs_inv s" and "length (cstr name) \<le> 16"
    and op: "fs_create_file name s = (slot, s') \<and> ty = FS_TYPE_FILE
           \<or> fs_mkdir name s = (slot, s') \<and> ty = FS_TYPE_DIR"
    and "slot \<noteq> -1"
  shows "fs_dir s' = (fs_dir s)((fs_cwd s, cstr name) \<mapsto> slot) \<and> e_type (ent s' slot) = ty"
  using assms by (rule fs_create_refines_fact)

definition blank_fs :: fsys where
  "blank_fs = fs_init \<lparr>io = [], mem = (\<lambda>_. 0), current_loc = 0, free_mem_start = 0x400000,
      system_max_mem = 0x1000000, page_directory = [], first_page_table = [], cr0 = 0x11, cr3 = 0,
      swap_storage = [],
      fs_table = replicate 32 \<lparr>e_name = replicate 17 NUL, e_content = replicate 256 NUL,
                    e_size = 0, e_type = FS_TYPE_NONE, e_parent = 0\<rparr>,
      fs_cwd = 0\<rparr>"

lemma blank_fs_inv: "fs_inv blank_fs"
  unfolding blank_fs_def by (rule fs_init_inv) simp

lemma blank_fs_find: "fs_find_in n 0 blank_fs = -1"
  by (auto simp: fs_find_in_none blank_fs_def fs_init_def Let_def live_def nth_list_update split: if_splits)

lemma blank_fs_alloc: "fs_alloc blank_fs = 1"
proof -
  have "fs_alloc blank_fs = int 1"
    unfolding fs_alloc_def scan_found_iff
    by (simp add: blank_fs_def fs_init_def Let_def FS_MAX_ENTRIES_def)
  then show ?thesis by simp
qed

lemma blank_fs_cwd: "fs_cwd blank_fs = 0"
  by (simp add: blank_fs_def fs_init_def Let_def)

theorem fs_create_refines_witness:
  "fs_dir (snd (fs_create_file ''notes'' blank_fs)) (0, ''notes'') = Some 1"
proof -
  obtain s' where "fs_create_file ''notes'' blank_fs = (1, s')"
    using blank_fs_find blank_fs_alloc by (simp add: fs_create_file_def Let_def blank_fs_cwd)
  then show ?thesis
    using fs_create_refines [OF blank_fs_inv, of "''notes''" 1 s' FS_TYPE_FILE]
    by (simp add: blank_fs_cwd)
qed

text \<open>an operation that reports an error leaves every file, every directory and the working
  directory as they were.\<close>

theorem fs_error_no_effect:
  assumes "f \<in> {fs_create_file name, fs_mkdir name, fs_cd name, fs_rm name, fs_rmdir name}"
    and "fst (f s) = -1"
  shows "fs_table (snd (f s)) = fs_table s \<and> fs_cwd (snd (f s)) = fs_cwd s"
  using assms
  by (auto simp: fs_create_file_def fs_mkdir_def fs_cd_def fs_rm_def fs_rmdir_def Let_def split: if_splits)

theorem fs_error_no_effect_witness:
  "fs_table (snd (fs_rm ''ghost'' blank_fs)) = fs_table blank_fs"
  using fs_error_no_effect [of "fs_rm ''ghost''" "''ghost''" blank_fs]
  by (simp add: fs_rm_def blank_fs_cwd blank_fs_find)

text \<open>with all 32 entries in use, creating anything fails with -1.\<close>

theorem fs_full:
  assumes "\<forall>i<32. live (fs_table s) i"
  shows "fst (fs_create_file name s) = -1 \<and> fst (fs_mkdir name s) = -1"
  using assms by (simp add: fs_create_file_def fs_mkdir_def fs_alloc_full Let_def)

section \<open>Removing\<close>

text \<open>No two entries of a directory have the same name. Names of more than 16 characters break this.\<close>

definition fs_unique :: "'a fsys_scheme \<Rightarrow> bool" where
  "fs_unique s \<longleftrightarrow> (\<forall>i<32. \<forall>j<32. live (fs_table s) i \<longrightarrow> live (fs_table s) j
     \<longrightarrow> e_parent (fs_table s ! i) = e_parent (fs_table s ! j)
     \<longrightarrow> cstr (e_name (fs_table s ! i)) = cstr (e_name (fs_table s ! j)) \<longrightarrow> i = j)"

lemma fs_find_in_int:
  "fs_find_in n d s = int i \<Longrightarrow> i < 32 \<and> live (fs_table s) i \<and> e_parent (fs_table s ! i) = d
     \<and> cstr (e_name (fs_table s ! i)) = cstr n"
  by (simp add: fs_find_in_def scan_found_iff live_def FS_MAX_ENTRIES_def strcmp_zero_iff)

lemma remove_dir:
  assumes "fs_inv s" and "fs_unique s" and "fs_find_in name d s = int i" 
  shows "fs_dir (upd_ent (int i) (\<lambda>e. e\<lparr>e_type := FS_TYPE_NONE\<rparr>) s)
     = (fs_dir s)((d, cstr name) := None)"
proof -
  have len: "length (fs_table s) = 32" using assms(1) by (simp add: fs_inv_def)
  have i: "i < 32" "live (fs_table s) i" "e_parent (fs_table s ! i) = d"
      "cstr (e_name (fs_table s ! i)) = cstr name"
    using fs_find_in_int [OF assms(3)] by blast+
  let ?s = "upd_ent (int i) (\<lambda>e. e\<lparr>e_type := FS_TYPE_NONE\<rparr>) s"
  have f: "fs_find_in n d' ?s = (if cstr n = cstr name \<and> d' = d then -1 else fs_find_in n d' s)" for n d'
  proof (cases "cstr n = cstr name \<and> d' = d")
    case True
    have "fs_find_in n d' ?s = -1"
      using assms(2) i len True unfolding fs_find_in_none fs_unique_def
      by (auto simp: live_def nth_list_update split: if_splits)
    then show ?thesis using True by simp
  next
    case False
    then have "fs_find_in n d' ?s = fs_find_in n d' s"
      unfolding fs_find_in_def using i len
      by (intro scan_cong) (auto simp: FS_MAX_ENTRIES_def strcmp_zero_iff nth_list_update)
    then show ?thesis using False by auto
  qed
  show ?thesis by (rule ext) (auto simp: fs_dir_def f cstr_id cstr_no_NUL split: prod.splits)
qed


text \<open>C11: removing a file or an empty directory deletes exactly its binding from the directory map,
  provided names are unique.\<close>

theorem fs_remove_refines:
  assumes "fs_inv s" and "fs_unique s" and "fst (f name s) = 0" and "f \<in> {fs_rm, fs_rmdir}"
  shows "fs_dir (snd (f name s)) = (fs_dir s)((fs_cwd s, cstr name) := None)"
proof -
  have ne: "fs_find_in name (fs_cwd s) s \<noteq> -1"
    and eq: "snd (f name s) = upd_ent (fs_find_in name (fs_cwd s) s) (\<lambda>e. e\<lparr>e_type := FS_TYPE_NONE\<rparr>) s"
    using assms(3,4) by (auto simp: fs_rm_def fs_rmdir_def Let_def split: if_splits)
  obtain i where "fs_find_in name (fs_cwd s) s = int i" using fs_find_in_found [OF ne] by blast
  then show ?thesis using remove_dir [OF assms(1,2)] eq by simp
qed

section \<open>Names stay unique while they are short\<close>

lemma unique_create:
  assumes "fs_inv s" and "fs_unique s" and "fs_find_in name (fs_cwd s) s = -1" and "fs_alloc s \<noteq> -1"
    and "length (cstr name) \<le> 16"
  shows "fs_unique (upd_ent (fs_alloc s) (\<lambda>e. e\<lparr>e_type := ty, e_parent := fs_cwd s, e_size := 0,
            e_name := fs_strncpy (e_name e) name FS_MAX_NAME_LEN\<rparr>) s)"
proof -
  obtain i where i: "fs_alloc s = int i" "i < 32" "\<not> live (fs_table s) i"
    using fs_alloc_found [OF assms(4)] by blast
  have len: "length (fs_table s) = 32" and "entry_ok (fs_table s ! i)"
    using assms(1) i(2) by (auto simp: fs_inv_def)
  then have nm: "cstr (fs_strncpy (e_name (fs_table s ! i)) name 16) = cstr name"
    using assms(5) fs_strncpy_props [of 16 "e_name (fs_table s ! i)" name] by (simp add: entry_ok_def)
  have fresh: "\<forall>j<32. live (fs_table s) j \<longrightarrow> e_parent (fs_table s ! j) = fs_cwd s
      \<longrightarrow> cstr (e_name (fs_table s ! j)) \<noteq> cstr name"
    using assms(3) by (simp add: fs_find_in_none)
  show ?thesis
    unfolding fs_unique_def
  proof (intro allI impI)
    fix j k :: nat assume jk: "j < 32" "k < 32"
    let ?u = "upd_ent (fs_alloc s) (\<lambda>e. e\<lparr>e_type := ty, e_parent := fs_cwd s, e_size := 0,
            e_name := fs_strncpy (e_name e) name FS_MAX_NAME_LEN\<rparr>) s"
    assume a: "live (fs_table ?u) j" "live (fs_table ?u) k"
      "e_parent (fs_table ?u ! j) = e_parent (fs_table ?u ! k)"
      "cstr (e_name (fs_table ?u ! j)) = cstr (e_name (fs_table ?u ! k))"
    have old: "x \<noteq> i \<Longrightarrow> fs_table ?u ! x = fs_table s ! x" for x using i by simp
    have new: "e_parent (fs_table ?u ! i) = fs_cwd s" "cstr (e_name (fs_table ?u ! i)) = cstr name"
      using i len nm by (simp_all add: FS_MAX_NAME_LEN_def)
    consider "j = i" "k = i" | "j = i" "k \<noteq> i" | "j \<noteq> i" "k = i" | "j \<noteq> i" "k \<noteq> i" by blast
    then show "j = k"
    proof cases
      case 2
      then show ?thesis using a fresh jk old [of k] new by (simp add: live_def)
    next
      case 3
      then show ?thesis using a fresh jk old [of j] new by (simp add: live_def)
    next
      case 4
      then show ?thesis using a assms(2) jk old [of j] old [of k] by (simp add: fs_unique_def live_def)
    qed simp
  qed
qed

lemma unique_remove: "fs_unique s \<Longrightarrow> length (fs_table s) = 32
    \<Longrightarrow> fs_unique (upd_ent i (\<lambda>e. e\<lparr>e_type := FS_TYPE_NONE\<rparr>) s)"
  by (auto simp: fs_unique_def live_def nth_upd split: if_splits)

lemma unique_cong: "fs_table s = fs_table t \<Longrightarrow> fs_unique s = fs_unique t"
  by (simp add: fs_unique_def)

lemma unique_write: "fs_unique s \<Longrightarrow> length (fs_table s) = 32 \<Longrightarrow> fs_unique (fs_write_file n d s)"
proof (cases "fs_find_in n (fs_cwd s) s = -1 \<or> e_type (ent s (fs_find_in n (fs_cwd s) s)) \<noteq> FS_TYPE_FILE")
  case True
  assume "fs_unique s"
  moreover have "fs_table (fs_write_file n d s) = fs_table s"
    using True by (auto simp: fs_write_file_def Let_def)
  ultimately show ?thesis using unique_cong by metis
next
  case False
  assume u: "fs_unique s" and len: "length (fs_table s) = 32"
  let ?i = "nat (fs_find_in n (fs_cwd s) s)"
  have w: "fs_table (fs_write_file n d s) = (fs_table s)[?i := fs_put_content d (fs_table s ! ?i)]"
    using False by (simp add: fs_write_file_def)
  have "e_type (fs_put_content d e) = e_type e" "e_parent (fs_put_content d e) = e_parent e"
    "e_name (fs_put_content d e) = e_name e" for e
    by (simp_all add: fs_put_content_def split_beta Let_def)
  then have "e_type (fs_table (fs_write_file n d s) ! j) = e_type (fs_table s ! j)"
    "e_parent (fs_table (fs_write_file n d s) ! j) = e_parent (fs_table s ! j)"
    "e_name (fs_table (fs_write_file n d s) ! j) = e_name (fs_table s ! j)" if "j < 32" for j
    unfolding w using len that by (auto simp: nth_upd)
  then show ?thesis using u by (simp add: fs_unique_def live_def)
qed

fun short_names :: "fs_op \<Rightarrow> bool" where
  "short_names (Touch n) = (length (cstr n) \<le> 16)"
| "short_names (Mkdir n) = (length (cstr n) \<le> 16)"
| "short_names _ = True"

lemma fs_step_unique:
  assumes "fs_inv s" and "fs_unique s" and "short_names x" and "fs_step x s = Some t"
  shows "fs_unique t"
proof -
  have len: "length (fs_table s) = 32" using assms(1) by (simp add: fs_inv_def)
  have pr: "fs_unique (kprint m s)" "fs_unique (quoted a n b s)" "fs_unique (s\<lparr>fs_cwd := d\<rparr>)" for m a n b d
    using assms(2) by (simp_all add: fs_unique_def)
  show ?thesis
  proof (cases x)
    case (Touch n)
    then show ?thesis using assms pr unique_create [OF assms(1,2), of n]
      by (auto simp: fs_create_file_def Let_def)
  next
    case (Mkdir n)
    then show ?thesis using assms pr unique_create [OF assms(1,2), of n]
      by (auto simp: fs_mkdir_def Let_def)
  next
    case (Cat n)
    have "fs_table (fs_read_file n s) = fs_table s" by (simp add: fs_read_file_def Let_def)
    then show ?thesis using Cat assms unique_cong [of "fs_read_file n s" s] by simp
  next
    case (Cd n)
    then show ?thesis using assms pr by (auto simp: fs_cd_def Let_def)
  next
    case (Rm n)
    then show ?thesis using assms pr unique_remove [OF assms(2) len] by (auto simp: fs_rm_def Let_def)
  next
    case (Rmdir n)
    then show ?thesis using assms pr unique_remove [OF assms(2) len] by (auto simp: fs_rmdir_def Let_def)
  next
    case Ls
    then show ?thesis
      using assms fs_list_files_table [of s] unique_cong [of "fs_list_files s" s] by simp
  next
    case Pwd
    then show ?thesis using assms fs_pwd_table [of s t] unique_cong [of t s] by simp
  next
    case (Write n d)
    then show ?thesis using assms unique_write [OF assms(2) len] by auto
  qed
qed

text \<open>C20: as long as no name has more than 16 characters, no operation ever makes two entries of the
  same directory share a name.\<close>

theorem fs_run_unique:
  assumes "length (fs_table s) = 32" and "\<forall>x \<in> set ops. short_names x"
  shows "\<exists>t. fs_run ops (fs_init s) = Some t \<and> fs_unique t"
proof -
  have "fs_inv u \<Longrightarrow> fs_unique u \<Longrightarrow> \<exists>t. fs_run ops u = Some t \<and> fs_unique t"
    for u :: "'a fsys_scheme" using assms(2)
  proof (induction ops arbitrary: u)
    case (Cons x xs)
    obtain v where v: "fs_step x u = Some v" "fs_inv v" using fs_step_inv [OF Cons.prems(1)] by blast
    then show ?case using Cons.IH [OF v(2)] fs_step_unique [OF Cons.prems(1,2) _ v(1)] Cons.prems by simp
  qed simp
  moreover have "fs_unique (fs_init s)"
    using assms(1) by (auto simp: fs_unique_def live_def fs_init_def Let_def nth_list_update split: if_splits)
  ultimately show ?thesis using fs_init_inv [OF assms(1)] by blast
qed


section \<open>Contents\<close>

lemma find_in_write: "fs_find_in m d (fs_write_file n dat s) = fs_find_in m d s"
proof -
  have "e_type (fs_put_content dat e) = e_type e" "e_parent (fs_put_content dat e) = e_parent e"
    "e_name (fs_put_content dat e) = e_name e" for e
    by (simp_all add: fs_put_content_def split_beta Let_def)
  then have "e_type (fs_table (fs_write_file n dat s) ! i) = e_type (fs_table s ! i)"
    "e_parent (fs_table (fs_write_file n dat s) ! i) = e_parent (fs_table s ! i)"
    "e_name (fs_table (fs_write_file n dat s) ! i) = e_name (fs_table s ! i)" for i
    by (auto simp: fs_write_file_def Let_def nth_upd)
  then show ?thesis by (simp add: fs_find_in_def)
qed

text \<open>C22: after \<open>write name text\<close>, \<open>cat name\<close> prints the first 255 characters of the text and a
  newline, the size field counts them, and no other entry of the table has changed.\<close>

theorem fs_write_read:
  assumes "fs_inv s" and "fs_find_in name (fs_cwd s) s = int i" and "e_type (fs_table s ! i) = FS_TYPE_FILE"
  shows "fs_read_file name (fs_write_file name dat s)
       = kprint [NL] (kprint (take 255 (cstr dat)) (fs_write_file name dat s))
     \<and> e_size (fs_table (fs_write_file name dat s) ! i) = int (min 255 (length (cstr dat)))
     \<and> (\<forall>j. j \<noteq> i \<longrightarrow> fs_table (fs_write_file name dat s) ! j = fs_table s ! j)"
proof -
  have i: "i < 32" using fs_find_in_int [OF assms(2)] by blast
  have len: "length (fs_table s) = 32" "length (e_content (fs_table s ! i)) = 256"
    using assms(1) i by (auto simp: fs_inv_def entry_ok_def)
  note c = write_content [OF len(2), of dat]
  have w: "fs_write_file name dat s = upd_ent (int i) (fs_put_content dat) s"
    using assms(2,3) by (simp add: fs_write_file_def)
  let ?t = "fs_write_file name dat s"
  have t: "fs_table ?t ! i = fs_put_content dat (fs_table s ! i)"
    using w i len by simp
  have "fs_cwd ?t = fs_cwd s" by (simp add: w)
  then have "fs_find_in name (fs_cwd ?t) ?t = int i" by (simp add: find_in_write assms(2))
  moreover have "e_type (fs_table ?t ! i) = FS_TYPE_FILE" using t c assms(3) by simp
  ultimately have "fs_read_file name ?t = kprint [NL] (kprint (e_content (fs_table ?t ! i)) ?t)"
    by (simp add: fs_read_file_def)
  also have "kprint (e_content (fs_table ?t ! i)) ?t = kprint (take 255 (cstr dat)) ?t"
    using t c fs_strncpy_props(2) [of 255 "e_content (fs_table s ! i)" dat] len
      kprint_cstr [of "e_content (fs_table ?t ! i)" ?t] by simp
  finally show ?thesis using t c w by (simp add: nth_upd)
qed

text \<open>C38: creating a file does not clear the entry it reuses: \<open>cat\<close> of the new, empty file (its size
  field is 0) prints the contents the entry had before, for example those of a file deleted
  earlier.\<close>

theorem fs_create_keeps_old_content:
  assumes "fs_inv s" and "length (cstr name) \<le> 16"
    and "fs_create_file name s = (slot, s')" and "slot \<noteq> -1"
  shows "fs_read_file name s' = kprint [NL] (kprint (e_content (ent s slot)) s')
     \<and> e_size (ent s' slot) = 0"
proof -
  obtain i where i: "slot = int i" "i < 32" "\<not> live (fs_table s) i"
    using fs_alloc_found [of s] assms(3,4) by (auto simp: fs_create_file_def Let_def split: if_splits)
  have len: "length (fs_table s) = 32" using assms(1) by (simp add: fs_inv_def)
  have s': "s' = upd_ent slot (\<lambda>e. e\<lparr>e_type := FS_TYPE_FILE, e_parent := fs_cwd s, e_size := 0,
                      e_name := fs_strncpy (e_name e) name FS_MAX_NAME_LEN\<rparr>) s"
    using assms(3,4) by (auto simp: fs_create_file_def Let_def split: if_splits)
  have d: "fs_dir s' = (fs_dir s)((fs_cwd s, cstr name) \<mapsto> slot)"
    using fs_create_refines_fact [OF assms(1,2) disjI1 assms(4), of s' FS_TYPE_FILE] assms(3) by simp
  have "fs_find_in name (fs_cwd s') s' = slot"
    using fun_cong [OF d, of "(fs_cwd s, cstr name)"] cstr_no_NUL [of name] s'
    by (auto simp: fs_dir_def fs_find_in_def strcmp_zero_iff split: if_splits)
  then show ?thesis using s' i len by (simp add: fs_read_file_def)
qed

text \<open>a name of more than 16 characters is stored cut, so the file or directory it creates can
  never be found under the name it was created with, by any command.\<close>

theorem fs_long_name_lost:
  assumes "fs_inv s" and "16 < length (cstr name)"
  shows "fs_find_in name d s = -1 \<and> fs_find_in name d (snd (fs_create_file name s)) = -1
     \<and> fs_find_in name d (snd (fs_mkdir name s)) = -1"
proof -
  have "fs_find_in name d t = -1" if "fs_inv t" for t :: "'a fsys_scheme"
    using fs_name_short [OF that] assms(2) by (fastforce simp: fs_find_in_none)
  then show ?thesis
    using assms(1) fs_create_file_inv fs_mkdir_inv by blast
qed

section \<open>Changing directory\<close>

text \<open>\<open>cd name\<close> into a subdirectory extends the path by the name, and \<open>cd ..\<close> from there comes
  back to where it started.\<close>

theorem fs_cd_roundtrip:
  assumes "fs_inv s" and "strcmp name ''.'' \<noteq> 0" and "strcmp name ''..'' \<noteq> 0" and "strcmp name ''/'' \<noteq> 0"
    and "fs_cd name s = (0, s')"
  shows "fs_cd ''..'' s' = (0, s)
     \<and> (\<forall>ns. path_to (fs_table s) (nat (fs_cwd s)) ns
          \<longrightarrow> path_to (fs_table s') (nat (fs_cwd s')) (ns @ [cstr name]))"
proof -
  have slash: "\<not> (charat name 0 = CHR ''/'' \<and> charat name 1 = NUL)"
  proof
    assume a: "charat name 0 = CHR ''/'' \<and> charat name 1 = NUL"
    then obtain r where "name = CHR ''/'' # r" "charat r 0 = NUL"
      by (cases name) auto
    then show False using assms(4) by (cases r) (auto simp: strcmp_zero_iff)
  qed
  have ne: "fs_find_in name (fs_cwd s) s \<noteq> -1"
    and t: "e_type (ent s (fs_find_in name (fs_cwd s) s)) = FS_TYPE_DIR"
    and s': "s' = s\<lparr>fs_cwd := fs_find_in name (fs_cwd s) s\<rparr>"
    using assms(2,3,5) slash by (auto simp: fs_cd_def fs_resolve_dir_def Let_def split: if_splits)
  obtain i where i: "fs_find_in name (fs_cwd s) s = int i" "i < 32" "live (fs_table s) i"
      "e_parent (fs_table s ! i) = fs_cwd s" "cstr (e_name (fs_table s ! i)) = cstr name"
    using fs_find_in_found [OF ne] by blast
  have cwd: "0 \<le> fs_cwd s" "e_type (ent s (fs_cwd s)) = FS_TYPE_DIR"
    using assms(1) by (auto simp: fs_inv_def)
  have p: "e_parent (ent s' (fs_cwd s')) = fs_cwd s" "fs_cwd s \<noteq> -1"
    using s' i cwd by (auto simp: ent_def)
  have "fs_cd ''..'' s' = (0, s'\<lparr>fs_cwd := fs_cwd s\<rparr>)"
    using p s' cwd(2) by (simp add: fs_cd_def fs_resolve_dir_def charat_def ent_def)
  moreover have "path_to (fs_table s') (nat (fs_cwd s')) (ns @ [cstr name])"
    if "path_to (fs_table s) (nat (fs_cwd s)) ns" for ns
    using path_to.child [OF that, of i] not_own_parent(1) [OF assms(1) i(2-4)] i s' cwd(1) by simp
  ultimately show ?thesis using s' by simp
qed

section \<open>Listing a directory\<close>

definition ls_line :: "fs_entry \<Rightarrow> char list" where
  "ls_line e = (if e_type e = FS_TYPE_DIR then ''[DIR]  '' else ''[FILE] '') @ cstr (e_name e) @ [NL]"

definition ls_entries :: "'a fsys_scheme \<Rightarrow> fs_entry list" where
  "ls_entries s = map (\<lambda>i. fs_table s ! i)
     (filter (\<lambda>i. live (fs_table s) i \<and> e_parent (fs_table s ! i) = fs_cwd s) [0..<32])"

lemma kprint_ls_line: "NUL \<notin> set m \<Longrightarrow> kprint (m @ ls_line e) s
    = kprint [NL] (kprint (e_name e) (kprint (if e_type e = FS_TYPE_DIR then ''[DIR]  '' else ''[FILE] '') (kprint m s)))"
  by (simp add: ls_line_def kprint_append kprint_cstr cstr_no_NUL)

lemma ls_line_no_NUL: "NUL \<notin> set (ls_line e)"
  using cstr_no_NUL [of "e_name e"] by (simp add: ls_line_def)

lemma fs_ls_lists_fact:
  "fs_list_files s = kprint (if ls_entries s = [] then ''(empty)'' @ [NL] else concat (map ls_line (ls_entries s))) s"
proof -
  let ?P = "\<lambda>i. live (fs_table s) i \<and> e_parent (fs_table s ! i) = fs_cwd s"
  let ?F = "\<lambda>i (count, s).
          if e_type (fs_table s ! i) = FS_TYPE_NONE then (count, s)
          else if e_parent (fs_table s ! i) \<noteq> fs_cwd s then (count, s)
          else if e_type (fs_table s ! i) = FS_TYPE_DIR then
            (count + 1, kprint [NL] (kprint (e_name (fs_table s ! i)) (kprint ''[DIR]  '' s)))
          else
            (count + 1, kprint [NL] (kprint (e_name (fs_table s ! i)) (kprint ''[FILE] '' s)))"
  have "fold ?F is (int n, kprint m s)
      = (int (n + length (filter ?P is)), kprint (m @ concat (map (\<lambda>i. ls_line (fs_table s ! i)) (filter ?P is))) s)"
    if "NUL \<notin> set m" for "is" n m
    using that
  proof (induction "is" arbitrary: n m)
    case (Cons i "is")
    have "fold ?F (i # is) (int n, kprint m s)
        = fold ?F is (int (if ?P i then n + 1 else n), kprint (if ?P i then m @ ls_line (fs_table s ! i) else m) s)"
      by (simp add: live_def kprint_ls_line [OF Cons.prems] add.commute)
    also have "\<dots> = (int (n + length (filter ?P (i # is))),
        kprint (m @ concat (map (\<lambda>i. ls_line (fs_table s ! i)) (filter ?P (i # is)))) s)"
      using Cons.prems ls_line_no_NUL [of "fs_table s ! i"]
      by (subst Cons.IH) simp_all
    finally show ?case .
  qed simp
  from this [of "[]" "[0..<32]" 0] show ?thesis
    by (auto simp: fs_list_files_def ls_entries_def FS_MAX_ENTRIES_def comp_def)
qed

text \<open>\<open>ls\<close> prints one line for every entry of the working directory, in the order of the table,
  with its kind and its name, or \<open>(empty)\<close> when there is none; it changes nothing else.\<close>

theorem fs_ls_lists:
  "fs_list_files s = kprint (if ls_entries s = [] then ''(empty)'' @ [NL] else concat (map ls_line (ls_entries s))) s"
  by (rule fs_ls_lists_fact)

section \<open>Examples\<close>

text \<open>A directory \<open>d\<close> and a file with text that is then deleted.\<close>

definition mk_example :: fsys where
  "mk_example = snd (fs_mkdir ''d'' blank_fs)"

lemma mk_example: "fs_mkdir ''d'' blank_fs = (1, mk_example)" "fs_inv mk_example"
proof -
  have "fst (fs_mkdir ''d'' blank_fs) = 1"
    by (simp add: fs_mkdir_def Let_def blank_fs_cwd blank_fs_find blank_fs_alloc)
  then show "fs_mkdir ''d'' blank_fs = (1, mk_example)" by (simp add: mk_example_def prod_eq_iff)
  show "fs_inv mk_example" unfolding mk_example_def by (rule fs_mkdir_inv [OF blank_fs_inv])
qed

lemma mk_example_dir: "fs_find_in ''d'' 0 mk_example = int 1" "fs_cwd mk_example = 0"
  "e_type (fs_table mk_example ! 1) = FS_TYPE_DIR"
proof -
  show c: "fs_cwd mk_example = 0"
    by (simp add: mk_example_def fs_mkdir_def Let_def blank_fs_cwd blank_fs_find blank_fs_alloc)
  have "fs_dir mk_example (0, ''d'') = Some 1 \<and> e_type (ent mk_example 1) = FS_TYPE_DIR"
    using fs_create_refines_fact [OF blank_fs_inv _ disjI2, of "''d''" 1 mk_example FS_TYPE_DIR] mk_example(1)
    by (simp add: blank_fs_cwd)
  then show "fs_find_in ''d'' 0 mk_example = int 1" "e_type (fs_table mk_example ! 1) = FS_TYPE_DIR"
    by (simp_all add: fs_dir_def ent_def split: if_splits)
qed


theorem fs_pwd_bounded_witness:
  "\<exists>st t. fs_walk_up (fs_table mk_example) [] (fs_cwd mk_example) = Some st
     \<and> fs_pwd mk_example = Some t \<and> distinct st \<and> length st \<le> 31"
  by (rule fs_pwd_bounded [OF mk_example(2)])

theorem fs_run_inv_witness:
  "\<exists>t. fs_run [Mkdir ''d'', Cd ''d'', Touch ''x'', Pwd, Cd ''..'', Rmdir ''d''] (fs_init blank_fs) = Some t \<and> fs_inv t"
  by (rule fs_run_inv) (simp add: blank_fs_def fs_init_def Let_def)

theorem fs_run_unique_witness:
  "\<exists>t. fs_run [Touch ''x'', Mkdir ''x'', Touch ''0123456789abcdef''] (fs_init blank_fs) = Some t \<and> fs_unique t"
  by (rule fs_run_unique) (simp_all add: blank_fs_def fs_init_def Let_def)

lemma cd_example: "fs_cd ''d'' mk_example = (0, mk_example\<lparr>fs_cwd := 1\<rparr>)"
  using mk_example_dir by (simp add: fs_cd_def fs_resolve_dir_def charat_def Let_def ent_def)

theorem fs_cd_roundtrip_witness:
  "fs_cd ''..'' (mk_example\<lparr>fs_cwd := 1\<rparr>) = (0, mk_example)"
  using fs_cd_roundtrip [OF mk_example(2) _ _ _ cd_example] by simp

lemma mk_example_path: "path_to (fs_table mk_example) 1 [''d'']"
proof -
  have "e_parent (fs_table mk_example ! 1) = int 0" "cstr (e_name (fs_table mk_example ! 1)) = ''d''"
    using fs_find_in_int [OF mk_example_dir(1)] by simp_all
  then show ?thesis
    using path_to.child [OF path_to.root, of 1 "fs_table mk_example"] by simp
qed

theorem fs_pwd_prints_path_witness:
  "fs_pwd (mk_example\<lparr>fs_cwd := 1\<rparr>) = Some (kprint [NL] (kprint ''/d'' (mk_example\<lparr>fs_cwd := 1\<rparr>)))"
  using fs_pwd_prints_path [of "mk_example\<lparr>fs_cwd := 1\<rparr>" "[''d'']"] mk_example_path
  by (simp add: path_text_def)

theorem fs_full_witness:
  fixes s :: fsys
  defines "s \<equiv> blank_fs\<lparr>fs_table := replicate 32 \<lparr>e_name = [], e_content = [], e_size = 0,
                 e_type = FS_TYPE_FILE, e_parent = 0\<rparr>\<rparr>"
  shows "fst (fs_create_file ''x'' s) = -1"
  using fs_full [of s "''x''"] by (simp add: s_def live_def)

theorem fs_long_name_lost_witness:
  "fs_find_in ''0123456789abcdefg'' 0 (snd (fs_mkdir ''0123456789abcdefg'' blank_fs)) = -1"
  using fs_long_name_lost [OF blank_fs_inv, of "''0123456789abcdefg''" 0] by simp

text \<open>A file that is written and deleted, and the file that takes over its entry.\<close>

definition file_example :: fsys where
  "file_example = snd (fs_create_file ''a'' blank_fs)"

definition deleted_example :: fsys where
  "deleted_example = snd (fs_rm ''a'' (fs_write_file ''a'' ''secret'' file_example))"

lemma blank_fs_live: "live (fs_table blank_fs) j \<Longrightarrow> j < 32 \<Longrightarrow> j = 0"
  by (auto simp: live_def blank_fs_def fs_init_def Let_def nth_upd split: if_splits)

lemma file_example:
  "fs_inv file_example" "fs_cwd file_example = 0" "fs_find_in ''a'' 0 file_example = int 1"
  "e_type (fs_table file_example ! 1) = FS_TYPE_FILE"
  "j \<noteq> 1 \<Longrightarrow> fs_table file_example ! j = fs_table blank_fs ! j"
proof -
  show "fs_inv file_example" unfolding file_example_def by (rule fs_create_file_inv [OF blank_fs_inv])
  have "fst (fs_create_file ''a'' blank_fs) = 1"
    by (simp add: fs_create_file_def Let_def blank_fs_cwd blank_fs_find blank_fs_alloc)
  then have c: "fs_create_file ''a'' blank_fs = (1, file_example)"
    by (simp add: file_example_def prod_eq_iff)
  have "\<exists>f. file_example = upd_ent 1 f blank_fs"
    unfolding file_example_def fs_create_file_def Let_def by (auto simp: blank_fs_cwd blank_fs_find blank_fs_alloc)
  then obtain f where e: "file_example = upd_ent 1 f blank_fs" by (elim exE)
  show "fs_cwd file_example = 0" "j \<noteq> 1 \<Longrightarrow> fs_table file_example ! j = fs_table blank_fs ! j"
    unfolding e by (simp_all add: blank_fs_cwd)
  have "fs_dir file_example (0, ''a'') = Some 1 \<and> e_type (ent file_example 1) = FS_TYPE_FILE"
    using fs_create_refines_fact [OF blank_fs_inv _ disjI1, of "''a''" 1 file_example FS_TYPE_FILE] c
    by (simp add: blank_fs_cwd)
  then show "fs_find_in ''a'' 0 file_example = int 1" "e_type (fs_table file_example ! 1) = FS_TYPE_FILE"
    by (simp_all add: fs_dir_def ent_def split: if_splits)
qed

theorem fs_write_read_witness:
  "fs_read_file ''a'' (fs_write_file ''a'' ''hello'' file_example)
     = kprint [NL] (kprint ''hello'' (fs_write_file ''a'' ''hello'' file_example))"
  using fs_write_read [OF file_example(1), of "''a''" 1 "''hello''"] file_example(2-4) by simp

lemma deleted_example:
  "fs_inv deleted_example" "fs_cwd deleted_example = 0" "fs_find_in ''b'' 0 deleted_example = -1"
  "fs_alloc deleted_example = 1" "cstr (e_content (ent deleted_example 1)) = ''secret''"
proof -
  let ?w = "fs_write_file ''a'' ''secret'' file_example"
  have inv: "fs_inv ?w" by (rule fs_write_file_inv [OF file_example(1)])
  show "fs_inv deleted_example" unfolding deleted_example_def by (rule fs_rm_inv [OF inv])
  have w: "?w = upd_ent 1 (fs_put_content ''secret'') file_example"
    using file_example(2-4) by (simp add: fs_write_file_def ent_def)
  have len: "length (fs_table file_example) = 32" "length (e_content (fs_table file_example ! 1)) = 256"
    using file_example(1) by (auto simp: fs_inv_def entry_ok_def)
  note c = write_content [OF len(2), of "''secret''"]
  have f: "fs_find_in ''a'' (fs_cwd ?w) ?w = int 1"
    using file_example(3) by (simp add: find_in_write) (simp add: w file_example(2))
  moreover have "e_type (fs_table ?w ! 1) = FS_TYPE_FILE" using w c len file_example(4) by simp
  ultimately have d: "deleted_example = upd_ent 1 (\<lambda>e. e\<lparr>e_type := FS_TYPE_NONE\<rparr>) ?w"
    by (simp add: deleted_example_def fs_rm_def ent_def)
  show cwd: "fs_cwd deleted_example = 0" unfolding d w by (simp add: file_example(2))
  have nd: "\<not> live (fs_table deleted_example) 1" unfolding d w using len by (simp add: live_def)
  have l: "live (fs_table deleted_example) j \<Longrightarrow> j < 32 \<Longrightarrow> j = 0" for j
    using nd file_example(5) [of j] blank_fs_live [of j]
    by (cases "j = 1") (auto simp: live_def d w)
  have z: "fs_table deleted_example ! 0 = fs_table blank_fs ! 0"
    unfolding d w using file_example(5) [of 0] by simp
  have pz: "e_parent (fs_table deleted_example ! 0) = -1" using z blank_fs_inv by (simp add: fs_inv_def)
  show "fs_find_in ''b'' 0 deleted_example = -1"
    using pz by (auto simp: fs_find_in_none dest!: l)
  have "live (fs_table deleted_example) 0" using z blank_fs_inv by (auto simp: live_def fs_inv_def)
  then have "fs_alloc deleted_example = int 1"
    using nd unfolding fs_alloc_def scan_found_iff by (auto simp: live_def FS_MAX_ENTRIES_def less_Suc_eq)
  then show "fs_alloc deleted_example = 1" by simp
  show "cstr (e_content (ent deleted_example 1)) = ''secret''"
    unfolding d w
    using c len fs_strncpy_props(2) [of 255 "e_content (fs_table file_example ! 1)" "''secret''"]
    by (simp add: ent_def)
qed

theorem fs_create_keeps_old_content_witness:
  "\<exists>s'. fs_create_file ''b'' deleted_example = (1, s')
     \<and> fs_read_file ''b'' s' = kprint [NL] (kprint ''secret'' s')"
proof -
  obtain s' where s': "fs_create_file ''b'' deleted_example = (1, s')"
    using deleted_example(2-4) by (simp add: fs_create_file_def Let_def)
  show ?thesis
    using s' fs_create_keeps_old_content [OF deleted_example(1) _ s'] deleted_example(5)
    by (simp add: kprint_cstr [of "e_content _", symmetric])
qed

theorem fs_remove_refines_witness:
  "fs_dir (snd (fs_rmdir ''d'' mk_example)) (0, ''d'') = None"
proof -
  have "\<exists>f. mk_example = upd_ent 1 f blank_fs"
    by (auto simp: mk_example_def fs_mkdir_def Let_def blank_fs_cwd blank_fs_find blank_fs_alloc)
  then obtain f where e: "mk_example = upd_ent 1 f blank_fs" by (elim exE)
  have "fs_table mk_example ! j = fs_table blank_fs ! j" if "j \<noteq> 1" for j
    unfolding e using that by simp
  then have l: "live (fs_table mk_example) j \<Longrightarrow> j < 32 \<Longrightarrow> j = 0 \<or> j = 1" for j
    using blank_fs_live [of j] by (auto simp: live_def)
  have p: "e_parent (fs_table mk_example ! 0) = -1" "e_parent (fs_table mk_example ! 1) = 0"
    using mk_example(2) fs_find_in_int [OF mk_example_dir(1)] by (simp_all add: fs_inv_def)
  have u: "fs_unique mk_example" using l p unfolding fs_unique_def by (metis zero_neq_neg_one)
  have "fs_dir_empty 1 mk_example"
    using l p by (fastforce simp: fs_dir_empty_def scan_none_iff live_def FS_MAX_ENTRIES_def)
  then have "fst (fs_rmdir ''d'' mk_example) = 0"
    using mk_example_dir by (simp add: fs_rmdir_def Let_def ent_def)
  with fs_remove_refines [of mk_example fs_rmdir "''d''"] mk_example(2) u show ?thesis
    by (simp add: mk_example_dir(2))
qed

end
