(* ===== verification/Nic.thy ===== *)
theory Nic
  imports Net_Bytes Fs_Spec
begin

text \<open>
  The network card: PCI configuration space, the RTL8139 driver of \<open>net.c\<close> (initialisation, the
  receive ring, the four transmit buffers) and the globals of \<open>net.c\<close>.

  The receive buffer is written by the card, so its contents are the parameter \<open>hw_rxbuf\<close> at the
  moment of the read. \<open>rtl_recv\<close> takes the destination buffer and returns it with the length; the
  only caller passes \<open>pkt_buf\<close>. The two bounded busy-wait loops are recursions on the counter.
\<close>

record arp_entry =
  a_ip :: u32
  a_mac :: "u8 list"
  a_valid :: bool

record netif = fsys +
  net_mac :: "u8 list"
  net_ip :: u32
  net_iobase :: u16
  tx_buf :: "u8 list list"
  tx_cur :: nat
  rx_cur :: u16
  pkt_buf :: "u8 list"
  arp_cache :: "arp_entry list"
  icmp_echo_received :: bool
  icmp_last_seq :: u16

text \<open>The globals of \<open>net.c\<close> as the C program starts with them, added to a state of the rest.\<close>

definition with_net_globals :: "fsys \<Rightarrow> netif" where
  "with_net_globals s = fsys.extend s
     (netif.fields (replicate 6 0) (MAKE_IP 10 0 2 15) 0 (replicate 4 (replicate 1536 0)) 0 0
        (replicate 1518 0) (replicate 8 \<lparr>a_ip = 0, a_mac = replicate 6 0, a_valid = False\<rparr>) False 0)"

section \<open>PCI\<close>

definition pci_inl :: "hw \<Rightarrow> u16 \<Rightarrow> 'a machine_scheme \<Rightarrow> u32 \<times> 'a machine_scheme" where
  "pci_inl h port s =
     (let (b0, s) = read_port h port s;
          (b1, s) = read_port h (port + 1) s;
          (b2, s) = read_port h (port + 2) s;
          (b3, s) = read_port h (port + 3) s
      in (ucast b0 OR push_bit 8 (ucast b1) OR push_bit 16 (ucast b2) OR push_bit 24 (ucast b3), s))"

definition pci_outl :: "u16 \<Rightarrow> u32 \<Rightarrow> 'a machine_scheme \<Rightarrow> 'a machine_scheme" where
  "pci_outl port val s =
     (let s = write_port port (ucast val) s;
          s = write_port (port + 1) (ucast (drop_bit 8 val)) s;
          s = write_port (port + 2) (ucast (drop_bit 16 val)) s
      in write_port (port + 3) (ucast (drop_bit 24 val)) s)"

definition PCI_CONFIG_ADDR :: u16 where "PCI_CONFIG_ADDR = 0xCF8"
definition PCI_CONFIG_DATA :: u16 where "PCI_CONFIG_DATA = 0xCFC"

definition pci_addr :: "u8 \<Rightarrow> u8 \<Rightarrow> u8 \<Rightarrow> u8 \<Rightarrow> u32" where
  "pci_addr bus slot func offset =
     push_bit 31 1 OR push_bit 16 (ucast bus) OR push_bit 11 (ucast slot)
     OR push_bit 8 (ucast func) OR ucast (offset AND 0xFC)"

definition pci_read32 ::
  "hw \<Rightarrow> u8 \<Rightarrow> u8 \<Rightarrow> u8 \<Rightarrow> u8 \<Rightarrow> 'a machine_scheme \<Rightarrow> u32 \<times> 'a machine_scheme" where
  "pci_read32 h bus slot func offset s =
     pci_inl h PCI_CONFIG_DATA (pci_outl PCI_CONFIG_ADDR (pci_addr bus slot func offset) s)"

definition pci_write32 ::
  "u8 \<Rightarrow> u8 \<Rightarrow> u8 \<Rightarrow> u8 \<Rightarrow> u32 \<Rightarrow> 'a machine_scheme \<Rightarrow> 'a machine_scheme" where
  "pci_write32 bus slot func offset value s =
     pci_outl PCI_CONFIG_DATA value (pci_outl PCI_CONFIG_ADDR (pci_addr bus slot func offset) s)"

text \<open>The two nested loops of \<open>pci_find_device\<close> over a list of (bus, slot) pairs.\<close>

fun pci_scan :: "hw \<Rightarrow> u16 \<Rightarrow> u16 \<Rightarrow> (u8 \<times> u8) list \<Rightarrow> 'a machine_scheme
    \<Rightarrow> (u8 \<times> u8) option \<times> 'a machine_scheme" where
  "pci_scan h vendor device [] s = (None, s)"
| "pci_scan h vendor device ((bus, slot) # rest) s =
     (let (id, s) = pci_read32 h bus slot 0 0 s
      in if ucast (id AND 0xFFFF) = vendor \<and> ucast (drop_bit 16 id AND 0xFFFF) = device
         then (Some (bus, slot), s)
         else pci_scan h vendor device rest s)"

definition pci_find_device :: "hw \<Rightarrow> u16 \<Rightarrow> u16 \<Rightarrow> 'a machine_scheme
    \<Rightarrow> (u8 \<times> u8) option \<times> 'a machine_scheme" where
  "pci_find_device h vendor device s =
     pci_scan h vendor device
       (concat (map (\<lambda>bus. map (\<lambda>slot. (of_nat bus, of_nat slot)) [0..<32]) [0..<8])) s"

section \<open>RTL8139 registers\<close>

definition RTL_IDR0 :: u8 where "RTL_IDR0 = 0x00"
definition RTL_TSD0 :: u8 where "RTL_TSD0 = 0x10"
definition RTL_TSAD0 :: u8 where "RTL_TSAD0 = 0x20"
definition RTL_RBSTART :: u8 where "RTL_RBSTART = 0x30"
definition RTL_CR :: u8 where "RTL_CR = 0x37"
definition RTL_CAPR :: u8 where "RTL_CAPR = 0x38"
definition RTL_IMR :: u8 where "RTL_IMR = 0x3C"
definition RTL_TCR :: u8 where "RTL_TCR = 0x40"
definition RTL_RCR :: u8 where "RTL_RCR = 0x44"
definition RTL_CONFIG1 :: u8 where "RTL_CONFIG1 = 0x52"
definition RTL_CR_RST :: u8 where "RTL_CR_RST = 0x10"
definition RTL_CR_RE :: u8 where "RTL_CR_RE = 0x08"
definition RTL_CR_TE :: u8 where "RTL_CR_TE = 0x04"
definition RTL_CR_RXBUFEMPTY :: u8 where "RTL_CR_RXBUFEMPTY = 0x01"
definition RTL_RCR_VALUE :: u32 where
  "RTL_RCR_VALUE = push_bit 3 1 OR push_bit 1 1 OR push_bit 0 1 OR push_bit 2 1
     OR push_bit 7 1 OR push_bit 8 7 OR push_bit 11 2 OR push_bit 13 7"
definition RTL_TSD_TOK :: u32 where "RTL_TSD_TOK = push_bit 15 1"
definition RTL_RX_BUF_SIZE :: nat where "RTL_RX_BUF_SIZE = 32 * 1024 + 16 + 1500"
definition RTL_TX_BUF_SIZE :: u16 where "RTL_TX_BUF_SIZE = 1536"
definition RTL_TX_DESC_NUM :: nat where "RTL_TX_DESC_NUM = 4"

definition rtl_inw :: "hw \<Rightarrow> u8 \<Rightarrow> 'a netif_scheme \<Rightarrow> u16 \<times> 'a netif_scheme" where
  "rtl_inw h reg s =
     (let (lo, s) = read_port h (net_iobase s + ucast reg) s;
          (hi, s) = read_port h (net_iobase s + ucast reg + 1) s
      in (push_bit 8 (ucast hi) OR ucast lo, s))"

definition rtl_outw :: "u8 \<Rightarrow> u16 \<Rightarrow> 'a netif_scheme \<Rightarrow> 'a netif_scheme" where
  "rtl_outw reg val s =
     (let s = write_port (net_iobase s + ucast reg) (ucast (val AND 0xFF)) s
      in write_port (net_iobase s + ucast reg + 1) (ucast (drop_bit 8 val AND 0xFF)) s)"

definition rtl_inl :: "hw \<Rightarrow> u8 \<Rightarrow> 'a netif_scheme \<Rightarrow> u32 \<times> 'a netif_scheme" where
  "rtl_inl h reg s =
     (let (b0, s) = read_port h (net_iobase s + ucast reg) s;
          (b1, s) = read_port h (net_iobase s + ucast reg + 1) s;
          (b2, s) = read_port h (net_iobase s + ucast reg + 2) s;
          (b3, s) = read_port h (net_iobase s + ucast reg + 3) s
      in (ucast b0 OR push_bit 8 (ucast b1) OR push_bit 16 (ucast b2) OR push_bit 24 (ucast b3), s))"

definition rtl_outl :: "u8 \<Rightarrow> u32 \<Rightarrow> 'a netif_scheme \<Rightarrow> 'a netif_scheme" where
  "rtl_outl reg val s =
     (let s = write_port (net_iobase s + ucast reg) (ucast val) s;
          s = write_port (net_iobase s + ucast reg + 1) (ucast (drop_bit 8 val)) s;
          s = write_port (net_iobase s + ucast reg + 2) (ucast (drop_bit 16 val)) s
      in write_port (net_iobase s + ucast reg + 3) (ucast (drop_bit 24 val)) s)"

definition rtl_outb :: "u8 \<Rightarrow> u8 \<Rightarrow> 'a netif_scheme \<Rightarrow> 'a netif_scheme" where
  "rtl_outb reg val s = write_port (net_iobase s + ucast reg) val s"

definition rtl_inb :: "hw \<Rightarrow> u8 \<Rightarrow> 'a netif_scheme \<Rightarrow> u8 \<times> 'a netif_scheme" where
  "rtl_inb h reg s = read_port h (net_iobase s + ucast reg) s"

section \<open>Initialisation\<close>

text \<open>\<open>while ((rtl_inb(RTL_CR) & RTL_CR_RST) && timeout--);\<close>\<close>

fun rtl_reset_loop :: "hw \<Rightarrow> nat \<Rightarrow> 'a netif_scheme \<Rightarrow> 'a netif_scheme" where
  "rtl_reset_loop h 0 s = snd (rtl_inb h RTL_CR s)"
| "rtl_reset_loop h (Suc timeout) s =
     (let (cr, s) = rtl_inb h RTL_CR s
      in if cr AND RTL_CR_RST \<noteq> 0 then rtl_reset_loop h timeout s else s)"

definition rtl_wait_reset :: "hw \<Rightarrow> 'a netif_scheme \<Rightarrow> 'a netif_scheme" where
  "rtl_wait_reset h s = rtl_reset_loop h 1000000 s"

definition read_mac_byte :: "hw \<Rightarrow> nat \<Rightarrow> 'a netif_scheme \<Rightarrow> 'a netif_scheme" where
  "read_mac_byte h i s =
     (let (b, s) = rtl_inb h (RTL_IDR0 + of_nat i) s in s\<lparr>net_mac := (net_mac s)[i := b]\<rparr>)"

definition net_init :: "hw \<Rightarrow> 'a netif_scheme \<Rightarrow> int \<times> 'a netif_scheme" where
  "net_init h s =
     (case pci_find_device h 0x10EC 0x8139 s of
        (None, s) \<Rightarrow> (-1, kprint (''[NET] RTL8139 not found on PCI bus.'' @ [NL]) s)
      | (Some (bus, slot), s) \<Rightarrow>
          let s = kprint ''[NET] RTL8139 found at PCI '' s;
              s = kprint_dec (ucast bus) s; s = kprint '':'' s; s = kprint_dec (ucast slot) s;
              s = kprint (''.0'' @ [NL]) s;
              (cmd, s) = pci_read32 h bus slot 0 0x04 s;
              s = pci_write32 bus slot 0 0x04 (cmd OR 0x05) s;
              (bar0, s) = pci_read32 h bus slot 0 0x10 s;
              s = s\<lparr>net_iobase := ucast (bar0 AND NOT 0x3)\<rparr>;
              s = kprint ''[NET] I/O base: '' s;
              s = kprint_hex (ucast (net_iobase s)) s; s = kprint [NL] s;
              s = rtl_outb RTL_CONFIG1 0x00 s;
              s = rtl_outb RTL_CR RTL_CR_RST s;
              s = rtl_wait_reset h s;
              s = fold (read_mac_byte h) [0..<6] s;
              s = kprint ''[NET] MAC: '' s; s = kprint_mac (net_mac s) s; s = kprint [NL] s;
              s = rtl_outl RTL_RBSTART (addr_rx_buf h) s;
              s = rtl_outl RTL_RCR RTL_RCR_VALUE s;
              s = rtl_outl RTL_TCR 0x03000700 s;
              s = fold (\<lambda>i. rtl_outl (RTL_TSAD0 + of_nat i * 4) (addr_tx_buf h + of_nat i * ucast RTL_TX_BUF_SIZE))
                    [0..<RTL_TX_DESC_NUM] s;
              s = rtl_outb RTL_CR (RTL_CR_RE OR RTL_CR_TE) s;
              s = rtl_outw RTL_IMR (0x0001 OR 0x0004) s;
              s = s\<lparr>rx_cur := 0\<rparr>;
              s = kprint ''[NET] RTL8139 initialized. IP: '' s;
              s = kprint_ip (net_ip s) s;
              s = kprint [NL] s
          in (0, s))"

section \<open>Receive and transmit\<close>

definition dma :: "(nat \<Rightarrow> u8) \<Rightarrow> nat \<Rightarrow> nat \<Rightarrow> u8 list" where
  "dma rx off n = map (\<lambda>i. rx (off + i)) [0..<n]"

definition rx_wrap :: "u16 \<Rightarrow> u16" where
  "rx_wrap c = (c AND NOT 3) mod of_nat RTL_RX_BUF_SIZE"

definition rx_pkt_len :: "(nat \<Rightarrow> u8) \<Rightarrow> nat \<Rightarrow> u16" where
  "rx_pkt_len rx cur = ucast (rx (cur + 2)) OR push_bit 8 (ucast (rx (cur + 3)))"

definition rx_copy :: "(nat \<Rightarrow> u8) \<Rightarrow> u16 \<Rightarrow> u16 \<Rightarrow> u8 list \<Rightarrow> u8 list" where
  "rx_copy rx cur data_len out =
     (let n = unat data_len; ptr = unat cur
      in if ptr + 4 + n \<le> RTL_RX_BUF_SIZE then memcpy_n out 0 (dma rx (ptr + 4) n) n
         else
           let first = of_nat RTL_RX_BUF_SIZE - cur - 4;
               second = data_len - first;
               out = memcpy_n out 0 (dma rx (ptr + 4) (unat first)) (unat first)
           in memcpy_n out (unat first) (dma rx 0 (unat second)) (unat second))"

definition rtl_recv :: "hw \<Rightarrow> u8 list \<Rightarrow> 'a netif_scheme \<Rightarrow> u16 \<times> u8 list \<times> 'a netif_scheme" where
  "rtl_recv h out s =
     (let (cr, s) = rtl_inb h RTL_CR s in
      if cr AND RTL_CR_RXBUFEMPTY \<noteq> 0 then (0, out, s)
      else
        let rx = hw_rxbuf h (io s);
            pkt_len = rx_pkt_len rx (unat (rx_cur s));
            data_len = pkt_len - 4
        in if data_len = 0 \<or> 1514 < data_len then
             let s = s\<lparr>rx_cur := rx_wrap (rx_cur s + 4 + 3)\<rparr>
             in (0, out, rtl_outw RTL_CAPR (rx_cur s - 16) s)
           else
             let out = rx_copy rx (rx_cur s) data_len out;
                 s = s\<lparr>rx_cur := rx_wrap (rx_cur s + pkt_len + 4 + 3)\<rparr>
             in (data_len, out, rtl_outw RTL_CAPR (rx_cur s - 16) s))"

text \<open>\<open>while (timeout--) { tsd = rtl_inl(...); if (tsd & RTL_TSD_TOK) break; }\<close>\<close>

fun tx_wait :: "hw \<Rightarrow> nat \<Rightarrow> 'a netif_scheme \<Rightarrow> 'a netif_scheme" where
  "tx_wait h 0 s = s"
| "tx_wait h (Suc timeout) s =
     (let (tsd, s) = rtl_inl h (RTL_TSD0 + of_nat (tx_cur s) * 4) s
      in if tsd AND RTL_TSD_TOK \<noteq> 0 then s else tx_wait h timeout s)"

definition net_send :: "hw \<Rightarrow> u8 list \<Rightarrow> u16 \<Rightarrow> 'a netif_scheme \<Rightarrow> int \<times> 'a netif_scheme" where
  "net_send h frame len s =
     (if net_iobase s = 0 \<or> RTL_TX_BUF_SIZE < len then (-1, s)
      else
        let s = s\<lparr>tx_buf := (tx_buf s)[tx_cur s := memcpy_n (tx_buf s ! tx_cur s) 0 frame (unat len)]\<rparr>;
            s = rtl_outl (RTL_TSD0 + of_nat (tx_cur s) * 4) (ucast len AND 0x1FFF) s;
            s = tx_wait h 100000 s
        in (0, s\<lparr>tx_cur := (tx_cur s + 1) mod RTL_TX_DESC_NUM\<rparr>))"

section \<open>The contract of a network operation\<close>

definition ARP_CACHE_SIZE :: nat where "ARP_CACHE_SIZE = 8"

text \<open>The valid entries of the ARP cache come first and have different addresses.\<close>

definition cache_ok :: "arp_entry list \<Rightarrow> bool" where
  "cache_ok c \<longleftrightarrow> length c = ARP_CACHE_SIZE
     \<and> (\<forall>i<ARP_CACHE_SIZE. \<forall>j<i. a_valid (c ! i) \<longrightarrow> a_valid (c ! j) \<and> a_ip (c ! j) \<noteq> a_ip (c ! i))"

text \<open>
  The well-formedness of the globals of \<open>net.c\<close>: the arrays have their declared lengths, the ring
  pointer is a multiple of four inside the receive buffer, the transmit index is one of the four
  descriptors; in the ARP cache the valid entries come first and have different addresses.
\<close>

definition net_inv :: "'a netif_scheme \<Rightarrow> bool" where
  "net_inv s \<longleftrightarrow> length (net_mac s) = 6
     \<and> length (tx_buf s) = RTL_TX_DESC_NUM \<and> (\<forall>b\<in>set (tx_buf s). length b = unat RTL_TX_BUF_SIZE)
     \<and> tx_cur s < RTL_TX_DESC_NUM
     \<and> unat (rx_cur s) < RTL_RX_BUF_SIZE \<and> unat (rx_cur s) mod 4 = 0
     \<and> length (pkt_buf s) = 1518
     \<and> cache_ok (arp_cache s) \<and> (\<forall>e\<in>set (arp_cache s). length (a_mac e) = 6)"

text \<open>The same with the order of the cache restricted to its first \<open>n\<close> entries: what holds while \<open>arp_cache_init\<close>
  is clearing entry \<open>n\<close>. Every operation keeps it for every \<open>n\<close>.\<close>

definition cache_upto :: "nat \<Rightarrow> arp_entry list \<Rightarrow> bool" where
  "cache_upto n c \<longleftrightarrow> length c = ARP_CACHE_SIZE
     \<and> (\<forall>i<n. \<forall>j<i. a_valid (c ! i) \<longrightarrow> a_valid (c ! j) \<and> a_ip (c ! j) \<noteq> a_ip (c ! i))"

definition net_upto :: "nat \<Rightarrow> 'a netif_scheme \<Rightarrow> bool" where
  "net_upto n s \<longleftrightarrow> length (net_mac s) = 6
     \<and> length (tx_buf s) = RTL_TX_DESC_NUM \<and> (\<forall>b\<in>set (tx_buf s). length b = unat RTL_TX_BUF_SIZE)
     \<and> tx_cur s < RTL_TX_DESC_NUM
     \<and> unat (rx_cur s) < RTL_RX_BUF_SIZE \<and> unat (rx_cur s) mod 4 = 0
     \<and> length (pkt_buf s) = 1518
     \<and> cache_upto n (arp_cache s) \<and> (\<forall>e\<in>set (arp_cache s). length (a_mac e) = 6)"

lemma net_inv_upto: "net_inv s \<longleftrightarrow> net_upto ARP_CACHE_SIZE s"
  by (simp add: net_inv_def net_upto_def cache_ok_def cache_upto_def)

lemma net_upto_0: "net_upto n s \<Longrightarrow> net_upto 0 s"
  by (simp add: net_upto_def cache_upto_def)

text \<open>The globals that traffic never touches: everything but the console, the transmit and receive
  state, the ARP cache and the ping flags.\<close>

definition others :: "'a netif_scheme \<Rightarrow> 'a netif_scheme" where
  "others s = s\<lparr>io := [], mem := (\<lambda>_. 0), current_loc := 0, tx_buf := [], tx_cur := 0, rx_cur := 0,
     pkt_buf := [], arp_cache := [], icmp_echo_received := False, icmp_last_seq := 0\<rparr>"

definition net_step :: "'a netif_scheme \<Rightarrow> 'a netif_scheme \<Rightarrow> bool" where
  "net_step s t \<longleftrightarrow> others t = others s \<and> (\<exists>i. io t = i @ io s)
     \<and> (\<forall>n\<le>ARP_CACHE_SIZE. net_upto n s \<longrightarrow> net_upto n t)"

lemma net_step_refl [simp, intro]: "net_step s s"
  by (simp add: net_step_def)

lemma net_step_trans [trans]: "net_step s t \<Longrightarrow> net_step t u \<Longrightarrow> net_step s u"
  unfolding net_step_def by (metis append.assoc)

lemma net_step_unaffected:
  assumes "net_step s t" and "\<And>u. g (others u) = g u"
  shows "g t = g s"
  using assms unfolding net_step_def by metis

lemma net_step_frame [frame]:
  assumes "net_step s t"
  shows "net_iobase t = net_iobase s" "net_mac t = net_mac s" "net_ip t = net_ip s"
    "fs_table t = fs_table s" "fs_cwd t = fs_cwd s" "swap_storage t = swap_storage s"
    "page_directory t = page_directory s" "first_page_table t = first_page_table s"
    "free_mem_start t = free_mem_start s" "system_max_mem t = system_max_mem s"
    "cr0 t = cr0 s" "cr3 t = cr3 s"
  by (rule net_step_unaffected [OF assms]; simp add: others_def)+

lemma net_step_inv [inv_intros]: "net_step s t \<Longrightarrow> net_inv s \<Longrightarrow> net_inv t"
  by (simp add: net_step_def net_inv_upto)

lemma net_step_trace: "net_step s t \<Longrightarrow> \<exists>i. io t = i @ io s"
  by (simp add: net_step_def)

lemma net_step_console: "console_op f \<Longrightarrow> net_step s (f s)" for s :: "'a netif_scheme"
proof -
  assume "console_op f"
  then obtain i m l where u: "f s = s\<lparr>io := i @ io s, mem := m, current_loc := l\<rparr>"
    using console_op.upd by blast
  show ?thesis unfolding u by (simp add: net_step_def others_def net_upto_def)
qed

lemma net_step_if: "(P \<Longrightarrow> net_step s t) \<Longrightarrow> (\<not> P \<Longrightarrow> net_step s u) \<Longrightarrow> net_step s (if P then t else u)"
  by simp

section \<open>The driver keeps the contract\<close>

lemma console_op_read2: "console_op (\<lambda>s. snd (read_port h q (snd (read_port h p s))))"
  by (rule console_op_comp [OF console_op_read_port console_op_read_port])

lemma console_op_read4: "console_op (\<lambda>s. snd (read_port h p4 (snd (read_port h p3
    (snd (read_port h p2 (snd (read_port h p1 s))))))))"
  by (rule console_op_comp [OF console_op_read2 console_op_read2])

lemma console_op_write2: "console_op (\<lambda>s. write_port q v (write_port p u s))"
  by (rule console_op_comp [OF console_op_write_port console_op_write_port])

lemma console_op_write4: "console_op (\<lambda>s. write_port p4 v4 (write_port p3 v3 (write_port p2 v2 (write_port p1 v1 s))))"
  by (rule console_op_comp [OF console_op_write2 console_op_write2])

lemma console_op_pci_inl: "console_op (\<lambda>s. snd (pci_inl h p s))"
  using console_op_read4 [of h "p + 3" "p + 2" "p + 1" p] by (simp add: pci_inl_def split_beta Let_def)

lemma console_op_pci_outl: "console_op (pci_outl p v)"
  unfolding pci_outl_def [abs_def] Let_def by (rule console_op_write4)

lemma console_op_pci_read32: "console_op (\<lambda>s. snd (pci_read32 h b sl f off s))"
  unfolding pci_read32_def by (rule console_op_comp [OF console_op_pci_inl console_op_pci_outl])

lemma console_op_pci_write32: "console_op (pci_write32 b sl f off v)"
  unfolding pci_write32_def [abs_def] by (rule console_op_comp [OF console_op_pci_outl console_op_pci_outl])

lemma console_op_pci_scan: "console_op (\<lambda>s. snd (pci_scan h v d bs s))"
proof (induction bs)
  case Nil
  then show ?case using console_op_id by simp
next
  case (Cons b bs)
  obtain bus slot where b: "b = (bus, slot)" by (cases b)
  have r: "console_op (\<lambda>s. snd (pci_read32 h bus slot 0 0 s))" by (rule console_op_pci_read32)
  show ?case
    using console_op_if [OF r console_op_comp [OF Cons.IH r],
        of "\<lambda>s. ucast (fst (pci_read32 h bus slot 0 0 s) AND 0xFFFF) = v
          \<and> ucast (drop_bit 16 (fst (pci_read32 h bus slot 0 0 s)) AND 0xFFFF) = d"]
    by (simp add: b split_beta Let_def if_distrib [of snd] cong: if_cong)
qed

lemma net_step_rtl_inb: "net_step s (snd (rtl_inb h reg s))"
  unfolding rtl_inb_def by (rule net_step_console [OF console_op_read_port])

lemma net_step_rtl_inw: "net_step s (snd (rtl_inw h reg s))"
proof -
  have "net_step s (snd (read_port h (net_iobase s + ucast reg + 1) (snd (read_port h (net_iobase s + ucast reg) s))))"
    by (rule net_step_console [OF console_op_read2])
  then show ?thesis by (simp add: rtl_inw_def split_beta Let_def read_port_def)
qed

lemma iobase_ports [simp]:
  "net_iobase (write_port p v s) = net_iobase s" "net_iobase (snd (read_port h p s)) = net_iobase s"
  by (simp_all add: write_port_def read_port_def Let_def)

lemma rtl_inl_alt: "snd (rtl_inl h reg s) = snd (read_port h (net_iobase s + ucast reg + 3)
    (snd (read_port h (net_iobase s + ucast reg + 2) (snd (read_port h (net_iobase s + ucast reg + 1)
    (snd (read_port h (net_iobase s + ucast reg) s)))))))"
  by (simp add: rtl_inl_def split_beta Let_def)

lemma net_step_rtl_inl: "net_step s (snd (rtl_inl h reg s))"
  unfolding rtl_inl_alt by (rule net_step_console [OF console_op_read4])

lemma net_step_rtl_outb: "net_step s (rtl_outb reg v s)"
  unfolding rtl_outb_def by (rule net_step_console [OF console_op_write_port])

lemma net_step_rtl_outw: "net_step s (rtl_outw reg v s)"
  unfolding rtl_outw_def Let_def iobase_ports by (rule net_step_console [OF console_op_write2])

lemma net_step_rtl_outl: "net_step s (rtl_outl reg v s)"
  unfolding rtl_outl_def Let_def iobase_ports by (rule net_step_console [OF console_op_write4])

lemma rx_wrap_range: "unat (rx_wrap c) < RTL_RX_BUF_SIZE \<and> unat (rx_wrap c) mod 4 = 0"
proof -
  have size: "unat (of_nat RTL_RX_BUF_SIZE :: u16) = 34284" by (simp add: RTL_RX_BUF_SIZE_def)
  have three: "(3 :: u16) = mask 2" by (simp add: mask_eq_exp_minus_1)
  have b3: "bit (3 :: u16) n \<longleftrightarrow> n < 2" for n unfolding three by (simp only: bit_mask_iff) auto
  have "bit (c AND NOT 3) n = bit (push_bit 2 (drop_bit 2 c)) n" if "n < 16" for n
  proof -
    have "2 \<le> n \<Longrightarrow> Suc (Suc (n - 2)) = n" by arith
    then show ?thesis
      unfolding bit_and_iff bit_not_iff b3 using that by (auto simp: bit_simps not_less)
  qed
  then have "c AND NOT 3 = push_bit 2 (drop_bit 2 c)" by (intro bit_word_eqI) simp
  then have "unat (c AND NOT 3) = unat (push_bit 2 (drop_bit 2 c))" by simp
  also have "\<dots> = (unat c div 4) * 4"
    using unat_less_size [of c]
    by (simp add: push_bit_eq_mult drop_bit_eq_div unat_word_ariths unat_div)
  finally have c: "unat (c AND NOT 3) = (unat c div 4) * 4" .
  have w: "unat (rx_wrap c) = (unat c div 4) * 4 mod 34284"
    unfolding rx_wrap_def unat_mod size c ..
  have "(unat c div 4) * 4 mod 34284 mod 4 = 0" by (simp add: mod_mod_cancel)
  then show ?thesis unfolding w by (simp add: RTL_RX_BUF_SIZE_def)
qed

lemma net_upto_rx_cur: "net_upto n s \<Longrightarrow> net_upto n (s\<lparr>rx_cur := rx_wrap c\<rparr>)"
  using rx_wrap_range [of c] by (simp add: net_upto_def)

lemma net_step_rx_cur: "net_step s (s\<lparr>rx_cur := rx_wrap c\<rparr>)"
  by (simp add: net_step_def others_def net_upto_rx_cur)

lemma net_step_rtl_recv: "net_step s (snd (snd (rtl_recv h out s)))"
proof -
  let ?t = "snd (rtl_inb h RTL_CR s)"
  have r: "net_step s (rtl_outw RTL_CAPR v (?t\<lparr>rx_cur := rx_wrap c\<rparr>))" for v c
    by (rule net_step_trans [OF net_step_rtl_inb net_step_trans [OF net_step_rx_cur net_step_rtl_outw]])
  show ?thesis
    by (simp add: rtl_recv_def split_beta Let_def r net_step_rtl_inb)
qed

lemma length_rx_copy [simp]: "length (rx_copy rx c n out) = length out"
  by (simp add: rx_copy_def Let_def)

lemma length_rtl_recv [simp]: "length (fst (snd (rtl_recv h out s))) = length out"
  by (simp add: rtl_recv_def split_beta Let_def)

lemma net_step_tx_wait: "net_step s (tx_wait h n s)"
proof (induction n arbitrary: s)
  case (Suc n)
  let ?t = "snd (rtl_inl h (RTL_TSD0 + of_nat (tx_cur s) * 4) s)"
  show ?case
    using net_step_rtl_inl [of s h "RTL_TSD0 + of_nat (tx_cur s) * 4"] net_step_trans [OF _ Suc [of ?t]]
    by (simp add: split_beta Let_def)
qed simp

lemma net_upto_tx_buf: "net_upto k s \<Longrightarrow>
    net_upto k (s\<lparr>tx_buf := (tx_buf s)[tx_cur s := memcpy_n (tx_buf s ! tx_cur s) 0 frame n]\<rparr>)"
proof -
  assume inv: "net_upto k s"
  then have "tx_buf s ! tx_cur s \<in> set (tx_buf s)" by (simp add: net_upto_def)
  then have "\<forall>b\<in>set ((tx_buf s)[tx_cur s := memcpy_n (tx_buf s ! tx_cur s) 0 frame n]).
      length b = unat RTL_TX_BUF_SIZE"
    using inv by (auto simp: net_upto_def dest!: subsetD [OF set_update_subset_insert])
  then show ?thesis using inv by (simp add: net_upto_def)
qed

lemma net_step_tx_buf:
  "net_step s (s\<lparr>tx_buf := (tx_buf s)[tx_cur s := memcpy_n (tx_buf s ! tx_cur s) 0 frame n]\<rparr>)"
  unfolding net_step_def by (simp add: others_def net_upto_tx_buf)

lemma net_step_tx_cur: "net_step s (s\<lparr>tx_cur := c mod RTL_TX_DESC_NUM\<rparr>)"
  unfolding net_step_def by (simp add: others_def net_upto_def RTL_TX_DESC_NUM_def)

lemma net_step_net_send: "net_step s (snd (net_send h frame len s))"
  unfolding net_send_def Let_def snd_conv if_distrib [of snd]
  by (intro net_step_if net_step_refl
      net_step_trans [OF net_step_tx_buf net_step_trans [OF net_step_rtl_outl
        net_step_trans [OF net_step_tx_wait net_step_tx_cur]]])

section \<open>What the driver guarantees\<close>

text \<open>The four bytes of the length word and the bytes of the frame, read around the ring.\<close>

definition ring_at :: "hw \<Rightarrow> io_event list \<Rightarrow> nat \<Rightarrow> u8" where
  "ring_at h tr i = hw_rxbuf h tr (i mod RTL_RX_BUF_SIZE)"

definition recv_len :: "hw \<Rightarrow> 'a netif_scheme \<Rightarrow> u16" where
  "recv_len h s = fst (rtl_recv h (pkt_buf s) s)"

lemma length_dma [simp]: "length (dma rx off n) = n"
  by (simp add: dma_def)

lemma dma_nth [simp]: "i < n \<Longrightarrow> dma rx off n ! i = rx (off + i)"
  by (simp add: dma_def)

lemma dma_ring: "off + n \<le> RTL_RX_BUF_SIZE \<Longrightarrow> dma (hw_rxbuf h tr) off n = map (\<lambda>i. ring_at h tr (off + i)) [0..<n]"
  by (simp add: dma_def ring_at_def)

lemma dma_ring_wrap:
  assumes "off \<le> RTL_RX_BUF_SIZE" and "f = RTL_RX_BUF_SIZE - off" and "n = f + k" and "k \<le> RTL_RX_BUF_SIZE"
  shows "dma (hw_rxbuf h tr) off f @ dma (hw_rxbuf h tr) 0 k = map (\<lambda>i. ring_at h tr (off + i)) [0..<n]"
  using assms
  by (intro nth_equalityI) (auto simp: nth_append dma_def ring_at_def mod_if RTL_RX_BUF_SIZE_def add.commute)

lemma rx_copy_ring:
  assumes cur: "unat c < RTL_RX_BUF_SIZE" "unat c mod 4 = 0" and n: "unat n \<le> 1514" "unat n \<le> length out"
  shows "take (unat n) (rx_copy (hw_rxbuf h tr) c n out)
    = map (\<lambda>i. ring_at h tr (unat c + 4 + i)) [0..<unat n]"
proof (cases "unat c + 4 + unat n \<le> RTL_RX_BUF_SIZE")
  case True
  then show ?thesis using n by (simp add: rx_copy_def Let_def memcpy_n_eq dma_ring)
next
  case wrap: False
  have le: "unat c + 4 \<le> 34284" using cur unfolding RTL_RX_BUF_SIZE_def by presburger
  define f where "f = RTL_RX_BUF_SIZE - (unat c + 4)"
  define k where "k = unat n - f"
  have fk: "unat n = f + k" "f < 65536" "k \<le> RTL_RX_BUF_SIZE" "f + k \<le> length out"
    using wrap n by (simp_all add: f_def k_def RTL_RX_BUF_SIZE_def)
  have "of_nat RTL_RX_BUF_SIZE - c - 4 = (of_nat f :: u16)"
    using le by (simp add: of_nat_diff f_def RTL_RX_BUF_SIZE_def)
  then have first: "unat (of_nat RTL_RX_BUF_SIZE - c - 4) = f" using fk(2) by (simp add: unat_of_nat_small)
  have second: "unat (n - (of_nat RTL_RX_BUF_SIZE - c - 4)) = k"
    using fk(1) by (subst unat_sub) (simp_all add: word_le_nat_alt first k_def)
  have "take (unat n) (rx_copy (hw_rxbuf h tr) c n out)
      = dma (hw_rxbuf h tr) (unat c + 4) f @ dma (hw_rxbuf h tr) 0 k"
    using wrap fk by (simp add: rx_copy_def Let_def first second memcpy_n_eq)
  also have "\<dots> = map (\<lambda>i. ring_at h tr (unat c + 4 + i)) [0..<unat n]"
    using le fk by (intro dma_ring_wrap) (simp_all add: f_def RTL_RX_BUF_SIZE_def)
  finally show ?thesis .
qed

text \<open>C15: receiving a frame. With the ring pointer inside the ring, \<open>rtl_recv\<close> reads the two header
  words and the frame inside the receive buffer, returns a length of at most 1514 bytes (so the
  1518-byte scratch buffer is never overrun), and the bytes it returns are the frame as it lies in
  the ring, around the wrap; the new ring pointer is again a multiple of four inside the ring.\<close>

theorem rtl_recv_frame:
  assumes inv: "net_inv s" and r: "rtl_recv h (pkt_buf s) s = (len, out, t)"
  shows "unat len \<le> 1514 \<and> length out = 1518 \<and> net_inv t
     \<and> unat (rx_cur s) + 3 < RTL_RX_BUF_SIZE
     \<and> (0 < len \<longrightarrow> take (unat len) out
          = map (\<lambda>i. ring_at h (io (snd (rtl_inb h RTL_CR s))) (unat (rx_cur s) + 4 + i)) [0..<unat len])"
proof -
  let ?a = "snd (rtl_inb h RTL_CR s)" let ?n = "rx_pkt_len (hw_rxbuf h (io ?a)) (unat (rx_cur s)) - 4"
  have cur: "unat (rx_cur s) < RTL_RX_BUF_SIZE" "unat (rx_cur s) mod 4 = 0" "length (pkt_buf s) = 1518"
    using inv by (simp_all add: net_inv_def)
  then have le: "unat (rx_cur s) + 3 < RTL_RX_BUF_SIZE" unfolding RTL_RX_BUF_SIZE_def by presburger
  have rx: "rx_cur ?a = rx_cur s" by (simp add: rtl_inb_def read_port_def Let_def)
  have t: "net_inv t" "length out = 1518"
    using net_step_inv [OF net_step_rtl_recv inv, of h "pkt_buf s"] length_rtl_recv [of h "pkt_buf s" s]
      r cur(3) by simp_all
  have "len = 0 \<or> len = ?n \<and> \<not> 1514 < ?n
      \<and> out = rx_copy (hw_rxbuf h (io ?a)) (rx_cur s) ?n (pkt_buf s)"
    using r by (auto simp: rtl_recv_def split_beta Let_def rx split: if_splits)
  then show ?thesis
    using t le cur rx_copy_ring [of "rx_cur s" ?n "pkt_buf s" h "io ?a"]
    by (auto simp: word_less_nat_alt not_less)
qed

text \<open>Sending.\<close>

lemma rtl_inl_frame [simp]:
  "tx_buf (snd (rtl_inl h reg s)) = tx_buf s" "tx_cur (snd (rtl_inl h reg s)) = tx_cur s"
  by (simp_all add: rtl_inl_alt read_port_def Let_def)

lemma rtl_outl_frame [simp]:
  "tx_buf (rtl_outl reg v s) = tx_buf s" "tx_cur (rtl_outl reg v s) = tx_cur s"
  by (simp_all add: rtl_outl_def write_port_def Let_def)

lemma tx_wait_frame [simp]:
  "tx_buf (tx_wait h n s) = tx_buf s \<and> tx_cur (tx_wait h n s) = tx_cur s"
proof (induction n arbitrary: s)
  case (Suc n)
  then show ?case by (simp add: split_beta Let_def)
qed simp

lemma io_rtl_outl: "io (rtl_outl reg v s) = [Out (net_iobase s + ucast reg + 3) (ucast (drop_bit 24 v)),
    Out (net_iobase s + ucast reg + 2) (ucast (drop_bit 16 v)),
    Out (net_iobase s + ucast reg + 1) (ucast (drop_bit 8 v)), Out (net_iobase s + ucast reg) (ucast v)] @ io s"
  by (simp add: rtl_outl_def write_port_def Let_def)

lemma net_send_ok:
  fixes frame :: "u8 list" and h :: hw and len :: u16 and s :: "'a netif_scheme"
  assumes "net_iobase s \<noteq> 0" and "len \<le> RTL_TX_BUF_SIZE"
  defines "a \<equiv> s\<lparr>tx_buf := (tx_buf s)[tx_cur s := memcpy_n (tx_buf s ! tx_cur s) 0 frame (unat len)]\<rparr>"
  defines "b \<equiv> tx_wait h 100000 (rtl_outl (RTL_TSD0 + of_nat (tx_cur s) * 4) (ucast len AND 0x1FFF) a)"
  shows "net_send h frame len s = (0, b\<lparr>tx_cur := (tx_cur s + 1) mod RTL_TX_DESC_NUM\<rparr>)"
    and "tx_buf b = tx_buf a" and "\<exists>i. io b = i @ io (rtl_outl (RTL_TSD0 + of_nat (tx_cur s) * 4) (ucast len AND 0x1FFF) a)"
proof -
  have "tx_cur a = tx_cur s" by (simp add: a_def)
  then show "net_send h frame len s = (0, b\<lparr>tx_cur := (tx_cur s + 1) mod RTL_TX_DESC_NUM\<rparr>)"
    using assms(1,2) unfolding net_send_def Let_def a_def [symmetric] b_def
    by (simp add: not_less [symmetric])
  show "tx_buf b = tx_buf a" by (simp add: b_def)
  show "\<exists>i. io b = i @ io (rtl_outl (RTL_TSD0 + of_nat (tx_cur s) * 4) (ucast len AND 0x1FFF) a)"
    unfolding b_def by (rule net_step_trace [OF net_step_tx_wait])
qed

lemma net_send_frame_fact:
  assumes inv: "net_inv s" and len: "unat len \<le> length frame"
  shows "net_send h frame len s = (-1, s) \<and> (net_iobase s = 0 \<or> 1536 < len)
    \<or> (\<exists>t i. net_send h frame len s = (0, t) \<and> net_inv t \<and> net_iobase s \<noteq> 0 \<and> len \<le> 1536
        \<and> take (unat len) (tx_buf t ! tx_cur s) = take (unat len) frame
        \<and> (\<forall>j. j \<noteq> tx_cur s \<longrightarrow> tx_buf t ! j = tx_buf s ! j)
        \<and> tx_cur t = (tx_cur s + 1) mod 4
        \<and> io t = i @ io (rtl_outl (0x10 + of_nat (tx_cur s) * 4) (ucast len AND 0x1FFF) s))"
proof (cases "net_iobase s = 0 \<or> RTL_TX_BUF_SIZE < len")
  case True
  then show ?thesis by (simp add: net_send_def RTL_TX_BUF_SIZE_def)
next
  case False
  then have ok: "net_iobase s \<noteq> 0" "len \<le> RTL_TX_BUF_SIZE" by auto
  note S = net_send_ok [OF ok, where frame = frame and h = h]
  define a where "a = s\<lparr>tx_buf := (tx_buf s)[tx_cur s := memcpy_n (tx_buf s ! tx_cur s) 0 frame (unat len)]\<rparr>"
  define b where "b = tx_wait h 100000 (rtl_outl (RTL_TSD0 + of_nat (tx_cur s) * 4) (ucast len AND 0x1FFF) a)"
  note S = S [folded a_def, folded b_def]
  let ?t = "b\<lparr>tx_cur := (tx_cur s + 1) mod RTL_TX_DESC_NUM\<rparr>"
  have t: "net_inv ?t" using net_step_inv [OF net_step_net_send inv, of h frame len] unfolding S(1) by simp
  have cur: "tx_cur s < length (tx_buf s)" "length (tx_buf s ! tx_cur s) = 1536"
    using inv by (simp_all add: net_inv_def RTL_TX_BUF_SIZE_def)
  have n: "unat len \<le> 1536" using ok(2) by (simp add: word_le_nat_alt RTL_TX_BUF_SIZE_def)
  have tb: "tx_buf ?t = (tx_buf s)[tx_cur s := memcpy_n (tx_buf s ! tx_cur s) 0 frame (unat len)]"
    using S(2) by (simp add: a_def)
  have "take (unat len) (tx_buf ?t ! tx_cur s) = take (unat len) frame"
    unfolding tb using cur n len by (simp add: memcpy_n_eq)
  moreover have "\<forall>j. j \<noteq> tx_cur s \<longrightarrow> tx_buf ?t ! j = tx_buf s ! j" unfolding tb by simp
  moreover obtain i where "io ?t = i @ io (rtl_outl (0x10 + of_nat (tx_cur s) * 4) (ucast len AND 0x1FFF) s)"
    using S(3) by (auto simp: io_rtl_outl a_def RTL_TSD0_def)
  ultimately show ?thesis using S(1) t ok
    by (intro disjI2 exI [of _ ?t] exI [of _ i]) (simp add: RTL_TX_BUF_SIZE_def RTL_TX_DESC_NUM_def)
qed

text \<open>C24: sending a frame. Without a card, or for a frame of more than 1536 bytes, \<open>net_send\<close>
  fails and changes nothing. Otherwise it puts the frame into the current of the four transmit
  buffers, leaves the other three alone, writes the length to that buffer's status register (which
  starts the transmission), moves on to the next buffer round robin and returns 0, however
  long the card takes.\<close>

theorem net_send_frame:
  assumes inv: "net_inv s" and len: "unat len \<le> length frame"
  shows "net_send h frame len s = (-1, s) \<and> (net_iobase s = 0 \<or> 1536 < len)
    \<or> (\<exists>t i. net_send h frame len s = (0, t) \<and> net_inv t \<and> net_iobase s \<noteq> 0 \<and> len \<le> 1536
        \<and> take (unat len) (tx_buf t ! tx_cur s) = take (unat len) frame
        \<and> (\<forall>j. j \<noteq> tx_cur s \<longrightarrow> tx_buf t ! j = tx_buf s ! j)
        \<and> tx_cur t = (tx_cur s + 1) mod 4
        \<and> io t = i @ io (rtl_outl (0x10 + of_nat (tx_cur s) * 4) (ucast len AND 0x1FFF) s))"
  using assms by (rule net_send_frame_fact)

section \<open>Finding the card\<close>

text \<open>A doubleword as four byte accesses to consecutive ports, and what such accesses to the data
  ports of the PCI configuration mechanism read after the trace \<open>tr\<close>.\<close>

definition out32 :: "u16 \<Rightarrow> u32 \<Rightarrow> (u16 \<times> u8) list" where
  "out32 p v = [(p, ucast v), (p + 1, ucast (drop_bit 8 v)), (p + 2, ucast (drop_bit 16 v)), (p + 3, ucast (drop_bit 24 v))]"

definition config_data :: "hw \<Rightarrow> io_event list \<Rightarrow> u32" where
  "config_data h tr = fst (pci_inl h PCI_CONFIG_DATA \<lparr>io = tr, mem = (\<lambda>_. 0), current_loc = 0\<rparr>)"

definition config_ports :: "u16 set" where "config_ports = {0xCF8, 0xCF9, 0xCFA, 0xCFB}"
definition data_ports :: "u16 set" where "data_ports = {0xCFC, 0xCFD, 0xCFE, 0xCFF}"

text \<open>
  The PCI configuration mechanism as the PCI specification documents it: the address register is
  written by doubleword accesses only, and a byte access to its ports is passed on as an ordinary
  port access. \<open>write_port\<close> is a byte access, so the register keeps what the firmware
  left in it, and as long as nothing is written to the data ports they read the same doubleword \<open>v\<close>, the one
  that this address selects (all ones when the mechanism is disabled).
\<close>

definition dword_latch :: "hw \<Rightarrow> u32 \<Rightarrow> bool" where
  "dword_latch h v \<longleftrightarrow> (\<forall>tr. fst ` set (outs tr) \<inter> data_ports = {} \<longrightarrow>
     hw_in h tr 0xCFC = ucast v \<and> hw_in h tr 0xCFD = ucast (drop_bit 8 v)
     \<and> hw_in h tr 0xCFE = ucast (drop_bit 16 v) \<and> hw_in h tr 0xCFF = ucast (drop_bit 24 v))"

lemma ucast_mask16: "(ucast (v AND 0xFFFF :: u32) :: u16) = ucast v"
proof -
  have m: "(0xFFFF :: u32) = mask 16" by (simp add: mask_eq_exp_minus_1)
  show ?thesis unfolding m
    by (rule bit_word_eqI) (simp only: bit_ucast_iff bit_and_iff bit_mask_iff, auto)
qed

lemma halves_eq: "(ucast v :: u16) = a \<and> (ucast (drop_bit 16 v) :: u16) = b \<longleftrightarrow> v = push_bit 16 (ucast b) OR ucast a" for v :: u32
proof
  assume "(ucast v :: u16) = a \<and> (ucast (drop_bit 16 v) :: u16) = b"
  then show "v = push_bit 16 (ucast b) OR ucast a"
    by (intro bit_word_eqI) (auto simp: bit_simps)
next
  have "\<not> bit a (16 + n)" for n using bit_imp_le_length [of a "16 + n"] by auto
  moreover assume "v = push_bit 16 (ucast b) OR ucast a"
  ultimately show "(ucast v :: u16) = a \<and> (ucast (drop_bit 16 v) :: u16) = b"
    by (auto intro!: bit_word_eqI simp: bit_simps)
qed

lemma fst_pci_inl: "fst (pci_inl h PCI_CONFIG_DATA s) = config_data h (io s)"
  by (simp add: config_data_def pci_inl_def read_port_def split_beta Let_def)

lemma io_pci_inl: "io (snd (pci_inl h p s)) =
    [In (p + 3) (hw_in h (In (p + 2) (hw_in h (In (p + 1) (hw_in h (In p (hw_in h (io s) p) # io s) (p + 1)) # In p (hw_in h (io s) p) # io s) (p + 2))
       # In (p + 1) (hw_in h (In p (hw_in h (io s) p) # io s) (p + 1)) # In p (hw_in h (io s) p) # io s) (p + 3)),
     In (p + 2) (hw_in h (In (p + 1) (hw_in h (In p (hw_in h (io s) p) # io s) (p + 1)) # In p (hw_in h (io s) p) # io s) (p + 2)),
     In (p + 1) (hw_in h (In p (hw_in h (io s) p) # io s) (p + 1)), In p (hw_in h (io s) p)] @ io s"
  by (simp add: pci_inl_def read_port_def split_beta Let_def)

lemma outs_pci_inl [simp]: "outs (io (snd (pci_inl h p s))) = outs (io s)"
  by (simp add: io_pci_inl)

lemma outs_pci_outl [simp]: "outs (io (pci_outl p v s)) = outs (io s) @ out32 p v"
  by (simp add: pci_outl_def out32_def Let_def)

lemma out32_ports: "fst ` set (out32 PCI_CONFIG_ADDR v) = config_ports"
  by (simp add: out32_def PCI_CONFIG_ADDR_def config_ports_def)

lemma pci_read32_alt:
  "fst (pci_read32 h bus slot f off s) = config_data h (io (pci_outl PCI_CONFIG_ADDR (pci_addr bus slot f off) s))"
  "outs (io (snd (pci_read32 h bus slot f off s))) = outs (io s) @ out32 PCI_CONFIG_ADDR (pci_addr bus slot f off)"
  by (simp_all add: pci_read32_def fst_pci_inl)

lemma config_data_latched:
  assumes "dword_latch h v" and "fst ` set (outs tr) \<inter> data_ports = {}"
  shows "config_data h tr = v"
proof -
  have "hw_in h tr' 0xCFC = ucast v \<and> hw_in h tr' 0xCFD = ucast (drop_bit 8 v)
     \<and> hw_in h tr' 0xCFE = ucast (drop_bit 16 v) \<and> hw_in h tr' 0xCFF = ucast (drop_bit 24 v)" if "outs tr' = outs tr" for tr'
    using assms that by (simp add: dword_latch_def)
  then show ?thesis
    by (simp add: config_data_def pci_inl_def read_port_def PCI_CONFIG_DATA_def Let_def combine32)
qed

text \<open>The search writes the address ports only. When it succeeds, the last thing it has done is to
  ask for the identification of that slot, and the answer was the wanted one.\<close>

lemma pci_scan_outs:
  "\<exists>x. outs (io (snd (pci_scan h v d bs s))) = outs (io s) @ x \<and> fst ` set x \<subseteq> config_ports"
proof (induction bs arbitrary: s)
  case (Cons b bs)
  obtain bus slot where b: "b = (bus, slot)" by (cases b)
  let ?u = "snd (pci_read32 h bus slot 0 0 s)"
  obtain x where "outs (io (snd (pci_scan h v d bs ?u))) = outs (io ?u) @ x" "fst ` set x \<subseteq> config_ports"
    using Cons [of ?u] by blast
  then show ?case
    by (auto simp: b split_beta Let_def pci_read32_alt(2) out32_ports image_Un)
qed simp

lemma pci_scan_found:
  assumes "pci_scan h v d bs s = (Some (bus, slot), t)"
  shows "\<exists>u x. outs (io u) = outs (io s) @ x @ out32 PCI_CONFIG_ADDR (pci_addr bus slot 0 0) \<and> fst ` set x \<subseteq> config_ports
    \<and> config_data h (io u) = push_bit 16 (ucast d) OR ucast v \<and> t = snd (pci_inl h PCI_CONFIG_DATA u)"
  using assms
proof (induction bs arbitrary: s)
  case (Cons b bs)
  obtain bu sl where b: "b = (bu, sl)" by (cases b)
  let ?w = "pci_outl PCI_CONFIG_ADDR (pci_addr bu sl 0 0) s"
  let ?u = "snd (pci_read32 h bu sl 0 0 s)"
  let ?hit = "ucast (config_data h (io ?w) AND 0xFFFF) = v \<and> ucast (drop_bit 16 (config_data h (io ?w)) AND 0xFFFF) = d"
  show ?case
  proof (cases ?hit)
    case True
    then have "bu = bus" "sl = slot" "snd (pci_inl h PCI_CONFIG_DATA ?w) = t"
      using Cons.prems by (auto simp: b split_beta Let_def pci_read32_alt(1)) (simp_all add: pci_read32_def)
    moreover have "config_data h (io ?w) = push_bit 16 (ucast d) OR ucast v"
      using True halves_eq [of "config_data h (io ?w)" v d] by (simp add: ucast_mask16)
    ultimately show ?thesis by (intro exI [of _ ?w] exI [of _ "[]"]) auto
  next
    case False
    then have "pci_scan h v d bs ?u = (Some (bus, slot), t)"
      using Cons.prems by (auto simp: b split_beta Let_def pci_read32_alt(1) split: if_splits)
    from Cons.IH [OF this] obtain u x where "outs (io u) = outs (io ?u) @ x @ out32 PCI_CONFIG_ADDR (pci_addr bus slot 0 0)"
        "fst ` set x \<subseteq> config_ports" "config_data h (io u) = push_bit 16 (ucast d) OR ucast v"
        "t = snd (pci_inl h PCI_CONFIG_DATA u)"
      by blast
    then show ?thesis
      by (intro exI [of _ u] exI [of _ "out32 PCI_CONFIG_ADDR (pci_addr bu sl 0 0) @ x"])
         (simp add: pci_read32_alt(2) image_Un out32_ports)
  qed
qed simp

text \<open>On a board with that mechanism the answer to the search does not depend on the slots: it is the
  first slot of the first bus when the doubleword that happens to be selected is the wanted one, and
  nothing otherwise.\<close>

lemma pci_scan_latched:
  assumes "dword_latch h w" and "fst ` set (outs (io s)) \<inter> data_ports = {}"
  shows "fst (pci_scan h v d bs s) = (if w = push_bit 16 (ucast d) OR ucast v \<and> bs \<noteq> [] then Some (hd bs) else None)"
  using assms(2)
proof (induction bs arbitrary: s)
  case (Cons b bs)
  obtain bus slot where b: "b = (bus, slot)" by (cases b)
  let ?w = "pci_outl PCI_CONFIG_ADDR (pci_addr bus slot 0 0) s"
  have disj: "config_ports \<inter> data_ports = {}" by (simp add: config_ports_def data_ports_def)
  have "fst ` set (outs (io ?w)) \<inter> data_ports = {}"
    using Cons.prems disj by (simp add: image_Un out32_ports Int_Un_distrib2)
  then have d: "fst (pci_read32 h bus slot 0 0 s) = w"
    unfolding pci_read32_alt(1) by (rule config_data_latched [OF assms(1)])
  have "fst ` set (outs (io (snd (pci_read32 h bus slot 0 0 s)))) \<inter> data_ports = {}"
    using Cons.prems disj by (simp add: pci_read32_alt(2) image_Un out32_ports Int_Un_distrib2)
  note IH = Cons.IH [OF this]
  show ?case
    using halves_eq [of w v d] by (auto simp: b split_beta Let_def d ucast_mask16 IH)
qed simp

section \<open>Initialising the card\<close>

lemma net_inv_masked: "net_inv (s\<lparr>io := i, mem := m, current_loc := l\<rparr>) = net_inv s"
  by (simp add: net_inv_def)

lemma console_nic_frame:
  assumes "console_op f"
  shows "net_inv (f s) = net_inv s" "net_iobase (f s) = net_iobase s" "rx_cur (f s) = rx_cur s"
    "net_mac (f s) = net_mac s" "net_ip (f s) = net_ip s"
  by (rule console_op.unaffected [OF assms]; simp add: net_inv_masked)+

lemmas print_nic_frame [simp] = console_nic_frame [OF console_op_kprint]
  console_nic_frame [OF console_op_kprint_hex] console_nic_frame [OF console_op_kprint_dec]
  console_nic_frame [OF console_op_kprint_ip] console_nic_frame [OF console_op_kprint_mac]
  console_nic_frame [OF console_op_pci_read32] console_nic_frame [OF console_op_pci_write32]

lemma console_op_rtl_outl: "console_op (\<lambda>s :: 'a netif_scheme. write_port (b + 3) v3 (write_port (b + 2) v2
    (write_port (b + 1) v1 (write_port b v0 s))))"
  by (rule console_op_write4)

lemma rtl_nic_frame [simp]:
  "net_inv (rtl_outl reg v s) = net_inv s" "net_iobase (rtl_outl reg v s) = net_iobase s"
  "rx_cur (rtl_outl reg v s) = rx_cur s" "net_ip (rtl_outl reg v s) = net_ip s"
  "net_mac (rtl_outl reg v s) = net_mac s"
  "net_inv (rtl_outw reg w s) = net_inv s" "net_iobase (rtl_outw reg w s) = net_iobase s"
  "rx_cur (rtl_outw reg w s) = rx_cur s" "net_ip (rtl_outw reg w s) = net_ip s"
  "net_mac (rtl_outw reg w s) = net_mac s"
  "net_inv (rtl_outb reg b s) = net_inv s" "net_iobase (rtl_outb reg b s) = net_iobase s"
  "rx_cur (rtl_outb reg b s) = rx_cur s" "net_ip (rtl_outb reg b s) = net_ip s"
  "net_mac (rtl_outb reg b s) = net_mac s"
  by (simp_all add: rtl_outl_def rtl_outw_def rtl_outb_def write_port_def Let_def net_inv_def)

lemma rtl_inb_nic_frame [simp]:
  "net_inv (snd (rtl_inb h reg s)) = net_inv s" "net_iobase (snd (rtl_inb h reg s)) = net_iobase s"
  "rx_cur (snd (rtl_inb h reg s)) = rx_cur s" "net_mac (snd (rtl_inb h reg s)) = net_mac s"
  "net_ip (snd (rtl_inb h reg s)) = net_ip s"
  by (simp_all add: rtl_inb_def read_port_def Let_def net_inv_def)

lemma rtl_wait_reset_frame [simp]:
  "net_inv (rtl_wait_reset h s) = net_inv s" "net_iobase (rtl_wait_reset h s) = net_iobase s"
proof -
  have "net_inv (rtl_reset_loop h n s) = net_inv s \<and> net_iobase (rtl_reset_loop h n s) = net_iobase s" for n
    by (induction n arbitrary: s) (simp_all add: split_beta Let_def)
  then show "net_inv (rtl_wait_reset h s) = net_inv s" "net_iobase (rtl_wait_reset h s) = net_iobase s"
    by (simp_all only: rtl_wait_reset_def)
qed

lemma read_mac_fold [simp]:
  "net_inv s \<Longrightarrow> net_inv (fold (read_mac_byte h) is s)"
  "net_iobase (fold (read_mac_byte h) is s) = net_iobase s"
proof -
  have "net_inv (read_mac_byte h i s) = net_inv s" for i and s :: "'a netif_scheme"
    by (simp add: read_mac_byte_def split_beta Let_def) (simp add: net_inv_def rtl_inb_def read_port_def Let_def)
  then show "net_inv s \<Longrightarrow> net_inv (fold (read_mac_byte h) is s)"
    by (induction "is" arbitrary: s) simp_all
  show "net_iobase (fold (read_mac_byte h) is s) = net_iobase s"
    by (induction "is" arbitrary: s) (simp_all add: read_mac_byte_def split_beta Let_def)
qed

lemma tsad_fold [simp]:
  "net_inv (fold (\<lambda>i. rtl_outl (f i) (g i)) is s) = net_inv s"
  "net_iobase (fold (\<lambda>i. rtl_outl (f i) (g i)) is s) = net_iobase s"
  by (induction "is" arbitrary: s) simp_all

lemma net_inv_set [simp]: "net_inv (s\<lparr>net_iobase := b\<rparr>) = net_inv s" "net_inv s \<Longrightarrow> net_inv (s\<lparr>rx_cur := 0\<rparr>)"
  by (simp_all add: net_inv_def)

text \<open>The accesses to ports other than the serial line, to which \<open>kprint\<close> echoes its text.\<close>

definition no_serial :: "(u16 \<times> u8) list \<Rightarrow> (u16 \<times> u8) list" where
  "no_serial = filter (\<lambda>(p, _). p \<noteq> 0x3F8)"

definition dev_outs :: "io_event list \<Rightarrow> (u16 \<times> u8) list" where
  "dev_outs tr = no_serial (outs tr)"

lemma no_serial_append: "no_serial (a @ b) = no_serial a @ no_serial b"
  by (simp add: no_serial_def)

lemma dev_outs_append [simp]: "dev_outs (a @ b) = dev_outs b @ dev_outs a"
  by (simp add: dev_outs_def no_serial_append)

lemma outs_kprint: "\<exists>x. outs (io (kprint m s)) = outs (io s) @ x \<and> fst ` set x \<subseteq> {0x3F8}"
proof (induction m arbitrary: s)
  case (Cons c m)
  have "outs (io (kputc c s)) = outs (io s) @ [(0x3F8, of_char c)]"
    by (simp add: kputc_def erase_cell_def poke_def Let_def)
  then show ?case
    using Cons [of "kputc c s"] by (cases "c = NUL") (auto simp: kprint.simps intro: exI [of _ "[]"])
qed (simp add: kprint.simps)

lemma dev_outs_kprint [simp]: "dev_outs (io (kprint m s)) = dev_outs (io s)"
proof -
  obtain x where "outs (io (kprint m s)) = outs (io s) @ x" "fst ` set x \<subseteq> {0x3F8}"
    using outs_kprint by blast
  then show ?thesis by (auto simp: dev_outs_def no_serial_def filter_empty_conv)
qed

lemma dev_outs_print_dec [simp]: "dev_outs (io (kprint_dec v s)) = dev_outs (io s)"
proof -
  have "dev_outs (io (fold (\<lambda>c s. kprint [c, NUL] s) cs s)) = dev_outs (io s)" for cs
    by (induction cs arbitrary: s) (simp_all del: kprint.simps)
  then show ?thesis by (simp add: kprint_dec_def del: kprint.simps)
qed

lemma dev_outs_print [simp]:
  "dev_outs (io (kprint_hex w s)) = dev_outs (io s)" "dev_outs (io (kprint_ip v s)) = dev_outs (io s)"
  "dev_outs (io (kprint_mac m s)) = dev_outs (io s)"
proof -
  show "dev_outs (io (kprint_hex w s)) = dev_outs (io s)" by (simp add: kprint_hex_def)
  show "dev_outs (io (kprint_ip v s)) = dev_outs (io s)" by (simp add: kprint_ip_def Let_def del: kprint.simps)
  have "dev_outs (io (kprint_mac_from i m s)) = dev_outs (io s)" for i
    by (induction m arbitrary: i s) (simp_all add: Let_def del: kprint.simps)
  then show "dev_outs (io (kprint_mac m s)) = dev_outs (io s)" by (simp add: kprint_mac_def)
qed

lemma outs_rtl [simp]:
  "outs (io (rtl_outl reg v s)) = outs (io s) @ out32 (net_iobase s + ucast reg) v"
  "outs (io (rtl_outw reg w s)) = outs (io s) @ [(net_iobase s + ucast reg, ucast (w AND 0xFF)),
     (net_iobase s + ucast reg + 1, ucast (drop_bit 8 w AND 0xFF))]"
  "outs (io (rtl_outb reg b s)) = outs (io s) @ [(net_iobase s + ucast reg, b)]"
  "outs (io (snd (rtl_inb h reg s))) = outs (io s)"
  by (simp_all add: rtl_outl_def rtl_outw_def rtl_outb_def rtl_inb_def out32_def Let_def)

lemma outs_rtl_loops [simp]:
  "outs (io (rtl_wait_reset h s)) = outs (io s)" "outs (io (fold (read_mac_byte h) is s)) = outs (io s)"
proof -
  have "outs (io (rtl_reset_loop h n s)) = outs (io s)" for n
    by (induction n arbitrary: s) (simp_all add: split_beta Let_def)
  then show "outs (io (rtl_wait_reset h s)) = outs (io s)" by (simp only: rtl_wait_reset_def)
  show "outs (io (fold (read_mac_byte h) is s)) = outs (io s)"
    by (induction "is" arbitrary: s) (simp_all add: read_mac_byte_def split_beta Let_def)
qed

text \<open>What bringing up the card leaves alone.\<close>

definition init_others :: "'a netif_scheme \<Rightarrow> 'a netif_scheme" where
  "init_others s = (others s)\<lparr>net_iobase := 0, net_mac := []\<rparr>"

lemma init_others_console: "console_op f \<Longrightarrow> init_others (f s) = init_others s" for s :: "'a netif_scheme"
  by (rule console_op.unaffected) (simp_all add: init_others_def others_def)

lemma init_others_updates [simp]:
  "init_others (s\<lparr>net_iobase := b\<rparr>) = init_others s" "init_others (s\<lparr>rx_cur := r\<rparr>) = init_others s"
  "init_others (s\<lparr>net_mac := m\<rparr>) = init_others s"
  "init_others (write_port p d s) = init_others s" "init_others (snd (read_port h p s)) = init_others s"
  "init_others (rtl_outl reg v s) = init_others s" "init_others (rtl_outw reg w s) = init_others s"
  "init_others (rtl_outb reg d s) = init_others s" "init_others (snd (rtl_inb h reg s)) = init_others s"
  by (simp_all add: init_others_def others_def write_port_def read_port_def rtl_outl_def rtl_outw_def rtl_outb_def
      rtl_inb_def Let_def)

lemmas init_others_prints [simp] = init_others_console [OF console_op_kprint]
  init_others_console [OF console_op_kprint_hex] init_others_console [OF console_op_kprint_dec]
  init_others_console [OF console_op_kprint_ip] init_others_console [OF console_op_kprint_mac]
  init_others_console [OF console_op_pci_read32] init_others_console [OF console_op_pci_write32]

lemma init_others_loops [simp]:
  "init_others (rtl_wait_reset h s) = init_others s"
  "init_others (fold (read_mac_byte h) is s) = init_others s"
  "init_others (fold (\<lambda>i. rtl_outl (f i) (g i)) is s) = init_others s"
proof -
  have "init_others (rtl_reset_loop h n s) = init_others s" for n
    by (induction n arbitrary: s) (simp_all add: split_beta Let_def)
  then show "init_others (rtl_wait_reset h s) = init_others s" by (simp only: rtl_wait_reset_def)
  show "init_others (fold (read_mac_byte h) is s) = init_others s"
    by (induction "is" arbitrary: s) (simp_all add: read_mac_byte_def split_beta Let_def)
  show "init_others (fold (\<lambda>i. rtl_outl (f i) (g i)) is s) = init_others s"
    by (induction "is" arbitrary: s) simp_all
qed

lemma net_init_frame:
  shows "init_others (snd (net_init h s)) = init_others s" "net_inv s \<Longrightarrow> net_inv (snd (net_init h s))"
proof -
  obtain r t where rt: "pci_find_device h 0x10EC 0x8139 s = (r, t)" by (cases "pci_find_device h 0x10EC 0x8139 s")
  have c: "console_op (\<lambda>s :: 'a netif_scheme. snd (pci_find_device h 0x10EC 0x8139 s))"
    unfolding pci_find_device_def by (rule console_op_pci_scan)
  have t: "init_others t = init_others s" "net_inv t = net_inv s"
    using init_others_console [OF c, of s] console_nic_frame(1) [OF c, of s] by (simp_all add: rt)
  show "init_others (snd (net_init h s)) = init_others s"
    by (cases r) (auto simp: net_init_def rt t split_beta Let_def)
  show "net_inv s \<Longrightarrow> net_inv (snd (net_init h s))"
    by (cases r) (auto simp: net_init_def rt t split_beta Let_def)
qed

lemma outs_tsad [simp]: "outs (io (fold (\<lambda>i. rtl_outl (f i) (g i)) is s))
    = outs (io s) @ concat (map (\<lambda>i. out32 (net_iobase s + ucast (f i)) (g i)) is)"
  by (induction "is" arbitrary: s) simp_all

lemma dev_outs_dev [simp]:
  "dev_outs (io (rtl_outl reg v s)) = dev_outs (io s) @ no_serial (out32 (net_iobase s + ucast reg) v)"
  "dev_outs (io (rtl_outw reg w s)) = dev_outs (io s) @ no_serial [(net_iobase s + ucast reg, ucast (w AND 0xFF)),
     (net_iobase s + ucast reg + 1, ucast (drop_bit 8 w AND 0xFF))]"
  "dev_outs (io (rtl_outb reg b s)) = dev_outs (io s) @ no_serial [(net_iobase s + ucast reg, b)]"
  "dev_outs (io (rtl_wait_reset h s)) = dev_outs (io s)" "dev_outs (io (fold (read_mac_byte h) is s)) = dev_outs (io s)"
  "dev_outs (io (fold (\<lambda>i. rtl_outl (f i) (g i)) is s))
    = dev_outs (io s) @ no_serial (concat (map (\<lambda>i. out32 (net_iobase s + ucast (f i)) (g i)) is))"
  by (simp_all add: dev_outs_def no_serial_append)

lemma dev_outs_pci [simp]:
  "dev_outs (io (pci_outl p v u)) = dev_outs (io u) @ no_serial (out32 p v)"
  "dev_outs (io (snd (pci_inl h p u))) = dev_outs (io u)"
  by (simp_all add: dev_outs_def no_serial_append)

text \<open>What the card at base \<open>b\<close> is told: power on, reset, the address of the receive buffer, the receive and
  the transmit configuration, the addresses of the four transmit buffers, then receiver and
  transmitter on and the two interrupts unmasked.\<close>

definition card_program :: "hw \<Rightarrow> u16 \<Rightarrow> (u16 \<times> u8) list" where
  "card_program h b =
     [(b + 0x52, 0), (b + 0x37, 0x10)] @ out32 (b + 0x30) (addr_rx_buf h)
     @ out32 (b + 0x44) RTL_RCR_VALUE @ out32 (b + 0x40) 0x03000700
     @ out32 (b + 0x20) (addr_tx_buf h) @ out32 (b + 0x24) (addr_tx_buf h + 1536)
     @ out32 (b + 0x28) (addr_tx_buf h + 3072) @ out32 (b + 0x2C) (addr_tx_buf h + 4608)
     @ [(b + 0x37, 0x0C), (b + 0x3C, 5), (b + 0x3D, 0)]"

text \<open>The trace of a state continues the trace \<open>x\<close>.\<close>

definition continues :: "io_event list \<Rightarrow> 'a machine_scheme \<Rightarrow> bool" where
  "continues x s \<longleftrightarrow> (\<exists>i. io s = i @ x)"

lemma continues_console: "console_op f \<Longrightarrow> continues x s \<Longrightarrow> continues x (f s)"
  unfolding continues_def using console_op.trace [of f s] by (metis append.assoc)

lemma continues_net: "net_step s t \<Longrightarrow> continues x s \<Longrightarrow> continues x t" for s :: "'a netif_scheme"
  unfolding continues_def using net_step_trace [of s t] by (metis append.assoc)

lemma continues_loops:
  "continues x s \<Longrightarrow> continues x (rtl_wait_reset h s)"
  "continues x s \<Longrightarrow> continues x (fold (read_mac_byte h) is s)"
  "continues x s \<Longrightarrow> continues x (fold (\<lambda>i. rtl_outl (f i) (g i)) is s)"
proof -
  have "continues x s \<Longrightarrow> continues x (rtl_reset_loop h n s)" for n
    by (induction n arbitrary: s) (simp_all add: split_beta Let_def continues_net [OF net_step_rtl_inb])
  then show "continues x s \<Longrightarrow> continues x (rtl_wait_reset h s)" by (simp only: rtl_wait_reset_def)
  have "continues x s \<Longrightarrow> continues x (read_mac_byte h i s)" for i and s :: "'a netif_scheme"
    using continues_net [OF net_step_rtl_inb, of x s] by (simp add: read_mac_byte_def split_beta Let_def continues_def)
  then show "continues x s \<Longrightarrow> continues x (fold (read_mac_byte h) is s)"
    by (induction "is" arbitrary: s) simp_all
  show "continues x s \<Longrightarrow> continues x (fold (\<lambda>i. rtl_outl (f i) (g i)) is s)"
    by (induction "is" arbitrary: s) (simp_all add: continues_net [OF net_step_rtl_outl])
qed

lemmas continues_intros = continues_console [OF console_op_kprint] continues_console [OF console_op_kprint_hex]
  continues_console [OF console_op_kprint_dec] continues_console [OF console_op_kprint_ip]
  continues_console [OF console_op_kprint_mac] continues_console [OF console_op_pci_inl]
  continues_console [OF console_op_pci_outl] continues_console [OF console_op_pci_write32]
  continues_net [OF net_step_rtl_outl] continues_net [OF net_step_rtl_outw] continues_net [OF net_step_rtl_outb]
  continues_loops

lemma continues_upd [simp]:
  "continues x (s\<lparr>net_iobase := b\<rparr>) = continues x s" "continues x (s\<lparr>rx_cur := r\<rparr>) = continues x s"
  by (simp_all add: continues_def)

lemma net_init_found:
  assumes "pci_find_device h 0x10EC 0x8139 s = (Some (bus, slot), u)"
  shows "\<exists>w1 w2 tr1. fst (net_init h s) = 0 \<and> rx_cur (snd (net_init h s)) = 0
    \<and> io (snd (net_init h s)) = w2 @ w1 @ tr1 \<and> continues (io u) \<lparr>io = tr1, mem = (\<lambda>_. 0), current_loc = 0\<rparr>
    \<and> dev_outs tr1 = dev_outs (io u) @ out32 0xCF8 (pci_addr bus slot 0 4)
    \<and> dev_outs w1 = out32 0xCF8 (pci_addr bus slot 0 4) @ out32 0xCFC (config_data h tr1 OR 5)
         @ out32 0xCF8 (pci_addr bus slot 0 0x10)
    \<and> net_iobase (snd (net_init h s)) = ucast (config_data h (w1 @ tr1) AND NOT 3)
    \<and> dev_outs w2 = no_serial (card_program h (net_iobase (snd (net_init h s))))"
proof -
  define a where "a = pci_outl PCI_CONFIG_ADDR (pci_addr bus slot 0 4) (kprint (''.0'' @ [NL]) (kprint_dec (ucast slot)
      (kprint '':'' (kprint_dec (ucast bus) (kprint ''[NET] RTL8139 found at PCI '' u)))))"
  define b where "b = pci_outl PCI_CONFIG_ADDR (pci_addr bus slot 0 0x10)
      (pci_write32 bus slot 0 4 (config_data h (io a) OR 5) (snd (pci_inl h PCI_CONFIG_DATA a)))"
  define base :: u16 where "base = ucast (config_data h (io b) AND NOT 3)"
  define c where "c = fold (read_mac_byte h) [0..<6] (rtl_wait_reset h (rtl_outb RTL_CR RTL_CR_RST (rtl_outb RTL_CONFIG1 0
      (kprint [NL] (kprint_hex (ucast base) (kprint ''[NET] I/O base: ''
        ((snd (pci_inl h PCI_CONFIG_DATA b))\<lparr>net_iobase := base\<rparr>)))))))"
  define d where "d = fold (\<lambda>i. rtl_outl (RTL_TSAD0 + of_nat i * 4) (addr_tx_buf h + of_nat i * ucast RTL_TX_BUF_SIZE))
      [0..<RTL_TX_DESC_NUM] (rtl_outl RTL_TCR 0x03000700 (rtl_outl RTL_RCR RTL_RCR_VALUE (rtl_outl RTL_RBSTART (addr_rx_buf h)
        (kprint [NL] (kprint_mac (net_mac (kprint ''[NET] MAC: '' c)) (kprint ''[NET] MAC: '' c))))))"
  define e where "e = (rtl_outw RTL_IMR (0x0001 OR 0x0004) (rtl_outb RTL_CR (RTL_CR_RE OR RTL_CR_TE) d))\<lparr>rx_cur := 0\<rparr>"
  define t where "t = kprint [NL] (kprint_ip (net_ip (kprint ''[NET] RTL8139 initialized. IP: '' e))
      (kprint ''[NET] RTL8139 initialized. IP: '' e))"
  have init: "net_init h s = (0, t)"
    unfolding net_init_def assms
    by (simp add: Let_def split_beta pci_read32_def fst_pci_inl a_def b_def base_def c_def d_def e_def t_def)
  have refl: "continues (io x) x" for x :: "'a netif_scheme" by (simp add: continues_def)
  have ua: "continues (io u) a" unfolding a_def by (intro continues_intros refl)
  have ab: "continues (io a) b" unfolding b_def by (intro continues_intros refl)
  have "continues (io b) c" unfolding c_def by (intro continues_intros continues_upd(1) [THEN iffD2] refl)
  then have "continues (io b) d" unfolding d_def by (intro continues_intros)
  then have bt: "continues (io b) t" unfolding t_def e_def by (intro continues_intros continues_upd(2) [THEN iffD2])
  obtain w1 w2 where w: "io b = w1 @ io a" "io t = w2 @ w1 @ io a"
    using ab bt by (auto simp: continues_def)
  have pci: "no_serial (out32 PCI_CONFIG_ADDR v) = out32 0xCF8 v" "no_serial (out32 PCI_CONFIG_DATA v) = out32 0xCFC v" for v
    by (simp_all add: no_serial_def out32_def PCI_CONFIG_ADDR_def PCI_CONFIG_DATA_def)
  have a: "dev_outs (io a) = dev_outs (io u) @ out32 0xCF8 (pci_addr bus slot 0 4)"
    by (simp add: a_def pci del: kprint.simps)
  have "dev_outs (io b) = dev_outs (io a) @ out32 0xCF8 (pci_addr bus slot 0 4)
      @ out32 0xCFC (config_data h (io a) OR 5) @ out32 0xCF8 (pci_addr bus slot 0 0x10)"
    by (simp add: b_def pci pci_write32_def)
  then have w1: "dev_outs w1 = out32 0xCF8 (pci_addr bus slot 0 4)
      @ out32 0xCFC (config_data h (io a) OR 5) @ out32 0xCF8 (pci_addr bus slot 0 0x10)" by (simp add: w(1))
  have base: "net_iobase c = base" "net_iobase d = base" "net_iobase t = base"
    by (simp_all add: t_def e_def d_def c_def del: kprint.simps)
  have c: "dev_outs (io c) = dev_outs (io b) @ no_serial [(base + 0x52, 0), (base + 0x37, 0x10)]"
    by (simp add: c_def RTL_CONFIG1_def RTL_CR_def RTL_CR_RST_def del: kprint.simps flip: no_serial_append)
  have four: "[0..<RTL_TX_DESC_NUM] = [0, 1, 2, 3]" by (simp add: RTL_TX_DESC_NUM_def upt_rec)
  have d: "dev_outs (io d) = dev_outs (io c) @ no_serial (out32 (base + 0x30) (addr_rx_buf h)
     @ out32 (base + 0x44) RTL_RCR_VALUE @ out32 (base + 0x40) 0x03000700
     @ out32 (base + 0x20) (addr_tx_buf h) @ out32 (base + 0x24) (addr_tx_buf h + 1536)
     @ out32 (base + 0x28) (addr_tx_buf h + 3072) @ out32 (base + 0x2C) (addr_tx_buf h + 4608))"
    by (simp add: d_def base(1) RTL_RBSTART_def RTL_RCR_def RTL_TCR_def four RTL_TSAD0_def RTL_TX_BUF_SIZE_def
        del: kprint.simps flip: no_serial_append)
  have "dev_outs (io t) = dev_outs (io d) @ no_serial [(base + 0x37, 0x0C), (base + 0x3C, 5), (base + 0x3D, 0)]"
    by (simp add: t_def e_def base(2) RTL_CR_def RTL_CR_RE_def RTL_CR_TE_def RTL_IMR_def add.assoc
        del: kprint.simps flip: no_serial_append)
  then have "dev_outs (io t) = dev_outs (io b) @ no_serial (card_program h base)"
    by (simp only: d c card_program_def no_serial_append append_assoc)
  then have w2: "dev_outs w2 = no_serial (card_program h base)" using w by simp
  have "rx_cur t = 0" by (simp add: t_def e_def del: kprint.simps)
  then show ?thesis
    using init w w1 w2 a ua base(3)
    by (intro exI [of _ w1] exI [of _ w2] exI [of _ "io a"]) (simp add: continues_def base_def w(1) [symmetric])
qed

lemma net_init_absent:
  assumes "pci_find_device h 0x10EC 0x8139 s = (None, u)"
  shows "fst (net_init h s) = -1 \<and> (\<exists>i m l. snd (net_init h s) = s\<lparr>io := i @ io s, mem := m, current_loc := l\<rparr>
      \<and> fst ` set (dev_outs i) \<subseteq> config_ports)"
proof -
  let ?m = "''[NET] RTL8139 not found on PCI bus.'' @ [NL]"
  have t: "net_init h s = (-1, kprint ?m u)" by (simp add: net_init_def assms)
  have "console_op (\<lambda>s :: 'a netif_scheme. kprint ?m (snd (pci_find_device h 0x10EC 0x8139 s)))"
    unfolding pci_find_device_def by (rule console_op_comp [OF console_op_kprint console_op_pci_scan])
  from console_op.upd [OF this, of s] obtain i m l where
    u: "kprint ?m u = s\<lparr>io := i @ io s, mem := m, current_loc := l\<rparr>"
    unfolding assms snd_conv by blast
  obtain x where x: "outs (io u) = outs (io s) @ x" "fst ` set x \<subseteq> config_ports"
    using pci_scan_outs [of h "0x10EC" "0x8139" _ s] assms unfolding pci_find_device_def by (metis snd_conv)
  have "dev_outs (io (kprint ?m u)) = dev_outs (io s) @ no_serial x"
    unfolding dev_outs_kprint by (simp add: dev_outs_def x(1) no_serial_append)
  then have "dev_outs i = no_serial x" unfolding u by simp
  then have "fst ` set (dev_outs i) \<subseteq> config_ports" using x(2) by (auto simp: no_serial_def)
  then show ?thesis unfolding t using u by auto
qed

text \<open>C35: bringing up the card. \<open>net_init\<close> keeps the network globals well-formed. It fails only
  by returning -1, and then has written nothing but the PCI address ports and left every global outside the
  console alone, so that \<open>net_send\<close> keeps failing. When it succeeds, the slot it chose answered the
  identification request with 0x813910EC; I/O space and bus mastering are switched on in that slot's
  command register as it was read; the I/O base is BAR0 as it was read, without the indicator bits;
  then exactly the start-up program is written to the card's registers at that base, and the ring is empty. The
  address register is written bytewise: on hardware that accepts doublewords only, as the
  PCI specification demands, the search fails whatever cards there are, unless the firmware
  happens to have left an identification register of this very card selected.\<close>

theorem net_init_result:
  assumes "net_inv s" and "net_init h s = (r, t)"
  shows "net_inv t
    \<and> (r = -1 \<longrightarrow> (\<exists>i m l. t = s\<lparr>io := i @ io s, mem := m, current_loc := l\<rparr> \<and> fst ` set (dev_outs i) \<subseteq> config_ports))
    \<and> (r \<noteq> -1 \<longrightarrow> r = 0 \<and> rx_cur t = 0 \<and> (\<exists>bus slot x tr0 w0 w1 w2.
         io t = w2 @ w1 @ w0 @ tr0
       \<and> dev_outs tr0 = dev_outs (io s) @ x @ out32 0xCF8 (pci_addr bus slot 0 0) \<and> fst ` set x \<subseteq> config_ports
       \<and> config_data h tr0 = 0x813910EC
       \<and> dev_outs w0 = out32 0xCF8 (pci_addr bus slot 0 4)
       \<and> dev_outs w1 = out32 0xCF8 (pci_addr bus slot 0 4) @ out32 0xCFC (config_data h (w0 @ tr0) OR 5)
           @ out32 0xCF8 (pci_addr bus slot 0 0x10)
       \<and> net_iobase t = ucast (config_data h (w1 @ w0 @ tr0) AND NOT 3)
       \<and> dev_outs w2 = no_serial (card_program h (net_iobase t))))
    \<and> (dword_latch h v \<and> fst ` set (outs (io s)) \<inter> data_ports = {} \<and> v \<noteq> 0x813910EC \<longrightarrow> r = -1)"
proof -
  obtain q u where f: "pci_find_device h 0x10EC 0x8139 s = (q, u)" by (cases "pci_find_device h 0x10EC 0x8139 s")
  have inv: "net_inv t" using net_init_frame(2) [OF assms(1), of h] by (simp add: assms(2))
  have id: "push_bit 16 (ucast (0x8139 :: u16)) OR ucast (0x10EC :: u16) = (0x813910EC :: u32)" by simp
  have latch: "dword_latch h v \<and> fst ` set (outs (io s)) \<inter> data_ports = {} \<and> v \<noteq> 0x813910EC \<Longrightarrow> q = None"
    using pci_scan_latched [of h v s "0x10EC" "0x8139"] f unfolding pci_find_device_def id by (metis fst_conv)
  show ?thesis
  proof (cases q)
    case None
    then show ?thesis using net_init_absent [of h s u] f inv by (simp add: assms(2))
  next
    case (Some bs)
    obtain bus slot where bs: "bs = (bus, slot)" by (cases bs)
    note F = f [unfolded Some bs]
    obtain u0 x where u0: "outs (io u0) = outs (io s) @ x @ out32 PCI_CONFIG_ADDR (pci_addr bus slot 0 0)"
        "fst ` set x \<subseteq> config_ports" "config_data h (io u0) = 0x813910EC" "u = snd (pci_inl h PCI_CONFIG_DATA u0)"
      using pci_scan_found [OF F [unfolded pci_find_device_def]] unfolding id by blast
    obtain w1 w2 tr1 where t: "r = 0" "rx_cur t = 0" "io t = w2 @ w1 @ tr1"
        "continues (io u) \<lparr>io = tr1, mem = (\<lambda>_. 0), current_loc = 0\<rparr>"
        "dev_outs tr1 = dev_outs (io u) @ out32 0xCF8 (pci_addr bus slot 0 4)"
        "dev_outs w1 = out32 0xCF8 (pci_addr bus slot 0 4) @ out32 0xCFC (config_data h tr1 OR 5)
           @ out32 0xCF8 (pci_addr bus slot 0 0x10)"
        "net_iobase t = ucast (config_data h (w1 @ tr1) AND NOT 3)" "dev_outs w2 = no_serial (card_program h (net_iobase t))"
      using net_init_found [OF F] by (auto simp: assms(2))
    have "continues (io u0) u" unfolding u0(4) by (intro continues_intros) (simp add: continues_def)
    then obtain w0 where w0: "tr1 = w0 @ io u0" using t(4) by (auto simp: continues_def)
    have u: "dev_outs (io u) = dev_outs (io u0)" by (simp add: u0(4))
    have "no_serial (out32 PCI_CONFIG_ADDR w) = out32 0xCF8 w" for w
      by (simp add: no_serial_def out32_def PCI_CONFIG_ADDR_def)
    then have tr0: "dev_outs (io u0) = dev_outs (io s) @ no_serial x @ out32 0xCF8 (pci_addr bus slot 0 0)"
      by (simp add: dev_outs_def u0(1) no_serial_append)
    have x: "fst ` set (no_serial x) \<subseteq> config_ports" using u0(2) by (auto simp: no_serial_def)
    have d0: "dev_outs w0 = out32 0xCF8 (pci_addr bus slot 0 4)" using t(5) unfolding w0 u by simp
    show ?thesis
    proof (intro conjI impI exI)
      show "net_inv t" by (rule inv)
      show "io t = w2 @ w1 @ w0 @ io u0" using t(3) by (simp only: w0)
      show "dev_outs (io u0) = dev_outs (io s) @ no_serial x @ out32 0xCF8 (pci_addr bus slot 0 0)" by (rule tr0)
      show "fst ` set (no_serial x) \<subseteq> config_ports" by (rule x)
      show "dev_outs w0 = out32 0xCF8 (pci_addr bus slot 0 4)" by (rule d0)
      show "dev_outs w1 = out32 0xCF8 (pci_addr bus slot 0 4) @ out32 0xCFC (config_data h (w0 @ io u0) OR 5)
          @ out32 0xCF8 (pci_addr bus slot 0 0x10)"
        using t(6) by (simp only: w0)
      show "net_iobase t = ucast (config_data h (w1 @ w0 @ io u0) AND NOT 3)" using t(7) by (simp only: w0)
    qed (use t(1,2,8) u0(3) latch Some in simp_all)
  qed
qed

definition blank_net :: netif where
  "blank_net = with_net_globals blank_fs"

lemma blank_net [simp]: "net_inv blank_net" "net_iobase blank_net = 0" "net_ip blank_net = MAKE_IP 10 0 2 15"
    "tx_cur blank_net = 0" "rx_cur blank_net = 0"
  by (simp_all add: blank_net_def with_net_globals_def fsys.defs netif.defs net_inv_def cache_ok_def
      ARP_CACHE_SIZE_def RTL_TX_DESC_NUM_def RTL_TX_BUF_SIZE_def RTL_RX_BUF_SIZE_def)

text \<open>An idle bus reads all ones, so no card is found; a board whose address register is stuck at the
  card's identification has it at the base that is read there.\<close>

definition stuck_board :: hw where
  "stuck_board = idle_board\<lparr>hw_in := (\<lambda>_ p. if p = 0xCFC then 0xEC else if p = 0xCFD then 0x10 else if p = 0xCFE then 0x39
     else if p = 0xCFF then 0x81 else 0)\<rparr>"

theorem net_init_result_witness:
  "fst (net_init idle_board blank_net) = -1 \<and> net_inv (snd (net_init stuck_board blank_net))"
proof -
  have "dword_latch idle_board 0xFFFFFFFF" by (simp add: dword_latch_def idle_board_def)
  moreover have "outs (io blank_net) = []" by (simp add: blank_net_def with_net_globals_def fsys.defs netif.defs blank_fs_def fs_init_def upd_ent_def Let_def)
  ultimately show ?thesis
    using net_init_result [of blank_net idle_board "fst (net_init idle_board blank_net)" "snd (net_init idle_board blank_net)" "0xFFFFFFFF"]
      net_init_result [of blank_net stuck_board "fst (net_init stuck_board blank_net)" "snd (net_init stuck_board blank_net)"]
    by simp
qed

theorem net_send_frame_witness:
  "net_send idle_board [] 0 blank_net = (-1, blank_net) \<and> (net_iobase blank_net = 0 \<or> 1536 < (0 :: u16))"
  using net_send_frame [of blank_net 0 "[]" idle_board] by simp

theorem rtl_recv_frame_witness:
  "unat (rx_cur blank_net) + 3 < RTL_RX_BUF_SIZE \<and> length (fst (snd (rtl_recv idle_board (pkt_buf blank_net) blank_net))) = 1518"
proof -
  obtain len out t where r: "rtl_recv idle_board (pkt_buf blank_net) blank_net = (len, out, t)"
    by (cases "rtl_recv idle_board (pkt_buf blank_net) blank_net")
  show ?thesis using rtl_recv_frame [OF _ r] by (simp add: r)
qed

end
