(* ===== verification/Arp.thy ===== *)
theory Arp
  imports Nic
begin

text \<open>
  Ethernet framing and ARP: the frame header, the cache of eight entries, requests, replies and
  the printer of the cache.
\<close>

definition ETH_HDR :: u16 where "ETH_HDR = 14"
definition ARP_PKT :: u16 where "ARP_PKT = 28"
definition ETH_TYPE_IP :: u16 where "ETH_TYPE_IP = 0x0800"
definition ETH_TYPE_ARP :: u16 where "ETH_TYPE_ARP = 0x0806"
definition ARP_HW_ETHER :: u16 where "ARP_HW_ETHER = 1"
definition ARP_OP_REQ :: u16 where "ARP_OP_REQ = 1"
definition ARP_OP_REPLY :: u16 where "ARP_OP_REPLY = 2"

definition bcast :: "u8 list" where "bcast = replicate 6 0xFF"
definition zero_mac :: "u8 list" where "zero_mac = replicate 6 0"

text \<open>\<open>eth_build\<close> writes the header at the start of \<open>buf\<close>; it always returns 14.\<close>

definition eth_build :: "u8 list \<Rightarrow> u8 list \<Rightarrow> u16 \<Rightarrow> 'a netif_scheme \<Rightarrow> u8 list" where
  "eth_build buf dst ethertype s =
     store16 12 (htons ethertype) (memcpy_n (memcpy_n buf 0 dst 6) 6 (net_mac s) 6)"

section \<open>The cache\<close>

definition arp_cache_init :: "'a netif_scheme \<Rightarrow> 'a netif_scheme" where
  "arp_cache_init s = s\<lparr>arp_cache := map (\<lambda>e. e\<lparr>a_valid := False\<rparr>) (arp_cache s)\<rparr>"

definition cache_put :: "u32 \<Rightarrow> u8 list \<Rightarrow> arp_entry list \<Rightarrow> arp_entry list" where
  "cache_put ip mac c =
     (let i = scan (\<lambda>i. \<not> a_valid (c ! i) \<or> a_ip (c ! i) = ip) ARP_CACHE_SIZE
      in if i \<noteq> -1 then c[nat i := \<lparr>a_ip = ip, a_mac = mac, a_valid = True\<rparr>]
         else c[0 := \<lparr>a_ip = ip, a_mac = mac, a_valid = True\<rparr>])"

definition arp_cache_insert :: "u32 \<Rightarrow> u8 list \<Rightarrow> 'a netif_scheme \<Rightarrow> 'a netif_scheme" where
  "arp_cache_insert ip mac s = s\<lparr>arp_cache := cache_put ip mac (arp_cache s)\<rparr>"

definition cache_get :: "u32 \<Rightarrow> arp_entry list \<Rightarrow> u8 list option" where
  "cache_get ip c =
     (let i = scan (\<lambda>i. a_valid (c ! i) \<and> a_ip (c ! i) = ip) ARP_CACHE_SIZE
      in if i \<noteq> -1 then Some (a_mac (c ! nat i)) else None)"

definition arp_lookup :: "u32 \<Rightarrow> 'a netif_scheme \<Rightarrow> u8 list option" where
  "arp_lookup ip s = cache_get ip (arp_cache s)"

section \<open>Packets\<close>

text \<open>The assignments to the fields of an \<open>arp_pkt_t\<close> at offset \<open>off\<close> of a frame.\<close>

definition arp_fill :: "u16 \<Rightarrow> u8 list \<Rightarrow> u32 \<Rightarrow> u8 list \<Rightarrow> u32 \<Rightarrow> nat \<Rightarrow> u8 list \<Rightarrow> u8 list" where
  "arp_fill oper sha spa tha tpa off f =
     (let f = store16 off (htons ARP_HW_ETHER) f;
          f = store16 (off + 2) (htons ETH_TYPE_IP) f;
          f = f[off + 4 := 6];
          f = f[off + 5 := 4];
          f = store16 (off + 6) (htons oper) f;
          f = memcpy_n f (off + 8) sha 6;
          f = store32 (off + 14) spa f;
          f = memcpy_n f (off + 18) tha 6
      in store32 (off + 24) tpa f)"

text \<open>The local array of 42 bytes is uninitialised; every byte of it is written.\<close>

definition arp_request :: "u32 \<Rightarrow> 'a netif_scheme \<Rightarrow> u8 list" where
  "arp_request target_ip s =
     (let frame = eth_build (replicate 42 0) bcast ETH_TYPE_ARP s
      in arp_fill ARP_OP_REQ (net_mac s) (htonl (net_ip s)) zero_mac (htonl target_ip) 14 frame)"

definition arp_send_request :: "hw \<Rightarrow> u32 \<Rightarrow> 'a netif_scheme \<Rightarrow> 'a netif_scheme" where
  "arp_send_request h target_ip s = snd (net_send h (arp_request target_ip s) 42 s)"

definition arp_reply :: "u8 list \<Rightarrow> 'a netif_scheme \<Rightarrow> u8 list" where
  "arp_reply pkt s =
     (let frame = eth_build (replicate 42 0) (bytes pkt 8 6) ETH_TYPE_ARP s
      in arp_fill ARP_OP_REPLY (net_mac s) (htonl (net_ip s)) (bytes pkt 8 6) (load32 pkt 14) 14 frame)"

definition arp_handle :: "hw \<Rightarrow> u8 list \<Rightarrow> u16 \<Rightarrow> 'a netif_scheme \<Rightarrow> 'a netif_scheme" where
  "arp_handle h pkt len s =
     (if len < ARP_PKT then s
      else
        let sender_ip = ntohl (load32 pkt 14);
            s = arp_cache_insert sender_ip (bytes pkt 8 6) s
        in if ntohs (load16 pkt 6) = ARP_OP_REQ then
             let target_ip = ntohl (load32 pkt 24)
             in if target_ip \<noteq> net_ip s then s else snd (net_send h (arp_reply pkt s) 42 s)
           else s)"

definition arp_print_entry :: "arp_entry \<Rightarrow> 'a machine_scheme \<Rightarrow> 'a machine_scheme" where
  "arp_print_entry e s =
     (let s = kprint_ip (a_ip e) s; s = kprint ''  ->  '' s; s = kprint_mac (a_mac e) s in kprint [NL] s)"

definition arp_print_cache :: "'a netif_scheme \<Rightarrow> 'a netif_scheme" where
  "arp_print_cache s =
     (let found = filter a_valid (arp_cache s);
          s = fold arp_print_entry found s
      in if found = [] then kprint (''(ARP cache empty)'' @ [NL]) s else s)"

section \<open>The cache is a bounded table\<close>

lemma cache_okD:
  assumes "cache_ok c" and "j < i" and "i < ARP_CACHE_SIZE" and "a_valid (c ! i)"
  shows "a_valid (c ! j)" "a_ip (c ! j) \<noteq> a_ip (c ! i)"
  using assms unfolding cache_ok_def by blast+

lemma cache_ok_length: "cache_ok c \<Longrightarrow> length c = ARP_CACHE_SIZE"
  by (simp only: cache_ok_def)

lemma cache_ok_inj:
  assumes "cache_ok c" "i < ARP_CACHE_SIZE" "j < ARP_CACHE_SIZE" "a_valid (c ! i)" "a_valid (c ! j)"
    "a_ip (c ! i) = a_ip (c ! j)"
  shows "i = j"
proof (cases i j rule: linorder_cases)
  case less
  then show ?thesis using cache_okD(2) [OF assms(1) less assms(3,5)] assms(6) by simp
next
  case greater
  then show ?thesis using cache_okD(2) [OF assms(1) greater assms(2,4)] assms(6) by simp
qed

lemma cache_get_Some_iff:
  assumes "cache_ok c"
  shows "cache_get ip c = Some m \<longleftrightarrow> (\<exists>i<ARP_CACHE_SIZE. a_valid (c ! i) \<and> a_ip (c ! i) = ip \<and> a_mac (c ! i) = m)"
proof (cases rule: scan_cases [of "\<lambda>i. a_valid (c ! i) \<and> a_ip (c ! i) = ip" ARP_CACHE_SIZE])
  case (found i)
  have u: "j = i" if "j < ARP_CACHE_SIZE" "a_valid (c ! j)" "a_ip (c ! j) = ip" for j
    using cache_ok_inj [OF assms that(1) found(2) that(2)] that(3) found(3) by simp
  have "cache_get ip c = Some (a_mac (c ! i))" using found(1) by (simp add: cache_get_def)
  then show ?thesis using found(2,3) u by (metis option.inject)
next
  case none
  then have "cache_get ip c = None" by (simp add: cache_get_def)
  then show ?thesis using none(2) by (metis option.distinct(1))
qed

lemma cache_get_None_iff:
  "cache_get ip c = None \<longleftrightarrow> (\<forall>i<ARP_CACHE_SIZE. \<not> (a_valid (c ! i) \<and> a_ip (c ! i) = ip))"
  by (auto simp: cache_get_def Let_def scan_none_iff)

lemma cache_dom: "dom (\<lambda>ip. cache_get ip c) = (\<lambda>i. a_ip (c ! i)) ` {i. i < ARP_CACHE_SIZE \<and> a_valid (c ! i)}"
proof -
  have "cache_get ip c \<noteq> None \<longleftrightarrow> ip \<in> (\<lambda>i. a_ip (c ! i)) ` {i. i < ARP_CACHE_SIZE \<and> a_valid (c ! i)}" for ip
    unfolding cache_get_None_iff by auto
  then show ?thesis unfolding dom_def by blast
qed

lemma cache_full: "cache_ok c \<Longrightarrow> \<forall>i<ARP_CACHE_SIZE. a_valid (c ! i) \<Longrightarrow>
    card (dom (\<lambda>ip. cache_get ip c)) = ARP_CACHE_SIZE"
proof -
  assume ok: "cache_ok c" and v: "\<forall>i<ARP_CACHE_SIZE. a_valid (c ! i)"
  have "inj_on (\<lambda>i. a_ip (c ! i)) {i. i < ARP_CACHE_SIZE \<and> a_valid (c ! i)}"
    by (rule inj_onI) (auto intro: cache_ok_inj [OF ok])
  moreover have "{i. i < ARP_CACHE_SIZE \<and> a_valid (c ! i)} = {..<ARP_CACHE_SIZE}" using v by auto
  ultimately show ?thesis unfolding cache_dom by (simp add: card_image)
qed

lemma cache_put_alt:
  "cache_put ip mac c =
     (let i = scan (\<lambda>i. \<not> a_valid (c ! i) \<or> a_ip (c ! i) = ip) ARP_CACHE_SIZE
      in c[(if i \<noteq> -1 then nat i else 0) := \<lparr>a_ip = ip, a_mac = mac, a_valid = True\<rparr>])"
  by (simp add: cache_put_def Let_def)

lemma cache_ok_upto: "cache_ok c \<longleftrightarrow> cache_upto ARP_CACHE_SIZE c"
  by (simp add: cache_ok_def cache_upto_def)

lemma cache_uptoD:
  assumes "cache_upto n c" and "j < i" and "i < n" and "a_valid (c ! i)"
  shows "a_valid (c ! j)" "a_ip (c ! j) \<noteq> a_ip (c ! i)"
  using assms unfolding cache_upto_def by blast+

lemma cache_put_slot:
  assumes "cache_upto n c" and "n \<le> ARP_CACHE_SIZE"
  obtains k where "k < ARP_CACHE_SIZE" "cache_put ip mac c = c[k := \<lparr>a_ip = ip, a_mac = mac, a_valid = True\<rparr>]"
    "\<forall>j<k. a_valid (c ! j)" "\<forall>j<n. a_valid (c ! j) \<and> a_ip (c ! j) = ip \<longrightarrow> j = k"
    "\<not> a_valid (c ! k) \<or> a_ip (c ! k) = ip
      \<or> k = 0 \<and> (\<forall>j<ARP_CACHE_SIZE. a_valid (c ! j) \<and> a_ip (c ! j) \<noteq> ip)"
proof (cases rule: scan_cases [of "\<lambda>i. \<not> a_valid (c ! i) \<or> a_ip (c ! i) = ip" ARP_CACHE_SIZE])
  case (found k)
  have u: "j = k" if "j < n" "a_valid (c ! j)" "a_ip (c ! j) = ip" for j
  proof (cases j k rule: linorder_cases)
    case less
    then show ?thesis using found(4) that by blast
  next
    case greater
    then show ?thesis using found(3) cache_uptoD [OF assms(1) greater that(1,2)] that(3) by simp
  qed
  have put: "cache_put ip mac c = c[k := \<lparr>a_ip = ip, a_mac = mac, a_valid = True\<rparr>]"
    using found(1) by (simp add: cache_put_def)
  show ?thesis
    by (rule that [OF found(2) put]) (use found(3,4) u in blast)+
next
  case none
  have put: "cache_put ip mac c = c[0 := \<lparr>a_ip = ip, a_mac = mac, a_valid = True\<rparr>]"
    using none(1) by (simp add: cache_put_def)
  have "0 < ARP_CACHE_SIZE" by (simp add: ARP_CACHE_SIZE_def)
  then show ?thesis
    by (rule that [OF _ put]) (use none(2) assms(2) in \<open>auto dest: order.strict_trans2\<close>)
qed

lemma cache_upto_put:
  assumes ok: "cache_upto n c" and n: "n \<le> ARP_CACHE_SIZE"
  shows "cache_upto n (cache_put ip mac c)"
proof -
  obtain k where k: "k < ARP_CACHE_SIZE"
      "cache_put ip mac c = c[k := \<lparr>a_ip = ip, a_mac = mac, a_valid = True\<rparr>]"
      "\<forall>j<k. a_valid (c ! j)" "\<forall>j<n. a_valid (c ! j) \<and> a_ip (c ! j) = ip \<longrightarrow> j = k"
    by (rule cache_put_slot [OF ok n, of ip mac]) blast
  have l: "length c = ARP_CACHE_SIZE" using ok by (simp add: cache_upto_def)
  have put: "cache_put ip mac c ! i = (if i = k then \<lparr>a_ip = ip, a_mac = mac, a_valid = True\<rparr> else c ! i)" for i
    using k(1) l by (simp add: k(2) nth_upd)
  have "a_valid (cache_put ip mac c ! j) \<and> a_ip (cache_put ip mac c ! j) \<noteq> a_ip (cache_put ip mac c ! i)"
    if "i < n" "j < i" "a_valid (cache_put ip mac c ! i)" for i j
  proof -
    consider "i = k" | "j = k" "i \<noteq> k" | "i \<noteq> k" "j \<noteq> k" by blast
    then show ?thesis
    proof cases
      case 1
      then have j: "j < k" "j < n" using that by linarith+
      then have v: "a_valid (c ! j)" using k(3) by blast
      then have "a_ip (c ! j) \<noteq> ip" using k(4) j by blast
      with v show ?thesis using 1 that(2) unfolding put by simp
    next
      case 2
      then have "a_valid (c ! i)" using that(3) by (simp add: put)
      then have "a_ip (c ! i) \<noteq> ip" using that(1) k(4) 2(2) by blast
      then show ?thesis using 2 by (simp add: put)
    next
      case 3
      then show ?thesis using that cache_uptoD [OF ok that(2,1)] unfolding put by simp
    qed
  qed
  then show ?thesis unfolding cache_upto_def using l k(2) by (metis length_list_update)
qed

lemma cache_ok_put: "cache_ok c \<Longrightarrow> cache_ok (cache_put ip mac c)"
  unfolding cache_ok_upto by (rule cache_upto_put) simp_all

lemma cache_get_put:
  assumes ok: "cache_ok c"
    and room: "cache_get ip c \<noteq> None \<or> card (dom (\<lambda>ip. cache_get ip c)) < ARP_CACHE_SIZE"
  shows "cache_get j (cache_put ip mac c) = (if j = ip then Some mac else cache_get j c)"
proof -
  obtain k where k: "k < ARP_CACHE_SIZE"
      "cache_put ip mac c = c[k := \<lparr>a_ip = ip, a_mac = mac, a_valid = True\<rparr>]"
      "\<forall>j<k. a_valid (c ! j)" "\<forall>j<ARP_CACHE_SIZE. a_valid (c ! j) \<and> a_ip (c ! j) = ip \<longrightarrow> j = k"
      "\<not> a_valid (c ! k) \<or> a_ip (c ! k) = ip
        \<or> k = 0 \<and> (\<forall>j<ARP_CACHE_SIZE. a_valid (c ! j) \<and> a_ip (c ! j) \<noteq> ip)"
    by (rule cache_put_slot [OF ok [unfolded cache_ok_upto] order.refl, of ip mac]) blast
  have "\<not> (\<forall>j<ARP_CACHE_SIZE. a_valid (c ! j) \<and> a_ip (c ! j) \<noteq> ip)"
  proof
    assume a: "\<forall>j<ARP_CACHE_SIZE. a_valid (c ! j) \<and> a_ip (c ! j) \<noteq> ip"
    then have "cache_get ip c = None" unfolding cache_get_None_iff by blast
    moreover have "card (dom (\<lambda>ip. cache_get ip c)) = ARP_CACHE_SIZE"
      by (rule cache_full [OF ok]) (use a in blast)
    ultimately show False using room by simp
  qed
  then have free: "\<not> a_valid (c ! k) \<or> a_ip (c ! k) = ip" using k(5) by blast
  have len: "k < length c" using k(1) cache_ok_length [OF ok] by simp
  have n: "cache_put ip mac c ! i = (if i = k then \<lparr>a_ip = ip, a_mac = mac, a_valid = True\<rparr> else c ! i)" for i
    using len by (simp add: k(2) nth_upd)
  have ok': "cache_ok (cache_put ip mac c)" by (rule cache_ok_put [OF ok])
  show ?thesis
  proof (cases "j = ip")
    case True
    then have "cache_get j (cache_put ip mac c) = Some mac"
      unfolding cache_get_Some_iff [OF ok'] using k(1) by (intro exI [of _ k]) (simp add: n)
    then show ?thesis using True by simp
  next
    case False
    have "a_valid (cache_put ip mac c ! i) \<and> a_ip (cache_put ip mac c ! i) = j \<and> a_mac (cache_put ip mac c ! i) = m
        \<longleftrightarrow> a_valid (c ! i) \<and> a_ip (c ! i) = j \<and> a_mac (c ! i) = m" for i m
      using False free by (cases "i = k") (auto simp: n)
    then have "cache_get j (cache_put ip mac c) = Some m \<longleftrightarrow> cache_get j c = Some m" for m
      by (simp only: cache_get_Some_iff [OF ok'] cache_get_Some_iff [OF ok])
    then have "cache_get j (cache_put ip mac c) = cache_get j c" by (metis option.exhaust)
    then show ?thesis using False by simp
  qed
qed

interpretation ac: bounded_table cache_get cache_put cache_ok ARP_CACHE_SIZE
proof
  show "cache_ok s \<Longrightarrow> finite (dom (\<lambda>k. cache_get k s))" for s
    unfolding cache_dom by simp
qed (simp_all add: cache_ok_put cache_get_put)

section \<open>Frames\<close>

definition eth_view :: "u8 list \<Rightarrow> u8 list \<times> u8 list \<times> u16" where
  "eth_view f = (bytes f 0 6, bytes f 6 6, ntohs (load16 f 12))"

definition arp_view :: "u8 list \<Rightarrow> u16 \<times> u16 \<times> u8 \<times> u8 \<times> u16 \<times> u8 list \<times> u32 \<times> u8 list \<times> u32" where
  "arp_view p = (ntohs (load16 p 0), ntohs (load16 p 2), p ! 4, p ! 5, ntohs (load16 p 6),
     bytes p 8 6, ntohl (load32 p 14), bytes p 18 6, ntohl (load32 p 24))"

lemma length_eth_build [simp]: "length (eth_build buf dst t s) = length buf"
  by (simp add: eth_build_def)

lemma length_arp_fill [simp]: "length (arp_fill oper sha spa tha tpa off f) = length f"
  by (simp add: arp_fill_def Let_def)

lemma eth_view_build:
  assumes "14 \<le> length buf" "length dst = 6" "length (net_mac s) = 6"
  shows "eth_view (eth_build buf dst t s) = (dst, net_mac s, t)"
  using assms by (simp add: eth_view_def eth_build_def packet_simps)

lemma drop_load16: "load16 (drop n b) off = load16 b (n + off)" if "n \<le> length b"
  using that by (simp add: load16_def add.assoc)

lemma drop_load32: "load32 (drop n b) off = load32 b (n + off)" if "n \<le> length b"
  using that by (simp add: load32_def add.assoc)

lemma drop_bytes: "bytes (drop n b) off k = bytes b (n + off) k"
  by (simp add: bytes_def add.commute)

lemma eth_view_fill:
  assumes "42 \<le> length f" "length sha = 6" "length tha = 6"
  shows "eth_view (arp_fill oper sha spa tha tpa 14 f) = eth_view f"
  using assms by (simp add: eth_view_def arp_fill_def Let_def packet_simps)

lemma arp_view_fill:
  assumes "42 \<le> length f" "length sha = 6" "length tha = 6"
  shows "arp_view (drop 14 (arp_fill oper sha spa tha tpa 14 f))
    = (1, 0x0800, 6, 4, oper, sha, ntohl spa, tha, ntohl tpa)"
  using assms
  by (simp add: arp_view_def arp_fill_def Let_def packet_simps drop_load16 drop_load32 drop_bytes
      ARP_HW_ETHER_def ETH_TYPE_IP_def)

lemma cache_get_put_same:
  assumes ok: "cache_ok c"
  shows "cache_get ip (cache_put ip mac c) = Some mac"
proof -
  obtain k where k: "k < ARP_CACHE_SIZE" "cache_put ip mac c = c[k := \<lparr>a_ip = ip, a_mac = mac, a_valid = True\<rparr>]"
    by (rule cache_put_slot [OF ok [unfolded cache_ok_upto] order.refl, of ip mac]) blast
  then show ?thesis
    unfolding cache_get_Some_iff [OF cache_ok_put [OF ok]] using cache_ok_length [OF ok]
    by (intro exI [of _ k]) simp
qed

lemma net_upto_arp_insert:
  assumes inv: "net_upto n s" and n: "n \<le> ARP_CACHE_SIZE" and mac: "length mac = 6"
  shows "net_upto n (arp_cache_insert ip mac s)"
proof -
  obtain k where k: "cache_put ip mac (arp_cache s) = (arp_cache s)[k := \<lparr>a_ip = ip, a_mac = mac, a_valid = True\<rparr>]"
    unfolding cache_put_alt Let_def by blast
  have "\<forall>e\<in>set (cache_put ip mac (arp_cache s)). length (a_mac e) = 6"
    using inv mac unfolding k by (auto simp: net_upto_def dest!: subsetD [OF set_update_subset_insert])
  then show ?thesis
    using inv by (simp add: net_upto_def arp_cache_insert_def cache_upto_put [OF _ n])
qed

lemma net_inv_arp_insert: "net_inv s \<Longrightarrow> length mac = 6 \<Longrightarrow> net_inv (arp_cache_insert ip mac s)"
  by (simp add: net_inv_upto net_upto_arp_insert)

lemma net_step_arp_insert: "length mac = 6 \<Longrightarrow> net_step s (arp_cache_insert ip mac s)"
  unfolding net_step_def
  by (simp add: net_upto_arp_insert) (simp add: arp_cache_insert_def others_def)

lemma net_step_arp_send_request: "net_step s (arp_send_request h ip s)"
  unfolding arp_send_request_def by (rule net_step_net_send)

lemma net_step_arp_handle:
  assumes "14 \<le> length pkt"
  shows "net_step s (arp_handle h pkt len s)"
proof -
  have i: "net_step s (arp_cache_insert ip (bytes pkt 8 6) s)" for ip
    using assms by (intro net_step_arp_insert) (simp add: length_bytes)
  show ?thesis
    using i net_step_trans [OF i net_step_net_send] by (simp add: arp_handle_def Let_def)
qed

lemma net_inv_arp_cache_init: "net_inv s \<Longrightarrow> net_inv (arp_cache_init s)"
  by (simp add: net_inv_def arp_cache_init_def cache_ok_def)

lemma arp_insert_frame [simp]:
  "net_mac (arp_cache_insert ip mac s) = net_mac s" "net_ip (arp_cache_insert ip mac s) = net_ip s"
  "net_iobase (arp_cache_insert ip mac s) = net_iobase s" "tx_buf (arp_cache_insert ip mac s) = tx_buf s"
  "tx_cur (arp_cache_insert ip mac s) = tx_cur s" "io (arp_cache_insert ip mac s) = io s"
  "arp_cache (arp_cache_insert ip mac s) = cache_put ip mac (arp_cache s)"
  by (simp_all add: arp_cache_insert_def)

lemma net_send_frame_cache: "arp_cache (snd (net_send h f len s)) = arp_cache s"
proof -
  have r: "arp_cache (snd (rtl_inl h reg t)) = arp_cache t" "arp_cache (rtl_outl reg v t) = arp_cache t"
    for reg v and t :: "'a netif_scheme"
    by (simp_all add: rtl_inl_alt read_port_def rtl_outl_def write_port_def Let_def)
  have w: "arp_cache (tx_wait h n t) = arp_cache t" for n and t :: "'a netif_scheme"
    by (induction n arbitrary: t) (simp_all add: split_beta Let_def r)
  show ?thesis by (simp add: net_send_def Let_def w r)
qed

text \<open>C16: after ARP packets from at most eight different senders, in any order and however often,
  the cache answers every sender's address with the hardware address of that sender's latest packet,
  and nothing else.\<close>

theorem arp_cache_latest:
  assumes "card (fst ` set kvs) \<le> 8" and "length (arp_cache s) = 8"
  shows "arp_lookup ip (fold (\<lambda>kv. arp_cache_insert (fst kv) (snd kv)) kvs (arp_cache_init s)) = map_of (rev kvs) ip"
proof -
  let ?c = "arp_cache (arp_cache_init s)"
  have ok: "cache_ok ?c" using assms(2) by (simp add: arp_cache_init_def cache_ok_def ARP_CACHE_SIZE_def)
  have none: "cache_get j ?c = None" for j
    unfolding cache_get_None_iff using assms(2) by (simp add: arp_cache_init_def ARP_CACHE_SIZE_def)
  have f: "arp_cache (fold (\<lambda>kv. arp_cache_insert (fst kv) (snd kv)) kvs t)
      = fold (\<lambda>kv. cache_put (fst kv) (snd kv)) kvs (arp_cache t)" for t :: "'a netif_scheme"
    by (induction kvs arbitrary: t) simp_all
  have "dom (\<lambda>k. cache_get k ?c) = {}" unfolding none by (rule dom_empty)
  then have "card (dom (\<lambda>k. cache_get k ?c) \<union> fst ` set kvs) \<le> ARP_CACHE_SIZE"
    using assms(1) by (simp add: ARP_CACHE_SIZE_def)
  from ac.get_puts [OF ok this, of ip] show ?thesis
    unfolding arp_lookup_def f none by (cases "map_of (rev kvs) ip") simp_all
qed

theorem arp_cache_latest_witness:
  "arp_lookup 1 (fold (\<lambda>kv. arp_cache_insert (fst kv) (snd kv)) [(1, [1]), (2, [2]), (1, [3])]
     (arp_cache_init blank_net)) = Some [3]"
  using arp_cache_latest [of "[(1, [1]), (2, [2]), (1, [3])]" blank_net 1]
  by (simp add: blank_net_def with_net_globals_def fsys.defs netif.defs card_insert_if)

lemma arp_request_views:
  assumes "net_inv s"
  shows "length (arp_request ip s) = 42" and "eth_view (arp_request ip s) = (bcast, net_mac s, ETH_TYPE_ARP)"
    and "arp_view (drop 14 (arp_request ip s))
      = (1, 0x0800, 6, 4, ARP_OP_REQ, net_mac s, net_ip s, zero_mac, ip)"
proof -
  have l: "length (net_mac s) = 6" "length bcast = 6" "length zero_mac = 6"
    using assms by (simp_all add: net_inv_def bcast_def zero_mac_def)
  show "length (arp_request ip s) = 42" by (simp add: arp_request_def)
  show "eth_view (arp_request ip s) = (bcast, net_mac s, ETH_TYPE_ARP)"
    by (simp add: arp_request_def eth_view_fill l eth_view_build)
  show "arp_view (drop 14 (arp_request ip s))
      = (1, 0x0800, 6, 4, ARP_OP_REQ, net_mac s, net_ip s, zero_mac, ip)"
    by (simp add: arp_request_def arp_view_fill l)
qed

lemma arp_reply_views:
  assumes "net_inv s" and "14 \<le> length pkt"
  shows "length (arp_reply pkt s) = 42" and "eth_view (arp_reply pkt s) = (bytes pkt 8 6, net_mac s, ETH_TYPE_ARP)"
    and "arp_view (drop 14 (arp_reply pkt s)) = (1, 0x0800, 6, 4, ARP_OP_REPLY, net_mac s, net_ip s,
          bytes pkt 8 6, ntohl (load32 pkt 14))"
proof -
  have l: "length (net_mac s) = 6" "length (bytes pkt 8 6) = 6"
    using assms by (simp_all add: net_inv_def length_bytes)
  show "length (arp_reply pkt s) = 42" by (simp add: arp_reply_def)
  show "eth_view (arp_reply pkt s) = (bytes pkt 8 6, net_mac s, ETH_TYPE_ARP)"
    by (simp add: arp_reply_def eth_view_fill l eth_view_build)
  show "arp_view (drop 14 (arp_reply pkt s)) = (1, 0x0800, 6, 4, ARP_OP_REPLY, net_mac s, net_ip s,
          bytes pkt 8 6, ntohl (load32 pkt 14))"
    by (simp add: arp_reply_def arp_view_fill l)
qed

text \<open>What \<open>net_send\<close> leaves in the transmit buffer.\<close>

lemma net_send_sent:
  assumes "net_inv s" "net_iobase s \<noteq> 0" "length f = n" "n \<le> 1536"
  shows "take n (tx_buf (snd (net_send h f (of_nat n) s)) ! tx_cur s) = f"
proof -
  have n: "unat (of_nat n :: u16) = n" using assms(4) by (simp add: unat_of_nat_small)
  then have "\<not> 1536 < (of_nat n :: u16)" using assms(4) by (simp add: word_less_nat_alt)
  then show ?thesis
    using net_send_frame_fact [OF assms(1), of "of_nat n" f h] assms(2,3) n by auto
qed

lemma arp_handle_learns:
  assumes "net_inv s" and "\<not> len < ARP_PKT"
  shows "arp_lookup (ntohl (load32 pkt 14)) (arp_handle h pkt len s) = Some (bytes pkt 8 6)"
proof -
  have "cache_ok (arp_cache s)" using assms(1) by (simp add: net_inv_def)
  then show ?thesis
    using assms(2)
    by (simp add: arp_handle_def Let_def arp_lookup_def net_send_frame_cache cache_get_put_same)
qed

text \<open>C7: address resolution between two machines. Machine \<open>a\<close> builds a request for the address of
  machine \<open>b\<close>; when \<open>b\<close> handles it, \<open>b\<close> learns \<open>a\<close>'s hardware address and puts a frame addressed
  to \<open>a\<close> into its transmit buffer; when \<open>a\<close> handles that frame, \<open>a\<close> looks up \<open>b\<close>'s
  address successfully and gets \<open>b\<close>'s hardware address. From a request for another address \<open>b\<close>
  learns \<open>a\<close>'s hardware address as well, but it does not answer: no port is accessed and no transmit
  buffer changes.\<close>

theorem arp_resolution:
  fixes a :: "'a netif_scheme" and b :: "'b netif_scheme" and ha hb :: hw
  assumes "net_inv a" and "net_inv b" and "net_iobase b \<noteq> 0"
  defines "b' \<equiv> arp_handle hb (drop 14 (arp_request (net_ip b) a)) 28 b"
  defines "f \<equiv> take 42 (tx_buf b' ! tx_cur b)"
  shows "arp_lookup (net_ip a) b' = Some (net_mac a)
    \<and> eth_view f = (net_mac a, net_mac b, ETH_TYPE_ARP)
    \<and> arp_lookup (net_ip b) (arp_handle ha (drop 14 f) 28 a) = Some (net_mac b)
    \<and> (ip \<noteq> net_ip b \<longrightarrow> (let b'' = arp_handle hb (drop 14 (arp_request ip a)) 28 b in
          arp_lookup (net_ip a) b'' = Some (net_mac a) \<and> io b'' = io b \<and> tx_buf b'' = tx_buf b))"
proof -
  have l28: "\<not> (28 :: u16) < ARP_PKT" by (simp add: ARP_PKT_def)
  let ?p = "\<lambda>ip. drop 14 (arp_request ip a)"
  have v: "ntohs (load16 (?p ip) 6) = ARP_OP_REQ" "bytes (?p ip) 8 6 = net_mac a"
      "ntohl (load32 (?p ip) 14) = net_ip a" "ntohl (load32 (?p ip) 24) = ip" for ip
    using arp_request_views [OF assms(1), of ip] by (simp_all add: arp_view_def)
  have len: "14 \<le> length (?p ip)" for ip
    using arp_request_views(1) [OF assms(1), of ip] by simp
  let ?c = "arp_cache_insert (net_ip a) (net_mac a) b"
  have c: "net_inv ?c" using assms(1,2) by (intro net_inv_arp_insert) (simp_all add: net_inv_def)
  have b': "b' = snd (net_send hb (arp_reply (?p (net_ip b)) ?c) 42 ?c)"
    using l28 by (simp add: b'_def arp_handle_def Let_def v)
  note r = arp_reply_views [OF c len, of "net_ip b"]
  have f: "f = arp_reply (?p (net_ip b)) ?c"
    using net_send_sent [OF c _ r(1), of hb] assms(3) unfolding f_def b' by simp
  have vf: "bytes (drop 14 f) 8 6 = net_mac b" "ntohl (load32 (drop 14 f) 14) = net_ip b"
    using r(3) unfolding f by (simp_all add: arp_view_def)
  have "arp_lookup (net_ip a) b' = Some (net_mac a)"
    using arp_handle_learns [OF assms(2) l28, of "?p (net_ip b)" hb] by (simp add: b'_def v)
  moreover have "eth_view f = (net_mac a, net_mac b, ETH_TYPE_ARP)" using r(2) unfolding f by (simp add: v)
  moreover have "arp_lookup (net_ip b) (arp_handle ha (drop 14 f) 28 a) = Some (net_mac b)"
    using arp_handle_learns [OF assms(1) l28, of "drop 14 f" ha] by (simp add: vf)
  moreover have "arp_lookup (net_ip a) (arp_handle hb (?p ip) 28 b) = Some (net_mac a)"
    using arp_handle_learns [OF assms(2) l28, of "?p ip" hb] by (simp add: v)
  moreover have "ip \<noteq> net_ip b \<longrightarrow> io (arp_handle hb (?p ip) 28 b) = io b \<and> tx_buf (arp_handle hb (?p ip) 28 b) = tx_buf b"
    using l28 by (simp add: arp_handle_def Let_def v)
  ultimately show ?thesis by (simp add: Let_def)
qed

theorem arp_resolution_witness:
  fixes b :: netif
  defines "b \<equiv> blank_net\<lparr>net_iobase := 0xC000, net_ip := MAKE_IP 10 0 2 2, net_mac := [2, 0, 0, 0, 0, 1]\<rparr>"
  shows "arp_lookup (net_ip b) (arp_handle idle_board (drop 14 (take 42 (tx_buf
     (arp_handle idle_board (drop 14 (arp_request (net_ip b) blank_net)) 28 b) ! tx_cur b))) 28 blank_net)
     = Some [2, 0, 0, 0, 0, 1]"
proof -
  have "net_inv b" using blank_net(1) by (simp add: b_def net_inv_def)
  then show ?thesis using arp_resolution [of blank_net b idle_board idle_board] by (simp add: b_def)
qed

end
