(* ===== verification/Ip.thy ===== *)
theory Ip
  imports Arp "HOL-Library.Monad_Syntax"
begin

text \<open>
  IPv4, ICMP, UDP, the Ethernet dispatcher and the poll loop of \<open>net.c\<close>, and the three network
  commands of the shell.

  The C functions are mutually recursive: \<open>net_poll\<close> dispatches a frame, an echo request sends a
  reply, sending may have to resolve an address, and resolving polls again. The recursion is
  opened: everything between is parameterised by the poll function it calls (\<open>poll\<close>), and
  \<open>net_poll\<close> ties the knot with a bound on the number of frames and nested polls. \<open>None\<close> is
  running out of this bound, never a result of the C code; \<open>net_poll_returns\<close> gives a sufficient
  bound for every card that delivers finitely many frames.
\<close>

definition IP_HDR :: u16 where "IP_HDR = 20"
definition ICMP_HDR :: u16 where "ICMP_HDR = 8"
definition UDP_HDR :: u16 where "UDP_HDR = 8"
definition IP_PROTO_ICMP :: u8 where "IP_PROTO_ICMP = 1"
definition IP_PROTO_UDP :: u8 where "IP_PROTO_UDP = 17"
definition ICMP_ECHO_REQUEST :: u8 where "ICMP_ECHO_REQUEST = 8"
definition ICMP_ECHO_REPLY :: u8 where "ICMP_ECHO_REPLY = 0"

section \<open>Sending\<close>

text \<open>\<open>while (wait--) { net_poll(); if (arp_lookup(dst_ip, &dst_mac)) break; }\<close>\<close>

fun arp_wait :: "('a netif_scheme \<Rightarrow> 'a netif_scheme option) \<Rightarrow> nat \<Rightarrow> u32 \<Rightarrow> 'a netif_scheme
    \<Rightarrow> 'a netif_scheme option" where
  "arp_wait poll 0 ip s = Some s"
| "arp_wait poll (Suc wait) ip s =
     do { s \<leftarrow> poll s; if arp_lookup ip s \<noteq> None then Some s else arp_wait poll wait ip s }"

definition ip_resolve :: "('a netif_scheme \<Rightarrow> 'a netif_scheme option) \<Rightarrow> hw \<Rightarrow> u32 \<Rightarrow> 'a netif_scheme
    \<Rightarrow> (u8 list option \<times> 'a netif_scheme) option" where
  "ip_resolve poll h dst_ip s =
     (if dst_ip = 0xFFFFFFFF then Some (Some bcast, s)
      else if arp_lookup dst_ip s \<noteq> None then Some (arp_lookup dst_ip s, s)
      else do { s \<leftarrow> arp_wait poll 500000 dst_ip (arp_send_request h dst_ip s);
                Some (arp_lookup dst_ip s, s) })"

text \<open>The frame \<open>ip_send\<close> builds in its local array \<open>u8 frame[1500] = {0}\<close>.\<close>

definition ip_frame :: "u8 list \<Rightarrow> u32 \<Rightarrow> u8 \<Rightarrow> u8 list \<Rightarrow> u16 \<Rightarrow> 'a netif_scheme \<Rightarrow> u8 list" where
  "ip_frame dst_mac dst_ip proto payload plen s =
     (let total = IP_HDR + plen;
          f = eth_build (replicate 1500 0) dst_mac ETH_TYPE_IP s;
          f = f[14 := 0x45, 15 := 0];
          f = store16 16 (htons total) f;
          f = store16 18 (htons 1) f;
          f = store16 20 0 f;
          f = f[22 := 64, 23 := proto];
          f = store16 24 0 f;
          f = store32 26 (htonl (net_ip s)) f;
          f = store32 30 (htonl dst_ip) f;
          f = store16 24 (ip_checksum (drop 14 f) 20) f
      in memcpy_n f 34 payload (unat plen))"

definition ip_send :: "('a netif_scheme \<Rightarrow> 'a netif_scheme option) \<Rightarrow> hw \<Rightarrow> u32 \<Rightarrow> u8 \<Rightarrow> u8 list \<Rightarrow> u16
    \<Rightarrow> 'a netif_scheme \<Rightarrow> (int \<times> 'a netif_scheme) option" where
  "ip_send poll h dst_ip proto payload plen s =
     do { (dst_mac, s) \<leftarrow> ip_resolve poll h dst_ip s;
          case dst_mac of
            None \<Rightarrow> Some (-1, kprint [NL] (kprint_ip dst_ip (kprint ''[NET] ARP failed for '' s)))
          | Some m \<Rightarrow> Some (net_send h (ip_frame m dst_ip proto payload plen s) (ETH_HDR + (IP_HDR + plen)) s) }"

section \<open>ICMP and UDP\<close>

definition icmp_reply :: "u8 list \<Rightarrow> u16 \<Rightarrow> u8 list" where
  "icmp_reply pkt len =
     (let reply = memcpy_n (replicate 64 0) 0 pkt (unat len);
          reply = reply[0 := ICMP_ECHO_REPLY];
          reply = store16 2 0 reply
      in store16 2 (ip_checksum reply (unat len)) reply)"

definition icmp_handle :: "('a netif_scheme \<Rightarrow> 'a netif_scheme option) \<Rightarrow> hw \<Rightarrow> u32 \<Rightarrow> u8 list \<Rightarrow> u16
    \<Rightarrow> 'a netif_scheme \<Rightarrow> 'a netif_scheme option" where
  "icmp_handle poll h src_ip pkt len s =
     (if len < ICMP_HDR then Some s
      else if pkt ! 0 = ICMP_ECHO_REQUEST then
        let len = (if 64 < len then 64 else len)
        in map_option snd (ip_send poll h src_ip IP_PROTO_ICMP (icmp_reply pkt len) len s)
      else if pkt ! 0 = ICMP_ECHO_REPLY then
        Some (s\<lparr>icmp_echo_received := True, icmp_last_seq := ntohs (load16 pkt 6)\<rparr>)
      else Some s)"

definition icmp_echo :: "u16 \<Rightarrow> u8 list" where
  "icmp_echo seq =
     (let p = memset_n (replicate 16 0) 0 0 16;
          p = p[0 := ICMP_ECHO_REQUEST, 1 := 0];
          p = store16 4 (htons 0x4D4F) p;
          p = store16 6 (htons seq) p;
          p = store16 2 0 p
      in store16 2 (ip_checksum p 16) p)"

definition icmp_send_echo :: "('a netif_scheme \<Rightarrow> 'a netif_scheme option) \<Rightarrow> hw \<Rightarrow> u32 \<Rightarrow> u16
    \<Rightarrow> 'a netif_scheme \<Rightarrow> 'a netif_scheme option" where
  "icmp_send_echo poll h dst_ip seq s =
     map_option snd (ip_send poll h dst_ip IP_PROTO_ICMP (icmp_echo seq) 16 s)"

definition udp_handle :: "u32 \<Rightarrow> u8 list \<Rightarrow> u16 \<Rightarrow> 'a netif_scheme \<Rightarrow> 'a netif_scheme" where
  "udp_handle src_ip pkt len s = s"

definition udp_packet :: "u16 \<Rightarrow> u16 \<Rightarrow> u8 list \<Rightarrow> u16 \<Rightarrow> u8 list" where
  "udp_packet src_port dst_port dat dlen =
     (let b = replicate 520 0;
          b = store16 0 (htons src_port) b;
          b = store16 2 (htons dst_port) b;
          b = store16 4 (htons (UDP_HDR + dlen)) b;
          b = store16 6 0 b
      in memcpy_n b 8 dat (unat dlen))"

definition udp_send :: "('a netif_scheme \<Rightarrow> 'a netif_scheme option) \<Rightarrow> hw \<Rightarrow> u32 \<Rightarrow> u16 \<Rightarrow> u16 \<Rightarrow> u8 list
    \<Rightarrow> u16 \<Rightarrow> 'a netif_scheme \<Rightarrow> (int \<times> 'a netif_scheme) option" where
  "udp_send poll h dst_ip src_port dst_port dat dlen s =
     (if 512 < dlen then Some (-1, s)
      else ip_send poll h dst_ip IP_PROTO_UDP (udp_packet src_port dst_port dat dlen) (UDP_HDR + dlen) s)"

section \<open>Receiving\<close>

definition ip_handle :: "('a netif_scheme \<Rightarrow> 'a netif_scheme option) \<Rightarrow> hw \<Rightarrow> u8 list \<Rightarrow> u16
    \<Rightarrow> 'a netif_scheme \<Rightarrow> 'a netif_scheme option" where
  "ip_handle poll h pkt len s =
     (if len < IP_HDR then Some s
      else
        let ihl = (pkt ! 0 AND 0x0F) * 4 in
        if ihl < 20 then Some s
        else if ntohl (load32 pkt 16) \<noteq> net_ip s then Some s
        else
          let payload = drop (unat ihl) pkt;
              plen = ntohs (load16 pkt 2) - ucast ihl;
              src_ip = ntohl (load32 pkt 12)
          in if pkt ! 9 = IP_PROTO_ICMP then icmp_handle poll h src_ip payload plen s
             else if pkt ! 9 = IP_PROTO_UDP then Some (udp_handle src_ip payload plen s)
             else Some s)"

definition eth_process :: "('a netif_scheme \<Rightarrow> 'a netif_scheme option) \<Rightarrow> hw \<Rightarrow> u8 list \<Rightarrow> u16
    \<Rightarrow> 'a netif_scheme \<Rightarrow> 'a netif_scheme option" where
  "eth_process poll h fr len s =
     (if len < ETH_HDR then Some s
      else
        let etype = ntohs (load16 fr 12); payload = drop 14 fr; plen = len - ETH_HDR
        in if etype = ETH_TYPE_ARP then Some (arp_handle h payload plen s)
           else if etype = ETH_TYPE_IP then ip_handle poll h payload plen s
           else Some s)"

primrec net_poll :: "hw \<Rightarrow> nat \<Rightarrow> 'a netif_scheme \<Rightarrow> 'a netif_scheme option" where
  "net_poll h 0 s = None"
| "net_poll h (Suc fuel) s =
     (let (len, buf, s) = rtl_recv h (pkt_buf s) s;
          s = s\<lparr>pkt_buf := buf\<rparr>
      in if 0 < len then
           do { s \<leftarrow> eth_process (net_poll h fuel) h (pkt_buf s) len s; net_poll h fuel s }
         else Some s)"

section \<open>Shell commands and start-up\<close>

definition net_cmd_ifconfig :: "'a netif_scheme \<Rightarrow> 'a netif_scheme" where
  "net_cmd_ifconfig s =
     (let s = kprint (''eth0: flags=UP BROADCAST RUNNING'' @ [NL]) s;
          s = kprint ''      inet '' s;
          s = kprint_ip (net_ip s) s;
          s = kprint (''  netmask 255.255.255.0'' @ [NL]) s;
          s = kprint ''      ether '' s;
          s = kprint_mac (net_mac s) s;
          s = kprint [NL] s
      in if net_iobase s = 0 then kprint (''      [NIC not found]'' @ [NL]) s else s)"

text \<open>\<open>while (wait-- && !icmp_echo_received) net_poll();\<close>\<close>

fun ping_wait :: "('a netif_scheme \<Rightarrow> 'a netif_scheme option) \<Rightarrow> nat \<Rightarrow> 'a netif_scheme
    \<Rightarrow> 'a netif_scheme option" where
  "ping_wait poll 0 s = Some s"
| "ping_wait poll (Suc wait) s =
     (if icmp_echo_received s then Some s else do { s \<leftarrow> poll s; ping_wait poll wait s })"

definition ping_one :: "('a netif_scheme \<Rightarrow> 'a netif_scheme option) \<Rightarrow> hw \<Rightarrow> u32 \<Rightarrow> u16
    \<Rightarrow> 'a netif_scheme \<Rightarrow> 'a netif_scheme option" where
  "ping_one poll h target seq s =
     do { s \<leftarrow> icmp_send_echo poll h target seq (s\<lparr>icmp_echo_received := False\<rparr>);
          s \<leftarrow> ping_wait poll 2000000 s;
          let s = kprint_dec (ucast seq) (kprint ''  seq='' s);
          Some (if icmp_echo_received s then kprint ('' reply received'' @ [NL]) s
                else kprint ('' request timeout'' @ [NL]) s) }"

definition net_cmd_ping :: "('a netif_scheme \<Rightarrow> 'a netif_scheme option) \<Rightarrow> hw \<Rightarrow> u32
    \<Rightarrow> 'a netif_scheme \<Rightarrow> 'a netif_scheme option" where
  "net_cmd_ping poll h target s =
     do { let s = kprint ('' with 4 packets:'' @ [NL]) (kprint_ip target (kprint ''PING '' s));
          s \<leftarrow> ping_one poll h target 1 s;
          s \<leftarrow> ping_one poll h target 2 s;
          s \<leftarrow> ping_one poll h target 3 s;
          ping_one poll h target 4 s }"

definition net_cmd_arp :: "'a netif_scheme \<Rightarrow> 'a netif_scheme" where
  "net_cmd_arp s = arp_print_cache (kprint (''ARP cache:'' @ [NL]) s)"

definition net_stack_init :: "hw \<Rightarrow> 'a netif_scheme \<Rightarrow> 'a netif_scheme" where
  "net_stack_init h s = snd (net_init h (arp_cache_init s))"

section \<open>The contract of the poll function\<close>

text \<open>Everything the stack does between two polls keeps the contract, provided the poll function
  it is given keeps it.\<close>

lemma net_step_arp_handle':
  assumes "net_upto 0 s \<Longrightarrow> 14 \<le> length pkt"
  shows "net_step s (arp_handle h pkt len s)"
proof (cases "net_upto 0 s")
  case True
  then show ?thesis using assms by (intro net_step_arp_handle)
next
  case False
  have i: "net_step s (arp_cache_insert ip m s)" for ip m
    using False net_upto_0 [of _ s] by (auto simp: net_step_def) (simp_all add: arp_cache_insert_def others_def)
  show ?thesis
    using i net_step_trans [OF i net_step_net_send] by (simp add: arp_handle_def Let_def)
qed

lemma net_step_kprint [simp]: "net_step s (kprint str s)" "net_step s (kprint_ip ip s)" "net_step s (kprint_dec v s)"
  by (rule net_step_console, rule console_op_kprint, rule net_step_console, rule console_op_kprint_ip,
      rule net_step_console, rule console_op_kprint_dec)

lemma net_step_icmp_flags: "net_step s (s\<lparr>icmp_echo_received := b, icmp_last_seq := q\<rparr>)"
    "net_step s (s\<lparr>icmp_echo_received := b\<rparr>)"
  by (simp_all add: net_step_def others_def net_upto_def)

locale poller =
  fixes poll :: "'a netif_scheme \<Rightarrow> 'a netif_scheme option"
  assumes step: "poll s = Some t \<Longrightarrow> net_step s t"
begin

lemma arp_wait_step: "arp_wait poll n ip s = Some t \<Longrightarrow> net_step s t"
proof (induction n arbitrary: s)
  case (Suc n)
  then obtain u where u: "poll s = Some u" "u = t \<or> arp_wait poll n ip u = Some t"
    by (auto split: Option.bind_splits if_splits)
  then show ?case using step [OF u(1)] Suc.IH net_step_trans by blast
qed simp

lemma ip_resolve_step: "ip_resolve poll h ip s = Some (m, t) \<Longrightarrow> net_step s t"
proof -
  assume "ip_resolve poll h ip s = Some (m, t)"
  then consider "t = s" | "arp_wait poll 500000 ip (arp_send_request h ip s) = Some t"
    by (auto simp: ip_resolve_def split: Option.bind_splits if_splits)
  then show ?thesis
    by cases (simp, rule net_step_trans [OF net_step_arp_send_request arp_wait_step])
qed

lemma ip_send_step:
  assumes "ip_send poll h ip proto payload plen s = Some (r, t)"
  shows "net_step s t"
proof -
  obtain m u where u: "ip_resolve poll h ip s = Some (m, u)"
      and t: "(case m of None \<Rightarrow> Some (-1, kprint [NL] (kprint_ip ip (kprint ''[NET] ARP failed for '' u)))
        | Some m \<Rightarrow> Some (net_send h (ip_frame m ip proto payload plen u) (ETH_HDR + (IP_HDR + plen)) u)) = Some (r, t)"
    using assms by (auto simp: ip_send_def split: Option.bind_splits)
  have "net_step u t"
  proof (cases m)
    case None
    then have "t = kprint [NL] (kprint_ip ip (kprint ''[NET] ARP failed for '' u))" using t by simp
    then show ?thesis
      using net_step_trans [OF net_step_kprint(1) net_step_trans [OF net_step_kprint(2) net_step_kprint(1)]]
      by simp
  next
    case (Some mac)
    then have "net_send h (ip_frame mac ip proto payload plen u) (ETH_HDR + (IP_HDR + plen)) u = (r, t)"
      using t by simp
    then show ?thesis
      using net_step_net_send [of u h "ip_frame mac ip proto payload plen u" "ETH_HDR + (IP_HDR + plen)"] by simp
  qed
  then show ?thesis using ip_resolve_step [OF u] by (blast intro: net_step_trans)
qed

lemma icmp_handle_step: "icmp_handle poll h src pkt len s = Some t \<Longrightarrow> net_step s t"
  using ip_send_step net_step_icmp_flags(1) by (auto simp: icmp_handle_def Let_def split: if_splits)

lemma ip_handle_step: "ip_handle poll h pkt len s = Some t \<Longrightarrow> net_step s t"
  using icmp_handle_step by (auto simp: ip_handle_def udp_handle_def Let_def split: if_splits)

lemma eth_process_step:
  assumes "net_upto 0 s \<Longrightarrow> 28 \<le> length fr" and "eth_process poll h fr len s = Some t"
  shows "net_step s t"
proof -
  have "net_step s (arp_handle h (drop 14 fr) l s)" for l
    using assms(1) by (intro net_step_arp_handle') simp
  then show ?thesis
    using assms(2) ip_handle_step by (auto simp: eth_process_def Let_def split: if_splits)
qed

lemma icmp_send_echo_step: "icmp_send_echo poll h ip seq s = Some t \<Longrightarrow> net_step s t"
  using ip_send_step by (auto simp: icmp_send_echo_def)

lemma udp_send_step: "udp_send poll h ip p q d n s = Some (r, t) \<Longrightarrow> net_step s t"
  using ip_send_step by (auto simp: udp_send_def split: if_splits)

lemma ping_wait_step: "ping_wait poll n s = Some t \<Longrightarrow> net_step s t"
proof (induction n arbitrary: s)
  case (Suc n)
  then show ?case
    using step net_step_trans by (auto split: Option.bind_splits if_splits) blast
qed simp

lemma ping_one_step: "ping_one poll h ip seq s = Some t \<Longrightarrow> net_step s t"
proof -
  assume "ping_one poll h ip seq s = Some t"
  then obtain u v where u: "icmp_send_echo poll h ip seq (s\<lparr>icmp_echo_received := False\<rparr>) = Some u"
      and v: "ping_wait poll 2000000 u = Some v"
      and t: "t = (let s = kprint_dec (ucast seq) (kprint ''  seq='' v) in
        if icmp_echo_received s then kprint ('' reply received'' @ [NL]) s
        else kprint ('' request timeout'' @ [NL]) s)"
    by (auto simp: ping_one_def Let_def split: Option.bind_splits)
  have "net_step s u" using net_step_trans [OF net_step_icmp_flags(2) icmp_send_echo_step [OF u]] .
  also have "net_step u v" by (rule ping_wait_step [OF v])
  also have "net_step v (kprint_dec (ucast seq) (kprint ''  seq='' v))"
    by (rule net_step_trans [OF net_step_kprint(1) net_step_kprint(3)])
  also have "net_step (kprint_dec (ucast seq) (kprint ''  seq='' v)) t" unfolding t Let_def by simp
  finally show ?thesis .
qed

lemma net_cmd_ping_step: "net_cmd_ping poll h ip s = Some t \<Longrightarrow> net_step s t"
proof -
  assume "net_cmd_ping poll h ip s = Some t"
  then obtain a b c where p: "ping_one poll h ip 1 (kprint ('' with 4 packets:'' @ [NL]) (kprint_ip ip (kprint ''PING '' s))) = Some a"
      "ping_one poll h ip 2 a = Some b" "ping_one poll h ip 3 b = Some c" "ping_one poll h ip 4 c = Some t"
    by (auto simp: net_cmd_ping_def Let_def split: Option.bind_splits)
  have "net_step s a"
    by (rule net_step_trans [OF net_step_kprint(1) net_step_trans [OF net_step_kprint(2)
          net_step_trans [OF net_step_kprint(1) ping_one_step [OF p(1)]]]])
  then show ?thesis
    by (rule net_step_trans [OF _ net_step_trans [OF ping_one_step [OF p(2)]
          net_step_trans [OF ping_one_step [OF p(3)] ping_one_step [OF p(4)]]]])
qed

end

lemma others_pkt_buf: "others (t\<lparr>pkt_buf := b\<rparr>) = others t"
  by (simp add: others_def)

lemma net_upto_pkt_buf: "net_upto n t \<Longrightarrow> length b = 1518 \<Longrightarrow> net_upto n (t\<lparr>pkt_buf := b\<rparr>)"
  by (simp add: net_upto_def)

lemma net_step_pkt_buf: "net_step s t \<Longrightarrow> (net_upto 0 s \<Longrightarrow> length b = 1518) \<Longrightarrow> net_step s (t\<lparr>pkt_buf := b\<rparr>)"
  unfolding net_step_def using net_upto_0 [of _ s] by (auto simp: others_pkt_buf net_upto_pkt_buf)

lemma net_poll_poller: "poller (net_poll h fuel)"
proof (induction fuel)
  case 0
  then show ?case by (simp add: poller_def)
next
  case (Suc fuel)
  show ?case
  proof
    fix s t :: "'a netif_scheme"
    assume t: "net_poll h (Suc fuel) s = Some t"
    obtain len buf u where r: "rtl_recv h (pkt_buf s) s = (len, buf, u)"
      by (cases "rtl_recv h (pkt_buf s) s")
    have len: "net_upto 0 s \<Longrightarrow> length buf = 1518"
      using length_rtl_recv [of h "pkt_buf s" s] r by (simp add: net_upto_def)
    have su: "net_step s (u\<lparr>pkt_buf := buf\<rparr>)"
      using net_step_rtl_recv [of s h "pkt_buf s"] len by (intro net_step_pkt_buf) (simp_all add: r)
    show "net_step s t"
    proof (cases "0 < len")
      case True
      then obtain v where v: "eth_process (net_poll h fuel) h buf len (u\<lparr>pkt_buf := buf\<rparr>) = Some v"
          and n: "net_poll h fuel v = Some t"
        using t by (simp add: r bind_eq_Some_conv) blast
      have uv: "net_step (u\<lparr>pkt_buf := buf\<rparr>) v"
        by (rule poller.eth_process_step [OF Suc _ v]) (simp add: net_upto_def)
      show ?thesis by (rule net_step_trans [OF su net_step_trans [OF uv poller.step [OF Suc n]]])
    next
      case False
      then have "t = u\<lparr>pkt_buf := buf\<rparr>" using t by (simp add: r)
      then show ?thesis using su by simp
    qed
  qed
qed

interpretation np: poller "net_poll h fuel" for h fuel
  by (rule net_poll_poller)

section \<open>Polling returns\<close>

text \<open>A poll function that returns from every good state; what the stack does around it returns too.\<close>

locale returning_poller = poller poll for poll :: "'a netif_scheme \<Rightarrow> 'a netif_scheme option" +
  fixes good :: "'a netif_scheme \<Rightarrow> bool"
  assumes returns: "good s \<Longrightarrow> \<exists>t. poll s = Some t"
    and good_step: "good s \<Longrightarrow> net_step s t \<Longrightarrow> good t"
begin

lemma good_poll: "good s \<Longrightarrow> \<exists>t. poll s = Some t \<and> good t"
  using returns good_step step by blast

lemma arp_wait_returns: "good s \<Longrightarrow> \<exists>t. arp_wait poll n ip s = Some t"
proof (induction n arbitrary: s)
  case (Suc n)
  then obtain u where u: "poll s = Some u" "good u" using good_poll by blast
  then show ?case using Suc.IH [OF u(2)] by simp
qed simp

lemma ip_resolve_returns: "good s \<Longrightarrow> \<exists>m t. ip_resolve poll h ip s = Some (m, t)"
proof -
  assume "good s"
  then have "good (arp_send_request h ip s)" by (rule good_step [OF _ net_step_arp_send_request])
  from arp_wait_returns [OF this, of 500000 ip] show ?thesis by (auto simp: ip_resolve_def)
qed

lemma ip_send_returns: "good s \<Longrightarrow> \<exists>r t. ip_send poll h ip proto payload plen s = Some (r, t)"
proof -
  assume "good s"
  then obtain m u where "ip_resolve poll h ip s = Some (m, u)" using ip_resolve_returns by blast
  then show ?thesis by (cases m) (simp_all add: ip_send_def)
qed

lemma icmp_send_echo_returns: "good s \<Longrightarrow> \<exists>t. icmp_send_echo poll h ip seq s = Some t"
  using ip_send_returns [of s h ip IP_PROTO_ICMP "icmp_echo seq" 16] by (auto simp: icmp_send_echo_def)

lemma icmp_handle_returns: "good s \<Longrightarrow> \<exists>t. icmp_handle poll h src pkt len s = Some t"
proof -
  assume g: "good s"
  obtain r t where "ip_send poll h src IP_PROTO_ICMP (icmp_reply pkt (if 64 < len then 64 else len))
      (if 64 < len then 64 else len) s = Some (r, t)"
    using ip_send_returns [OF g] by blast
  then show ?thesis unfolding icmp_handle_def Let_def by simp
qed

lemma ip_handle_returns: "good s \<Longrightarrow> \<exists>t. ip_handle poll h pkt len s = Some t"
  unfolding ip_handle_def Let_def using icmp_handle_returns by simp

lemma eth_process_returns: "good s \<Longrightarrow> \<exists>t. eth_process poll h fr len s = Some t"
  unfolding eth_process_def Let_def using ip_handle_returns by simp

lemma udp_send_returns: "good s \<Longrightarrow> \<exists>r t. udp_send poll h ip p q d n s = Some (r, t)"
  unfolding udp_send_def using ip_send_returns by simp

lemma ping_wait_returns: "good s \<Longrightarrow> \<exists>t. ping_wait poll n s = Some t"
proof (induction n arbitrary: s)
  case (Suc n)
  then obtain u where u: "poll s = Some u" "good u" using good_poll by blast
  then show ?case using Suc.IH [OF u(2)] by simp
qed simp

lemma ping_one_returns: "good s \<Longrightarrow> \<exists>t. ping_one poll h ip seq s = Some t"
proof -
  assume "good s"
  then have g: "good (s\<lparr>icmp_echo_received := False\<rparr>)" by (rule good_step [OF _ net_step_icmp_flags(2)])
  then obtain u where u: "icmp_send_echo poll h ip seq (s\<lparr>icmp_echo_received := False\<rparr>) = Some u"
    using icmp_send_echo_returns by blast
  then have "good u" by (rule good_step [OF g icmp_send_echo_step])
  then obtain v where "ping_wait poll 2000000 u = Some v" using ping_wait_returns by blast
  with u show ?thesis by (simp add: ping_one_def Let_def)
qed

lemma ping_one_good: "good s \<Longrightarrow> \<exists>t. ping_one poll h ip seq s = Some t \<and> good t"
  using ping_one_returns good_step ping_one_step by blast

lemma net_cmd_ping_returns: "good s \<Longrightarrow> \<exists>t. net_cmd_ping poll h ip s = Some t"
proof -
  let ?s = "kprint ('' with 4 packets:'' @ [NL]) (kprint_ip ip (kprint ''PING '' s))"
  assume "good s"
  then have "good ?s"
    by (rule good_step [OF _ net_step_trans [OF net_step_kprint(1) net_step_trans [OF net_step_kprint(2) net_step_kprint(1)]]])
  then obtain a where a: "ping_one poll h ip 1 ?s = Some a" "good a" using ping_one_good by blast
  then obtain b where b: "ping_one poll h ip 2 a = Some b" "good b" using ping_one_good by blast
  then obtain c where c: "ping_one poll h ip 3 b = Some c" "good c" using ping_one_good by blast
  then obtain d where d: "ping_one poll h ip 4 c = Some d" using ping_one_good by blast
  show ?thesis using a b c d by (simp add: net_cmd_ping_def Let_def)
qed

end

text \<open>The number of times the driver has handed a slot of the ring back to the card, and a card that
  stays quiet after the \<open>n\<close>-th.\<close>

definition is_capr :: "u16 \<Rightarrow> io_event \<Rightarrow> bool" where
  "is_capr b e = (case e of Out p v \<Rightarrow> p = b + ucast RTL_CAPR | In _ _ \<Rightarrow> False)"

definition capr_count :: "u16 \<Rightarrow> io_event list \<Rightarrow> nat" where
  "capr_count b tr = length (filter (is_capr b) tr)"

definition quiet_after :: "nat \<Rightarrow> hw \<Rightarrow> u16 \<Rightarrow> bool" where
  "quiet_after n h b \<longleftrightarrow> (\<forall>tr. n \<le> capr_count b tr \<longrightarrow> hw_in h tr (b + ucast RTL_CR) AND RTL_CR_RXBUFEMPTY \<noteq> 0)"

lemma capr_count_step: "net_step s t \<Longrightarrow> capr_count b (io s) \<le> capr_count b (io t)"
  using net_step_trace [of s t] by (auto simp: capr_count_def)

lemma rtl_recv_progress:
  assumes "rtl_recv h out s = (len, buf, t)" and "0 < len" and "quiet_after n h (net_iobase s)"
  shows "capr_count (net_iobase s) (io s) < n \<and> capr_count (net_iobase s) (io s) < capr_count (net_iobase s) (io t)"
proof -
  let ?b = "net_iobase s"
  let ?a = "s\<lparr>io := In (?b + ucast RTL_CR) (hw_in h (io s) (?b + ucast RTL_CR)) # io s\<rparr>"
  have inb: "rtl_inb h RTL_CR s = (hw_in h (io s) (?b + ucast RTL_CR), ?a)"
    by (simp add: rtl_inb_def read_port_def Let_def)
  have cr: "hw_in h (io s) (?b + ucast RTL_CR) AND RTL_CR_RXBUFEMPTY = 0"
    using assms(1,2) by (auto simp: rtl_recv_def inb Let_def split: if_splits)
  then have "capr_count ?b (io s) < n"
    using assms(3) unfolding quiet_after_def by (meson not_le)
  moreover have "\<exists>v w. t = rtl_outw RTL_CAPR w (?a\<lparr>rx_cur := v\<rparr>)"
    using assms(1) cr by (auto simp: rtl_recv_def inb Let_def split: if_splits)
  then have "capr_count ?b (io s) < capr_count ?b (io t)"
    by (auto simp: rtl_outw_def write_port_def Let_def capr_count_def is_capr_def)
  ultimately show ?thesis by blast
qed

definition polls_enough :: "hw \<Rightarrow> nat \<Rightarrow> nat \<Rightarrow> 'a netif_scheme \<Rightarrow> bool" where
  "polls_enough h n fuel s \<longleftrightarrow>
     quiet_after n h (net_iobase s) \<and> n - capr_count (net_iobase s) (io s) < fuel"

lemma polls_enough_step: "polls_enough h n fuel s \<Longrightarrow> net_step s t \<Longrightarrow> polls_enough h n fuel t"
  using diff_le_mono2 [OF capr_count_step [of s t "net_iobase s"], of n]
  by (auto simp: polls_enough_def net_step_frame)

lemma polls_enough_more: "polls_enough h n fuel s \<Longrightarrow> fuel \<le> fuel' \<Longrightarrow> polls_enough h n fuel' s"
  by (simp add: polls_enough_def)

lemma net_poll_returning: "returning_poller (net_poll h fuel) (polls_enough h n fuel)"
proof (induction fuel)
  case 0
  show ?case
    by (intro returning_poller.intro returning_poller_axioms.intro net_poll_poller)
       (simp_all add: polls_enough_def)
next
  case (Suc fuel)
  have ret: "\<exists>t. net_poll h (Suc fuel) s = Some t" if e: "polls_enough h n (Suc fuel) s" for s :: "'a netif_scheme"
  proof -
    obtain len buf u where r: "rtl_recv h (pkt_buf s) s = (len, buf, u)"
      by (cases "rtl_recv h (pkt_buf s) s")
    show ?thesis
    proof (cases "0 < len")
      case True
      let ?v = "u\<lparr>pkt_buf := buf\<rparr>"
      have su: "net_step s u" using net_step_rtl_recv [of s h "pkt_buf s"] by (simp add: r)
      have b: "net_iobase u = net_iobase s" by (rule net_step_frame(1) [OF su])
      have "quiet_after n h (net_iobase s)" using e by (simp add: polls_enough_def)
      from rtl_recv_progress [OF r True this] have g: "polls_enough h n fuel ?v"
        using e by (simp add: polls_enough_def b) linarith
      obtain w where w: "eth_process (net_poll h fuel) h buf len ?v = Some w"
        using returning_poller.eth_process_returns [OF Suc g] by blast
      have "net_step ?v w"
        by (rule poller.eth_process_step [OF net_poll_poller _ w]) (simp add: net_upto_def)
      then have "polls_enough h n fuel w" by (rule polls_enough_step [OF g])
      then obtain t where "net_poll h fuel w = Some t"
        using returning_poller.returns [OF Suc] by blast
      then show ?thesis using True w by (simp add: r)
    next
      case False
      then show ?thesis by (simp add: r)
    qed
  qed
  show ?case
    unfolding returning_poller_def returning_poller_axioms_def
    using net_poll_poller ret polls_enough_step by blast
qed

interpretation nr: returning_poller "net_poll h fuel" "polls_enough h n fuel" for h fuel n
  by (rule net_poll_returning)

text \<open>C8: polling terminates. If the card delivers at most \<open>n\<close> more slots (it reports an empty ring
  once the driver has handed back \<open>n\<close> slots in all), \<open>net_poll\<close> returns within a nesting of
  \<open>n + 1\<close>, whatever the frames contain and however the echo replies and address resolutions they
  cause nest; so does the ping command.\<close>

theorem net_poll_returns:
  assumes "quiet_after n h (net_iobase s)" and "n < fuel"
  shows "(\<exists>t. net_poll h fuel s = Some t) \<and> (\<exists>t. net_cmd_ping (net_poll h fuel) h target s = Some t)"
proof -
  have "polls_enough h n fuel s" using assms by (simp add: polls_enough_def)
  then show ?thesis using nr.returns nr.net_cmd_ping_returns by blast
qed

theorem net_poll_returns_witness:
  "(\<exists>t. net_poll idle_board 1 blank_net = Some t) \<and> (\<exists>t. net_cmd_ping (net_poll idle_board 1) idle_board 0 blank_net = Some t)"
  by (rule net_poll_returns [of 0]) (simp_all add: quiet_after_def idle_board_def RTL_CR_RXBUFEMPTY_def)

text \<open>C9: whatever arrives from the network, a poll keeps the network globals well-formed (array
  lengths, ring pointer and transmit index in range, ARP cache consistent), touches neither the file
  system nor the page tables, the swap store or the machine's own addresses, and never rewinds the
  port trace.\<close>

theorem net_poll_safe:
  assumes "net_poll h fuel s = Some t" and "net_inv s"
  shows "net_inv t \<and> fs_table t = fs_table s \<and> fs_cwd t = fs_cwd s \<and> swap_storage t = swap_storage s
    \<and> page_directory t = page_directory s \<and> first_page_table t = first_page_table s
    \<and> free_mem_start t = free_mem_start s \<and> net_ip t = net_ip s \<and> net_mac t = net_mac s
    \<and> net_iobase t = net_iobase s \<and> (\<exists>i. io t = i @ io s)"
  using np.step [OF assms(1)] assms(2) net_step_trace by (simp add: net_step_frame net_step_inv) blast

theorem net_poll_safe_witness: "\<exists>t. net_poll idle_board 1 blank_net = Some t \<and> net_inv t"
proof -
  have "polls_enough idle_board 0 1 blank_net"
    by (simp add: polls_enough_def quiet_after_def idle_board_def RTL_CR_RXBUFEMPTY_def)
  then obtain t where t: "net_poll idle_board 1 blank_net = Some t" using nr.returns by blast
  then show ?thesis using net_poll_safe [OF t blank_net(1)] by blast
qed

end
