(* ===== verification/Ip_Spec.thy ===== *)
theory Ip_Spec
  imports Ip
begin

text \<open>
  What the IP layer, ICMP and UDP of \<open>net.c\<close> guarantee: the frames they build, the datagrams they
  accept, and a ping between two machines that run this code.
\<close>

section \<open>Frames\<close>

definition ip_view :: "u8 list \<Rightarrow> u8 \<times> u16 \<times> u8 \<times> u8 \<times> u32 \<times> u32" where
  "ip_view p = (p ! 0, ntohs (load16 p 2), p ! 8, p ! 9, ntohl (load32 p 12), ntohl (load32 p 16))"

lemma cksum_loop_take: "len \<le> length p \<Longrightarrow> cksum_loop (take len p) len sm = cksum_loop p len sm"
  by (induction p len sm rule: cksum_loop.induct) auto

lemma ip_checksum_take: "len \<le> length p \<Longrightarrow> ip_checksum (take len p) len = ip_checksum p len"
  by (simp add: ip_checksum_def cksum_loop_take)

lemma ip_checksum_cong: "len \<le> length p \<Longrightarrow> len \<le> length q \<Longrightarrow> take len p = take len q \<Longrightarrow>
    ip_checksum p len = ip_checksum q len"
  by (metis ip_checksum_take)

lemma drop_store16: "n \<le> off \<Longrightarrow> drop n (store16 off v b) = store16 (off - n) v (drop n b)"
  by (simp add: store16_def drop_update_swap Suc_diff_le)

lemma store16_same: "off + 1 < length b \<Longrightarrow> load16 b off = v \<Longrightarrow> store16 off v b = b"
proof (rule nth_equalityI)
  fix i assume "off + 1 < length b" "load16 b off = v" "i < length (store16 off v b)"
  moreover have "ucast (ucast x OR push_bit 8 (ucast y) :: u16) = x"
      "ucast (drop_bit 8 (ucast x OR push_bit 8 (ucast y) :: u16)) = y" for x y :: u8
    by (rule bit_word_eqI, auto simp: bit_simps bit_high)+
  ultimately show "store16 off v b ! i = b ! i"
    by (auto simp: store16_def load16_def nth_list_update)
qed simp

text \<open>The header stores before the checksum, and the whole frame in terms of them.\<close>

definition ip_header :: "u8 list \<Rightarrow> u32 \<Rightarrow> u8 \<Rightarrow> u16 \<Rightarrow> 'a netif_scheme \<Rightarrow> u8 list" where
  "ip_header dst_mac dst_ip proto plen s =
     (let f = eth_build (replicate 1500 0) dst_mac ETH_TYPE_IP s;
          f = f[14 := 0x45, 15 := 0];
          f = store16 16 (htons (IP_HDR + plen)) f;
          f = store16 18 (htons 1) f;
          f = store16 20 0 f;
          f = f[22 := 64, 23 := proto];
          f = store16 24 0 f;
          f = store32 26 (htonl (net_ip s)) f
      in store32 30 (htonl dst_ip) f)"

lemma ip_frame_alt: "ip_frame m ip proto payload plen s =
    (let f = ip_header m ip proto plen s
     in memcpy_n (store16 24 (ip_checksum (drop 14 f) 20) f) 34 payload (unat plen))"
  by (simp add: ip_frame_def ip_header_def Let_def)

lemma ip_header_views:
  fixes m :: "u8 list" and ip :: u32 and proto :: u8 and plen :: u16 and s :: "'a netif_scheme"
  assumes "length m = 6" "length (net_mac s) = 6"
  defines "f \<equiv> ip_header m ip proto plen s"
  shows "length f = 1500" "eth_view f = (m, net_mac s, ETH_TYPE_IP)" "load16 f 24 = 0"
    "f ! 14 = 0x45" "load16 f 16 = htons (IP_HDR + plen)" "f ! 22 = 64" "f ! 23 = proto"
    "load32 f 26 = htonl (net_ip s)" "load32 f 30 = htonl ip"
proof -
  let ?e = "eth_build (replicate 1500 0) m ETH_TYPE_IP s"
  have e: "eth_view ?e = (m, net_mac s, ETH_TYPE_IP)" using assms(1,2) by (simp add: eth_view_build)
  have "eth_view f = eth_view ?e"
    by (simp add: f_def ip_header_def Let_def eth_view_def packet_simps)
  then show "eth_view f = (m, net_mac s, ETH_TYPE_IP)" using e by simp
  show "length f = 1500" "load16 f 24 = 0" "f ! 14 = 0x45" "load16 f 16 = htons (IP_HDR + plen)"
      "f ! 22 = 64" "f ! 23 = proto" "load32 f 26 = htonl (net_ip s)" "load32 f 30 = htonl ip"
    by (simp_all add: f_def ip_header_def Let_def packet_simps)
qed

lemma ip_frame_views:
  fixes m payload :: "u8 list" and ip :: u32 and proto :: u8 and plen :: u16 and s :: "'a netif_scheme"
  assumes "length m = 6" "length (net_mac s) = 6" and n: "unat plen \<le> 1466" "unat plen \<le> length payload"
  defines "f \<equiv> ip_frame m ip proto payload plen s"
  shows "length f = 1500" "eth_view f = (m, net_mac s, ETH_TYPE_IP)"
    "ip_view (drop 14 f) = (0x45, IP_HDR + plen, 64, proto, net_ip s, ip)"
    "ip_checksum (drop 14 f) 20 = 0" "bytes f 34 (unat plen) = take (unat plen) payload"
proof -
  define g where "g = ip_header m ip proto plen s"
  note G = ip_header_views [OF assms(1,2), of ip proto plen, folded g_def]
  define c where "c = ip_checksum (drop 14 g) 20"
  have f: "f = memcpy_n (store16 24 c g) 34 payload (unat plen)"
    by (simp add: f_def ip_frame_alt g_def [symmetric] c_def Let_def)
  show "length f = 1500" by (simp add: f G)
  show "eth_view f = (m, net_mac s, ETH_TYPE_IP)"
    using G(1,2) n unfolding f by (simp add: eth_view_def packet_simps)
  show "bytes f 34 (unat plen) = take (unat plen) payload"
    unfolding f using G(1) n by (intro bytes_memcpy_same) simp_all
  show "ip_view (drop 14 f) = (0x45, IP_HDR + plen, 64, proto, net_ip s, ip)"
    using G n unfolding f by (simp add: ip_view_def packet_simps drop_load16 drop_load32)
  have d: "load16 (drop 14 g) 10 = 0" "length (drop 14 g) = 1486" using G(1,3) by (simp_all add: drop_load16)
  have t: "take 20 (drop 14 f) = take 20 (store16 10 c (drop 14 g))"
  proof -
    have ds: "store16 10 c (drop 14 g) = drop 14 (store16 24 c g)" by (simp add: drop_store16)
    show ?thesis using G(1) n unfolding f ds by (simp add: memcpy_n_eq take_drop)
  qed
  have "ip_checksum (store16 10 c (drop 14 g)) 20 = 0"
    using ip_checksum_verifies_fact [of 10 20 "drop 14 g"] d by (simp add: c_def store16_same)
  moreover have "ip_checksum (drop 14 f) 20 = ip_checksum (store16 10 c (drop 14 g)) 20"
    by (rule ip_checksum_cong [OF _ _ t]) (simp_all add: f G(1))
  ultimately show "ip_checksum (drop 14 f) 20 = 0" by simp
qed

section \<open>Sending to a known host\<close>

lemma ip_send_known:
  assumes "arp_lookup dst s = Some m \<or> dst = 0xFFFFFFFF \<and> m = bcast" and "dst = 0xFFFFFFFF \<longrightarrow> m = bcast"
  shows "ip_send poll h dst proto payload plen s
    = Some (net_send h (ip_frame m dst proto payload plen s) (ETH_HDR + (IP_HDR + plen)) s)"
  using assms by (auto simp: ip_send_def ip_resolve_def)

lemma net_inv_lookup_mac: "net_inv s \<Longrightarrow> arp_lookup ip s = Some m \<Longrightarrow> length m = 6"
proof -
  assume inv: "net_inv s" and l: "arp_lookup ip s = Some m"
  then have ok: "cache_ok (arp_cache s)" by (simp add: net_inv_def)
  then obtain i where i: "i < ARP_CACHE_SIZE" "a_mac (arp_cache s ! i) = m"
    using l unfolding arp_lookup_def cache_get_Some_iff [OF ok] by blast
  then have "arp_cache s ! i \<in> set (arp_cache s)" using cache_ok_length [OF ok] by simp
  then show ?thesis using inv i(2) by (auto simp: net_inv_def)
qed

lemma frame_size: "unat plen \<le> 1466 \<Longrightarrow> ETH_HDR + (IP_HDR + plen) = of_nat (34 + unat plen)"
  by (simp add: ETH_HDR_def IP_HDR_def)

lemma ip_send_delivers_fact:
  assumes inv: "net_inv s" and up: "net_iobase s \<noteq> 0" and dst: "dst \<noteq> 0xFFFFFFFF" "arp_lookup dst s = Some m"
    and n: "unat plen \<le> 1466" "unat plen \<le> length payload"
  shows "\<exists>t f. ip_send poll h dst proto payload plen s = Some (0, t) \<and> net_inv t
    \<and> f = take (34 + unat plen) (tx_buf t ! tx_cur s)
    \<and> eth_view f = (m, net_mac s, ETH_TYPE_IP)
    \<and> ip_view (drop 14 f) = (0x45, 20 + plen, 64, proto, net_ip s, dst)
    \<and> ip_checksum (drop 14 f) 20 = 0
    \<and> drop 34 f = take (unat plen) payload"
proof -
  let ?f = "ip_frame m dst proto payload plen s"
  have l: "length m = 6" "length (net_mac s) = 6"
    using net_inv_lookup_mac [OF inv dst(2)] inv by (simp_all add: net_inv_def)
  note V = ip_frame_views [OF l n, of dst proto]
  have len: "unat (of_nat (34 + unat plen) :: u16) = 34 + unat plen" using n(1) by (intro unat_of_nat_small) simp
  have le: "\<not> 1536 < (of_nat (34 + unat plen) :: u16)"
    unfolding word_less_nat_alt len using n(1) by simp
  obtain t where t: "net_send h ?f (of_nat (34 + unat plen)) s = (0, t)" "net_inv t"
      "take (34 + unat plen) (tx_buf t ! tx_cur s) = take (34 + unat plen) ?f"
    using net_send_frame_fact [OF inv, of "of_nat (34 + unat plen)" ?f h] up le n(1) unfolding len V(1) by auto
  let ?g = "take (34 + unat plen) ?f"
  have v: "eth_view ?g = eth_view ?f" "ip_view (drop 14 ?g) = ip_view (drop 14 ?f)"
    using n(1) by (simp_all add: eth_view_def ip_view_def bytes_def load16_def load32_def V(1) min_def drop_take)
  have c: "ip_checksum (drop 14 ?g) 20 = ip_checksum (drop 14 ?f) 20"
    by (rule ip_checksum_cong) (use n(1) in \<open>simp_all add: V(1) drop_take min_def\<close>)
  have d: "drop 34 ?g = take (unat plen) payload"
    using V(5) by (simp add: drop_take bytes_def)
  have "ip_send poll h dst proto payload plen s = Some (0, t)"
    using ip_send_known [of dst s m poll h proto payload plen] dst t(1) by (simp add: frame_size [OF n(1)])
  then show ?thesis using t V c d v by (intro exI [of _ t] exI [of _ ?g]) (simp add: IP_HDR_def)
qed

text \<open>C13: a datagram to a host whose hardware address is known goes out as one well-formed frame: the
  transmit buffer then holds the Ethernet header with the host's and the machine's addresses, an IP
  header of 20 bytes with the right length, protocol and addresses whose checksum verifies, and
  the payload, unchanged.\<close>

theorem ip_send_delivers:
  assumes inv: "net_inv s" and up: "net_iobase s \<noteq> 0" and dst: "dst \<noteq> 0xFFFFFFFF" "arp_lookup dst s = Some m"
    and n: "unat plen \<le> 1466" "unat plen \<le> length payload"
  shows "\<exists>t f. ip_send poll h dst proto payload plen s = Some (0, t) \<and> net_inv t
    \<and> f = take (34 + unat plen) (tx_buf t ! tx_cur s)
    \<and> eth_view f = (m, net_mac s, ETH_TYPE_IP)
    \<and> ip_view (drop 14 f) = (0x45, 20 + plen, 64, proto, net_ip s, dst)
    \<and> ip_checksum (drop 14 f) 20 = 0
    \<and> drop 34 f = take (unat plen) payload"
  using assms by (rule ip_send_delivers_fact)

section \<open>Receiving\<close>

lemma load_append:
  "off + 1 < length f \<Longrightarrow> load16 (f @ j) off = load16 f off" "off + 3 < length f \<Longrightarrow> load32 (f @ j) off = load32 f off"
  by (simp_all add: load16_def load32_def nth_append)

lemma ip_receive:
  assumes e: "eth_view f = (x, y, ETH_TYPE_IP)"
    and v: "ip_view (drop 14 f) = (0x45, 20 + plen, ttl, proto, src, net_ip s)"
    and len: "34 \<le> length f" "34 \<le> len"
  shows "eth_process poll h (f @ junk) len s
    = (if proto = IP_PROTO_ICMP then icmp_handle poll h src (drop 34 f @ junk) plen s else Some s)"
proof -
  let ?p = "drop 14 f @ junk"
  have ty: "ntohs (load16 (f @ junk) 12) = ETH_TYPE_IP"
    using e len(1) by (simp add: eth_view_def load_append)
  have p: "?p ! 0 = 0x45" "ntohs (load16 ?p 2) = 20 + plen" "?p ! 9 = proto"
      "ntohl (load32 ?p 12) = src" "ntohl (load32 ?p 16) = net_ip s"
  proof -
    have "9 < length f - 14" "0 < length f - 14" using len(1) by simp_all
    then show "?p ! 0 = 0x45" "ntohs (load16 ?p 2) = 20 + plen" "?p ! 9 = proto"
        "ntohl (load32 ?p 12) = src" "ntohl (load32 ?p 16) = net_ip s"
      using v len(1) by (simp_all add: ip_view_def load_append nth_append)
  qed
  have d: "drop 20 ?p = drop 34 f @ junk" using len(1) by simp
  have l: "\<not> len < ETH_HDR" "\<not> len - ETH_HDR < IP_HDR"
  proof -
    have "34 \<le> unat len" using len(2) by (simp add: word_le_nat_alt)
    moreover have "(14 :: u16) \<le> len" using calculation by (simp add: word_le_nat_alt)
    ultimately show "\<not> len < ETH_HDR" "\<not> len - ETH_HDR < IP_HDR"
      by (simp_all add: ETH_HDR_def IP_HDR_def word_less_nat_alt unat_sub)
  qed
  have "eth_process poll h (f @ junk) len s = ip_handle poll h ?p (len - ETH_HDR) s"
    using l(1) ty len(1) by (simp add: eth_process_def ETH_TYPE_IP_def ETH_TYPE_ARP_def)
  also have "\<dots> = (if proto = IP_PROTO_ICMP then icmp_handle poll h src (drop 34 f @ junk) plen s else Some s)"
    using l(2) p d by (simp add: ip_handle_def Let_def udp_handle_def)
  finally show ?thesis .
qed

text \<open>C31: what a datagram must be to have any effect: at least 20 bytes long, with a header length of
  at least 20, addressed to this machine, carrying ICMP of at least 8 bytes, and an echo request
  or an echo reply. Every other datagram, all UDP included, leaves the machine unchanged.\<close>

theorem ip_handle_filter:
  assumes "ip_handle poll h pkt len s \<noteq> Some s"
  defines "ihl \<equiv> (pkt ! 0 AND 0x0F) * 4"
  shows "20 \<le> len \<and> 20 \<le> ihl \<and> ntohl (load32 pkt 16) = net_ip s \<and> pkt ! 9 = 1
    \<and> 8 \<le> ntohs (load16 pkt 2) - ucast ihl \<and> drop (unat ihl) pkt ! 0 \<in> {8, 0}"
proof -
  define pay where "pay = drop (unat ihl) pkt"
  define plen where "plen = ntohs (load16 pkt 2) - ucast ihl"
  have n: "ip_handle poll h pkt len s \<noteq> Some s" by (rule assms(1))
  note n = n [unfolded ip_handle_def Let_def udp_handle_def ihl_def [symmetric], folded pay_def plen_def]
  have "\<not> len < IP_HDR" "\<not> ihl < 20" "\<not> ntohl (load32 pkt 16) \<noteq> net_ip s" "pkt ! 9 = IP_PROTO_ICMP"
    using n by (auto split: if_splits)
  moreover have "icmp_handle poll h (ntohl (load32 pkt 12)) pay plen s \<noteq> Some s" using n by (auto split: if_splits)
  then have "\<not> plen < ICMP_HDR" "pay ! 0 = ICMP_ECHO_REQUEST \<or> pay ! 0 = ICMP_ECHO_REPLY"
    by (auto simp: icmp_handle_def split: if_splits)
  ultimately show ?thesis
    unfolding pay_def [symmetric] plen_def [symmetric]
    by (simp add: IP_HDR_def ICMP_HDR_def IP_PROTO_ICMP_def ICMP_ECHO_REQUEST_def ICMP_ECHO_REPLY_def not_less)
qed

section \<open>Ping\<close>

lemma icmp_echo_fields:
  "length (icmp_echo seq) = 16" "icmp_echo seq ! 0 = 8" "load16 (icmp_echo seq) 6 = htons seq"
  "ip_checksum (icmp_echo seq) 16 = 0"
proof -
  define p where "p = store16 6 (htons seq) (store16 4 (htons 0x4D4F)
      ((memset_n (replicate 16 0) 0 0 16)[0 := ICMP_ECHO_REQUEST, 1 := 0]))"
  have e: "icmp_echo seq = store16 2 (ip_checksum (store16 2 0 p) 16) (store16 2 0 p)"
    by (simp add: icmp_echo_def p_def Let_def)
  have len: "length p = 16" by (simp add: p_def)
  have ss: "store16 2 v (store16 2 w p) = store16 2 v p" for v w
    by (simp add: store16_def list_update_swap)
  show "length (icmp_echo seq) = 16" by (simp add: e len)
  show "icmp_echo seq ! 0 = 8" "load16 (icmp_echo seq) 6 = htons seq"
    unfolding e p_def by (simp_all add: packet_simps ICMP_ECHO_REQUEST_def)
  show "ip_checksum (icmp_echo seq) 16 = 0"
    unfolding e ss using ip_checksum_verifies_fact [of 2 16 p] len by simp
qed

lemma icmp_reply_fields:
  assumes "unat len \<le> 64" "unat len \<le> length pkt" "8 \<le> unat len"
  shows "length (icmp_reply pkt len) = 64" "icmp_reply pkt len ! 0 = 0"
    "ip_checksum (icmp_reply pkt len) (unat len) = 0"
    "1 \<le> i \<Longrightarrow> i < unat len \<Longrightarrow> i \<notin> {2, 3} \<Longrightarrow> icmp_reply pkt len ! i = pkt ! i"
proof -
  define p where "p = (memcpy_n (replicate 64 0) 0 pkt (unat len))[0 := ICMP_ECHO_REPLY]"
  have e: "icmp_reply pkt len = store16 2 (ip_checksum (store16 2 0 p) (unat len)) (store16 2 0 p)"
    by (simp add: icmp_reply_def p_def Let_def)
  have len: "length p = 64" by (simp add: p_def)
  have ss: "store16 2 v (store16 2 w p) = store16 2 v p" for v w
    by (simp add: store16_def list_update_swap)
  show "length (icmp_reply pkt len) = 64" by (simp add: e len)
  show "icmp_reply pkt len ! 0 = 0" unfolding e p_def by (simp add: packet_simps ICMP_ECHO_REPLY_def)
  show "ip_checksum (icmp_reply pkt len) (unat len) = 0"
    unfolding e ss using ip_checksum_verifies_fact [of 2 "unat len" p] len assms by simp
  show "1 \<le> i \<Longrightarrow> i < unat len \<Longrightarrow> i \<notin> {2, 3} \<Longrightarrow> icmp_reply pkt len ! i = pkt ! i"
    using assms unfolding e p_def by (simp add: packet_simps)
qed

text \<open>Handling an echo request from a host whose hardware address is known.\<close>

lemma icmp_request_reply:
  assumes inv: "net_inv s" and up: "net_iobase s \<noteq> 0" and src: "src \<noteq> 0xFFFFFFFF" "arp_lookup src s = Some m"
    and req: "pkt ! 0 = ICMP_ECHO_REQUEST" and n: "8 \<le> len" "len \<le> 64" "unat len \<le> length pkt"
  shows "\<exists>t f. icmp_handle poll h src pkt len s = Some t \<and> net_inv t
    \<and> f = take (34 + unat len) (tx_buf t ! tx_cur s)
    \<and> eth_view f = (m, net_mac s, ETH_TYPE_IP)
    \<and> ip_view (drop 14 f) = (0x45, 20 + len, 64, IP_PROTO_ICMP, net_ip s, src)
    \<and> ip_checksum (drop 14 f) 20 = 0 \<and> drop 34 f = take (unat len) (icmp_reply pkt len)"
proof -
  have l: "unat len \<le> 64" "8 \<le> unat len" using n by (simp_all add: word_le_nat_alt)
  have "length (icmp_reply pkt len) = 64" by (rule icmp_reply_fields(1) [OF l(1) n(3) l(2)])
  then obtain t f where "ip_send poll h src IP_PROTO_ICMP (icmp_reply pkt len) len s = Some (0, t)" "net_inv t"
      "f = take (34 + unat len) (tx_buf t ! tx_cur s)"
      "eth_view f = (m, net_mac s, ETH_TYPE_IP)"
      "ip_view (drop 14 f) = (0x45, 20 + len, 64, IP_PROTO_ICMP, net_ip s, src)"
      "ip_checksum (drop 14 f) 20 = 0" "drop 34 f = take (unat len) (icmp_reply pkt len)"
    using ip_send_delivers_fact [OF inv up src, of len "icmp_reply pkt len" poll h IP_PROTO_ICMP] l by auto
  moreover have "\<not> 64 < len" "\<not> len < ICMP_HDR" using n(1,2) by (simp_all add: ICMP_HDR_def not_less)
  ultimately show ?thesis
    using req by (intro exI [of _ t] exI [of _ f]) (simp add: icmp_handle_def)
qed

text \<open>C4: a ping between two machines that run this stack and know each other's hardware address. The
  frame machine \<open>a\<close> leaves in its transmit buffer makes machine \<open>b\<close> answer with a frame to \<open>a\<close>;
  delivered to \<open>a\<close>, that frame marks the echo as received, with the sequence number \<open>a\<close> sent.
  What stands behind the frames in the receivers' buffers does not matter.\<close>

theorem ping_roundtrip:
  fixes a a' :: "'a netif_scheme" and b :: "'b netif_scheme" and ha hb :: hw
  assumes a: "net_inv a" "net_iobase a \<noteq> 0" "arp_lookup (net_ip b) a = Some (net_mac b)" "net_ip a \<noteq> 0xFFFFFFFF"
    and b: "net_inv b" "net_iobase b \<noteq> 0" "arp_lookup (net_ip a) b = Some (net_mac a)" "net_ip b \<noteq> 0xFFFFFFFF"
    and a': "net_ip a' = net_ip a"
  shows "\<exists>a1 b1 a2. icmp_send_echo polla ha (net_ip b) seq a = Some a1
    \<and> eth_process pollb hb (take 50 (tx_buf a1 ! tx_cur a) @ junk) 50 b = Some b1
    \<and> eth_process polla ha (take 50 (tx_buf b1 ! tx_cur b) @ junk') 50 a' = Some a2
    \<and> icmp_echo_received a2 \<and> icmp_last_seq a2 = seq"
proof -
  obtain a1 f where a1: "icmp_send_echo polla ha (net_ip b) seq a = Some a1"
      and f: "f = take 50 (tx_buf a1 ! tx_cur a)" "eth_view f = (net_mac b, net_mac a, ETH_TYPE_IP)"
      "ip_view (drop 14 f) = (0x45, 20 + 16, 64, IP_PROTO_ICMP, net_ip a, net_ip b)"
      "drop 34 f = icmp_echo seq"
    using ip_send_delivers_fact [OF a(1,2) b(4) a(3), of 16 "icmp_echo seq" polla ha IP_PROTO_ICMP]
    by (auto simp: icmp_send_echo_def icmp_echo_fields)
  have "length (drop 34 f) = 16" unfolding f(4) by (rule icmp_echo_fields(1))
  then have lf: "34 \<le> length f" by simp
  let ?p = "icmp_echo seq @ junk"
  have hb: "eth_process pollb hb (f @ junk) 50 b = icmp_handle pollb hb (net_ip a) ?p 16 b"
    using ip_receive [OF f(2,3) lf, of 50 pollb hb junk] by (simp add: f(4))
  have req: "?p ! 0 = ICMP_ECHO_REQUEST"
    by (simp add: nth_append icmp_echo_fields ICMP_ECHO_REQUEST_def)
  obtain b1 g where b1: "icmp_handle pollb hb (net_ip a) ?p 16 b = Some b1"
      and g: "g = take 50 (tx_buf b1 ! tx_cur b)" "eth_view g = (net_mac a, net_mac b, ETH_TYPE_IP)"
      "ip_view (drop 14 g) = (0x45, 20 + 16, 64, IP_PROTO_ICMP, net_ip b, net_ip a)"
      "drop 34 g = take 16 (icmp_reply ?p 16)"
    using icmp_request_reply [OF b(1,2) a(4) b(3) req, of 16 pollb hb] by (auto simp: icmp_echo_fields)
  have r: "length (icmp_reply ?p 16) = 64" "icmp_reply ?p 16 ! 0 = 0"
      "\<And>i. 1 \<le> i \<Longrightarrow> i < 16 \<Longrightarrow> i \<notin> {2, 3} \<Longrightarrow> icmp_reply ?p 16 ! i = ?p ! i"
    using icmp_reply_fields [of 16 ?p] by (simp_all add: icmp_echo_fields)
  have "length (drop 34 g) = 16" unfolding g(4) using r(1) by simp
  then have lg: "34 \<le> length g" by simp
  let ?q = "take 16 (icmp_reply ?p 16) @ junk'"
  have ha: "eth_process polla ha (g @ junk') 50 a' = icmp_handle polla ha (net_ip b) ?q 16 a'"
    using ip_receive [OF g(2) _ lg, of 16 64 IP_PROTO_ICMP "net_ip b" a' 50 polla ha junk'] g(3)
    by (simp add: g(4) a')
  have q: "?q ! 0 = 0" using r(1,2) by (simp add: nth_append)
  have "load16 ?q 6 = htons seq"
    using r(1) r(3) [of 6] r(3) [of 7] icmp_echo_fields(1,3) [of seq]
    by (simp add: load16_def nth_append)
  then have "icmp_handle polla ha (net_ip b) ?q 16 a'
      = Some (a'\<lparr>icmp_echo_received := True, icmp_last_seq := seq\<rparr>)"
    using q by (simp add: icmp_handle_def ICMP_HDR_def ICMP_ECHO_REQUEST_def ICMP_ECHO_REPLY_def)
  then show ?thesis
    using a1 b1 hb ha unfolding f(1) g(1)
    by (intro exI [of _ a1] exI [of _ b1] exI [of _ "a'\<lparr>icmp_echo_received := True, icmp_last_seq := seq\<rparr>"]) simp
qed

text \<open>C32: the length of an ICMP message is taken from the IP header and never compared with the length
  of the frame. A frame of 42 bytes that announces a message of 64 bytes is answered with 56 bytes that
  were not in it: the bytes that an earlier frame left in the receive buffer.\<close>

theorem icmp_reply_stale_bytes:
  assumes inv: "net_inv s" and up: "net_iobase s \<noteq> 0" and src: "src \<noteq> 0xFFFFFFFF" "arp_lookup src s = Some m"
    and f: "length f = 42" "eth_view f = (x, y, ETH_TYPE_IP)"
      "ip_view (drop 14 f) = (0x45, 20 + 64, ttl, IP_PROTO_ICMP, src, net_ip s)" "f ! 34 = ICMP_ECHO_REQUEST"
    and stale: "56 \<le> length junk"
  shows "\<exists>t. eth_process poll h (f @ junk) 42 s = Some t \<and> bytes (tx_buf t ! tx_cur s) 42 56 = take 56 junk"
proof -
  let ?p = "drop 34 f @ junk"
  have e: "eth_process poll h (f @ junk) 42 s = icmp_handle poll h src ?p 64 s"
    using ip_receive [OF f(2,3), of 42 poll h junk] f(1) by simp
  have req: "?p ! 0 = ICMP_ECHO_REQUEST" using f(1,4) by (simp add: nth_append)
  obtain t g where t: "icmp_handle poll h src ?p 64 s = Some t"
      and g: "g = take 98 (tx_buf t ! tx_cur s)" "drop 34 g = take 64 (icmp_reply ?p 64)"
    using icmp_request_reply [OF inv up src req, of 64 poll h] f(1) stale by auto
  have r: "length (icmp_reply ?p 64) = 64"
      "\<And>i. 1 \<le> i \<Longrightarrow> i < 64 \<Longrightarrow> i \<notin> {2, 3} \<Longrightarrow> icmp_reply ?p 64 ! i = ?p ! i"
    using icmp_reply_fields [of 64 ?p] f(1) stale by simp_all
  have "drop 8 (drop 34 g) = drop 8 (icmp_reply ?p 64)" using g(2) r(1) by simp
  moreover have "drop 8 (icmp_reply ?p 64) = take 56 junk"
    by (rule nth_equalityI) (use r f(1) stale in \<open>auto simp: nth_append\<close>)
  moreover have "bytes (tx_buf t ! tx_cur s) 42 56 = drop 8 (drop 34 g)"
    unfolding g(1) by (simp add: bytes_def drop_take)
  ultimately show ?thesis using e t by simp
qed

section \<open>Examples\<close>

text \<open>Two hosts that know each other.\<close>

definition host :: "u32 \<Rightarrow> u8 list \<Rightarrow> u32 \<Rightarrow> u8 list \<Rightarrow> netif" where
  "host ip mac peer pmac =
     arp_cache_insert peer pmac (blank_net\<lparr>net_iobase := 0xC000, net_ip := ip, net_mac := mac\<rparr>)"

lemma host:
  assumes "length mac = 6" "length pmac = 6"
  shows "net_inv (host ip mac peer pmac)" "net_iobase (host ip mac peer pmac) = 0xC000"
    "net_ip (host ip mac peer pmac) = ip" "net_mac (host ip mac peer pmac) = mac"
    "arp_lookup peer (host ip mac peer pmac) = Some pmac"
proof -
  have "net_inv (blank_net\<lparr>net_iobase := 0xC000, net_ip := ip, net_mac := mac\<rparr>)"
    using blank_net(1) assms by (simp add: net_inv_def)
  then show "net_inv (host ip mac peer pmac)" unfolding host_def using assms by (intro net_inv_arp_insert)
  have "cache_ok (arp_cache blank_net)" using blank_net(1) by (simp add: net_inv_def)
  then show "arp_lookup peer (host ip mac peer pmac) = Some pmac"
    by (simp add: host_def arp_lookup_def cache_get_put_same)
qed (simp_all add: host_def)

definition mac_a :: "u8 list" where "mac_a = [2, 0, 0, 0, 0, 1]"
definition mac_b :: "u8 list" where "mac_b = [2, 0, 0, 0, 0, 2]"
definition host_a :: netif where "host_a = host (MAKE_IP 10 0 2 15) mac_a (MAKE_IP 10 0 2 2) mac_b"
definition host_b :: netif where "host_b = host (MAKE_IP 10 0 2 2) mac_b (MAKE_IP 10 0 2 15) mac_a"

lemma macs [simp]: "length mac_a = 6" "length mac_b = 6"
  by (simp_all add: mac_a_def mac_b_def)

lemmas host_ab [simp] = host [OF macs, where ip = "MAKE_IP 10 0 2 15" and peer = "MAKE_IP 10 0 2 2", folded host_a_def]
  host [OF macs(2,1), where ip = "MAKE_IP 10 0 2 2" and peer = "MAKE_IP 10 0 2 15", folded host_b_def]

lemma unicast [simp]: "MAKE_IP 10 0 2 15 \<noteq> 0xFFFFFFFF" "MAKE_IP 10 0 2 2 \<noteq> 0xFFFFFFFF"
  by (simp_all add: MAKE_IP_def)

theorem ip_send_delivers_witness:
  "\<exists>t f. ip_send (net_poll idle_board 1) idle_board (MAKE_IP 10 0 2 2) 17 [1, 2] 2 host_a = Some (0, t)
    \<and> f = take 36 (tx_buf t ! tx_cur host_a) \<and> drop 34 f = [1, 2]"
  using ip_send_delivers [of host_a "MAKE_IP 10 0 2 2" mac_b 2 "[1, 2]" "net_poll idle_board 1" idle_board 17]
  by auto

theorem ping_roundtrip_witness:
  "\<exists>a1 b1 a2. icmp_send_echo (\<lambda>s. None) idle_board (MAKE_IP 10 0 2 2) 3 host_a = Some a1
    \<and> eth_process (\<lambda>s. None) idle_board (take 50 (tx_buf a1 ! tx_cur host_a) @ []) 50 host_b = Some b1
    \<and> eth_process (\<lambda>s. None) idle_board (take 50 (tx_buf b1 ! tx_cur host_b) @ []) 50 host_a = Some a2
    \<and> icmp_echo_received a2 \<and> icmp_last_seq a2 = 3"
  using ping_roundtrip [of host_a host_b host_a "\<lambda>s. None" idle_board 3 "\<lambda>s. None" idle_board "[]" "[]"] by simp

definition short_request :: "u8 list" where
  "short_request = take 42 (ip_frame mac_b (MAKE_IP 10 0 2 2) 1 (8 # replicate 63 0) 64 host_a)"

theorem icmp_reply_stale_bytes_witness:
  "\<exists>t. eth_process (\<lambda>s. None) idle_board (short_request @ replicate 60 7) 42 host_b = Some t
    \<and> bytes (tx_buf t ! tx_cur host_b) 42 56 = replicate 56 7"
proof -
  let ?f = "ip_frame mac_b (MAKE_IP 10 0 2 2) 1 (8 # replicate 63 0) 64 host_a"
  have V: "length ?f = 1500" "eth_view ?f = (mac_b, mac_a, ETH_TYPE_IP)"
      "ip_view (drop 14 ?f) = (0x45, 20 + 64, 64, 1, MAKE_IP 10 0 2 15, MAKE_IP 10 0 2 2)"
      "bytes ?f 34 64 = 8 # replicate 63 0"
    using ip_frame_views [of mac_b host_a 64 "8 # replicate 63 0" "MAKE_IP 10 0 2 2" 1] by (simp_all add: IP_HDR_def)
  have v: "eth_view short_request = eth_view ?f" "ip_view (drop 14 short_request) = ip_view (drop 14 ?f)"
    by (simp_all add: short_request_def eth_view_def ip_view_def bytes_def load16_def load32_def V(1) min_def drop_take)
  have l: "length short_request = 42" using V(1) by (simp add: short_request_def)
  have "?f ! 34 = bytes ?f 34 64 ! 0" by (simp add: bytes_def V(1))
  then have "short_request ! 34 = 8" unfolding V(4) by (simp add: short_request_def V(1))
  then show ?thesis
    using icmp_reply_stale_bytes [of host_b "MAKE_IP 10 0 2 15" mac_a short_request mac_b mac_a 64 "replicate 60 7"
        "\<lambda>s. None" idle_board] l v V
    by (simp add: ICMP_ECHO_REQUEST_def IP_PROTO_ICMP_def)
qed

theorem ip_handle_filter_witness:
  fixes p :: "u8 list"
  defines "p \<equiv> [0x45, 0, 0, 28, 0, 1, 0, 0, 64, 1, 0, 0, 10, 0, 2, 2, 10, 0, 2, 2, 0, 0, 0, 0, 0, 0, 0, 5]"
  shows "p ! 9 = 1 \<and> ntohl (load32 p 16) = net_ip host_b"
proof -
  have d: "ntohl (load32 p 16) = net_ip host_b" "ntohs (load16 p 2) = 28"
    by (simp_all add: p_def load32_def load16_def ntohl_def htonl_def ntohs_def htons_def MAKE_IP_def)
  have i: "(p ! 0 AND 0x0F) * 4 = 20" "p ! 9 = 1" "drop 20 p ! 0 = 0" by (simp_all add: p_def)
  have "icmp_echo_received host_b = False"
    by (simp add: host_b_def host_def arp_cache_insert_def blank_net_def with_net_globals_def fsys.defs netif.defs)
  then have "ip_handle (\<lambda>s. None) idle_board p 28 host_b \<noteq> Some host_b"
    using d i by (auto simp: ip_handle_def icmp_handle_def Let_def IP_HDR_def ICMP_HDR_def
      IP_PROTO_ICMP_def ICMP_ECHO_REQUEST_def ICMP_ECHO_REPLY_def dest!: arg_cong [of _ _ icmp_echo_received])
  then show ?thesis using ip_handle_filter by blast
qed

end
