(* ===== verification/Shell.thy ===== *)
theory Shell
  imports Ip_Spec
begin

text \<open>
  The command interpreter: \<open>execute_command\<close> of \<open>kernel.c\<close>.

  The argument is the command buffer as the C code sees it: all characters from the pointer to the
  end of the array, with whatever an earlier, longer command left behind the terminating NUL.
  The poll function is a parameter, as in the network theory; the result is \<open>None\<close> only when
  polling or the walk up the directory tree does not return.
\<close>

text \<open>\<open>while (*p == ' ') p++\<close>\<close>

definition skip_spaces :: "char list \<Rightarrow> char list" where
  "skip_spaces p = dropWhile (\<lambda>c. c = SPC) p"

text \<open>\<open>while (*args != ' ' && *args != 0 && i < n) buf[i++] = *args++\<close>: the word copied and the
  rest of the arguments.\<close>

fun copy_word :: "nat \<Rightarrow> char list \<Rightarrow> char list \<times> char list" where
  "copy_word (Suc n) (c # args) =
     (if c \<noteq> SPC \<and> c \<noteq> NUL then let (w, rest) = copy_word n args in (c # w, rest) else ([], c # args))"
| "copy_word _ args = ([], args)"

text \<open>\<open>while (*args >= '0' && *args <= '9') { port = port * 10 + (*args - '0'); args++; }\<close>\<close>

fun scan_port :: "u32 \<Rightarrow> char list \<Rightarrow> u32 \<times> char list" where
  "scan_port port [] = (port, [])"
| "scan_port port (c # args) =
     (if isdigit_n c then scan_port (port * 10 + (of_char c - 48)) args else (port, c # args))"

definition help_lines :: "char list list" where
  "help_lines =
     [''Commands: '',
      ''  help     - Show this message'',
      ''  clear    - Clear screen'',
      ''  echo     - Print text (echo <msg>)'',
      ''  info     - Show system info'',
      ''  pwd      - Show current directory'',
      ''  ls       - List files in current directory'',
      ''  mkdir    - Create a directory (mkdir <name>)'',
      ''  cd       - Change directory (cd <name> | .. | .)'',
      ''  touch    - Create empty file (touch <name>)'',
      ''  write    - Write text to file (write <name> <content>)'',
      ''  cat      - Read file content (cat <name>)'',
      ''  rm       - Delete a file (rm <name>)'',
      ''  rmdir    - Delete an empty directory (rmdir <name>)'',
      ''  ifconfig - Show network interface info'',
      ''  arp      - Show ARP cache'',
      ''  ping     - Ping an IP (ping <ip>)'',
      ''  udp      - Send UDP packet (udp <ip> <port> <msg>)'']"

abbreviation println :: "char list \<Rightarrow> 'a machine_scheme \<Rightarrow> 'a machine_scheme" where
  "println line s \<equiv> kprint (line @ [NL]) s"

text \<open>The branches with one argument: skip the spaces behind the command word, then run the
  operation or print the usage.\<close>

definition with_arg :: "nat \<Rightarrow> char list \<Rightarrow> char list \<Rightarrow> (char list \<Rightarrow> 'a machine_scheme \<Rightarrow> 'a machine_scheme)
    \<Rightarrow> 'a machine_scheme \<Rightarrow> 'a machine_scheme" where
  "with_arg n c usage f s =
     (let arg = skip_spaces (drop n c) in if deref arg \<noteq> NUL then f arg s else println usage s)"

definition cmd_write :: "char list \<Rightarrow> 'a netif_scheme \<Rightarrow> 'a netif_scheme" where
  "cmd_write c s =
     (let args = skip_spaces (drop 6 c);
          (filename, args) = copy_word 15 args;
          args = skip_spaces args
      in if filename \<noteq> [] \<and> deref args \<noteq> NUL then fs_write_file (filename @ [NUL]) args s
         else println ''Usage: write <filename> <content>'' s)"

definition cmd_ping :: "('a netif_scheme \<Rightarrow> 'a netif_scheme option) \<Rightarrow> hw \<Rightarrow> char list
    \<Rightarrow> 'a netif_scheme \<Rightarrow> 'a netif_scheme option" where
  "cmd_ping poll h c s =
     (case parse_ip (skip_spaces (drop 5 c)) of
        Some target \<Rightarrow> net_cmd_ping poll h target s
      | None \<Rightarrow> Some (println ''Invalid IP. Usage: ping <a.b.c.d>'' s))"

text \<open>The message pointer is read as an array of bytes: the rest of the command buffer, followed by
  what the linker placed behind it.\<close>

definition cmd_udp :: "('a netif_scheme \<Rightarrow> 'a netif_scheme option) \<Rightarrow> hw \<Rightarrow> char list
    \<Rightarrow> 'a netif_scheme \<Rightarrow> 'a netif_scheme option" where
  "cmd_udp poll h c s =
     (let args = skip_spaces (drop 4 c);
          (ipbuf, args) = copy_word 19 args;
          args = skip_spaces args;
          (port, args) = scan_port 0 args;
          args = skip_spaces args
      in case parse_ip (ipbuf @ [NUL]) of
           Some dst \<Rightarrow>
             if 0 < port \<and> deref args \<noteq> NUL then
               do { (_, s) \<leftarrow> udp_send poll h dst 1234 (ucast port)
                      (map of_char args @ bytes_after_cmd_buffer h) (20 - of_nat (length ipbuf)) s;
                    Some (println ''UDP packet sent'' s) }
             else Some (println ''Usage: udp <ip> <port> <msg>'' s)
         | None \<Rightarrow> Some (println ''Usage: udp <ip> <port> <msg>'' s))"

definition execute_command :: "('a netif_scheme \<Rightarrow> 'a netif_scheme option) \<Rightarrow> hw \<Rightarrow> char list
    \<Rightarrow> 'a netif_scheme \<Rightarrow> 'a netif_scheme option" where
  "execute_command poll h cmd s =
     (let c = skip_spaces cmd in
      if deref c = NUL then Some s
      else if strcmp c ''help'' = 0 then Some (fold println help_lines s)
      else if strcmp c ''clear'' = 0 then Some (clear_screen s)
      else if strcmp c ''pwd'' = 0 then fs_pwd s
      else if strcmp c ''ls'' = 0 then map_option fs_list_files (fs_pwd s)
      else if strncmp c ''mkdir '' 6 = 0 then
        Some (with_arg 6 c ''Usage: mkdir <name>'' (\<lambda>a s. snd (fs_mkdir a s)) s)
      else if strncmp c ''cd '' 3 = 0 then
        Some (with_arg 3 c ''Usage: cd <name>'' (\<lambda>a s. snd (fs_cd a s)) s)
      else if strcmp c ''cd'' = 0 then Some (snd (fs_cd ''/'' s))
      else if strncmp c ''rm '' 3 = 0 then
        Some (with_arg 3 c ''Usage: rm <name>'' (\<lambda>a s. snd (fs_rm a s)) s)
      else if strncmp c ''rmdir '' 6 = 0 then
        Some (with_arg 6 c ''Usage: rmdir <name>'' (\<lambda>a s. snd (fs_rmdir a s)) s)
      else if strncmp c ''touch '' 6 = 0 then
        Some (with_arg 6 c ''Usage: touch <filename>'' (\<lambda>a s. snd (fs_create_file a s)) s)
      else if strncmp c ''cat '' 4 = 0 then
        Some (with_arg 4 c ''Usage: cat <filename>'' fs_read_file s)
      else if strncmp c ''write '' 6 = 0 then Some (cmd_write c s)
      else if strncmp c ''echo '' 5 = 0 then Some (kprint [NL] (kprint (drop 5 c) s))
      else if strcmp c ''info'' = 0 then
        Some (println ''MOKernel - Terminal | Paging | FS | Networking'' s)
      else if strcmp c ''ifconfig'' = 0 then Some (net_cmd_ifconfig s)
      else if strcmp c ''arp'' = 0 then map_option net_cmd_arp (poll s)
      else if strncmp c ''ping '' 5 = 0 then cmd_ping poll h c s
      else if strncmp c ''udp '' 4 = 0 then cmd_udp poll h c s
      else Some (kprint [NL] (kprint c (kprint ''Unknown param or command: '' s))))"

section \<open>The contract of a command\<close>

text \<open>What a command may change: the console, the network traffic state and the file system; both
  components stay well-formed.\<close>

definition shell_others :: "'a netif_scheme \<Rightarrow> 'a netif_scheme" where
  "shell_others s = (others s)\<lparr>fs_table := [], fs_cwd := 0\<rparr>"

text \<open>The sizes of the arrays in the file table, which no command changes, even before \<open>fs_init\<close>.\<close>

definition entry_shape :: "fs_entry \<Rightarrow> nat \<times> nat" where
  "entry_shape e = (length (e_name e), length (e_content e))"

definition table_shape :: "'a fsys_scheme \<Rightarrow> (nat \<times> nat) list" where
  "table_shape s = map entry_shape (fs_table s)"

lemma length_cpy_loop [simp]: "length (fst (cpy_loop dst src lim i)) = length dst"
proof (induction dst src lim i rule: cpy_loop.induct)
  case (1 dst src lim i)
  then show ?case by (subst cpy_loop.simps) simp
qed

lemma entry_shape_updates [simp]:
  "entry_shape (e\<lparr>e_type := ty\<rparr>) = entry_shape e" "entry_shape (e\<lparr>e_parent := p\<rparr>) = entry_shape e"
  "entry_shape (e\<lparr>e_size := z\<rparr>) = entry_shape e" "entry_shape (fs_put_content dat e) = entry_shape e"
  "entry_shape (e\<lparr>e_name := fs_strncpy (e_name e) name lim\<rparr>) = entry_shape e"
  "entry_shape (e\<lparr>e_name := (e_name e)[j := c]\<rparr>) = entry_shape e"
  "entry_shape (e\<lparr>e_content := (e_content e)[j := c]\<rparr>) = entry_shape e"
  by (simp_all add: entry_shape_def fs_put_content_def fs_strncpy_def split_beta Let_def)

lemma entry_shape_create [simp]:
  "entry_shape (e\<lparr>e_type := ty, e_parent := p, e_size := z, e_name := fs_strncpy (e_name e) name lim\<rparr>) = entry_shape e"
  by (simp add: entry_shape_def fs_strncpy_def split_beta)

lemma table_shape_upd [simp]:
  assumes "\<And>e. entry_shape (f e) = entry_shape e"
  shows "table_shape (upd_ent i f s) = table_shape s"
proof -
  let ?m = "map entry_shape (fs_table s)"
  have "table_shape (upd_ent i f s) = ?m[nat i := entry_shape (fs_table s ! nat i)]"
    by (simp add: table_shape_def upd_ent_def map_update assms)
  also have "\<dots> = ?m"
  proof (cases "nat i < length (fs_table s)")
    case True
    then have "entry_shape (fs_table s ! nat i) = ?m ! nat i" by simp
    then show ?thesis by (simp only: list_update_id)
  qed (simp add: list_update_beyond)
  finally show ?thesis by (simp add: table_shape_def)
qed

lemma table_shape_cong: "fs_table t = fs_table s \<Longrightarrow> table_shape t = table_shape s"
  by (simp add: table_shape_def)

definition shell_step :: "'a netif_scheme \<Rightarrow> 'a netif_scheme \<Rightarrow> bool" where
  "shell_step s t \<longleftrightarrow> shell_others t = shell_others s \<and> (\<exists>i. io t = i @ io s)
     \<and> table_shape t = table_shape s
     \<and> (\<forall>n\<le>ARP_CACHE_SIZE. net_upto n s \<longrightarrow> net_upto n t) \<and> (fs_inv s \<longrightarrow> fs_inv t)"

lemma shell_step_refl [simp]: "shell_step s s"
  by (simp add: shell_step_def)

lemma shell_step_trans: "shell_step s t \<Longrightarrow> shell_step t u \<Longrightarrow> shell_step s u"
  unfolding shell_step_def by (metis append.assoc)

lemma shell_step_inv: "shell_step s t \<Longrightarrow> net_inv s \<Longrightarrow> net_inv t" "shell_step s t \<Longrightarrow> fs_inv s \<Longrightarrow> fs_inv t"
  by (simp_all add: shell_step_def net_inv_upto)

lemma shell_step_unaffected:
  assumes "shell_step s t" and "\<And>u. g (shell_others u) = g u"
  shows "g t = g s"
  using assms unfolding shell_step_def by metis

lemma shell_step_frame:
  assumes "shell_step s t"
  shows "net_iobase t = net_iobase s" "net_mac t = net_mac s" "net_ip t = net_ip s"
    "swap_storage t = swap_storage s" "page_directory t = page_directory s"
    "first_page_table t = first_page_table s" "free_mem_start t = free_mem_start s"
    "system_max_mem t = system_max_mem s"
  by (rule shell_step_unaffected [OF assms]; simp add: shell_others_def others_def)+

lemma shell_step_net: "net_step s t \<Longrightarrow> shell_step s t"
proof -
  assume n: "net_step s t"
  have "fs_inv t = fs_inv s" by (rule fs_inv_cong) (simp_all add: net_step_frame [OF n])
  moreover have "table_shape t = table_shape s" by (rule table_shape_cong) (rule net_step_frame(4) [OF n])
  ultimately show ?thesis using n by (simp add: shell_step_def net_step_def shell_others_def)
qed

lemma shell_step_kprint [simp]: "shell_step s (kprint m s)"
  by (rule shell_step_net [OF net_step_kprint(1)])

lemma shell_step_console: "console_op f \<Longrightarrow> shell_step s (f s)" for s :: "'a netif_scheme"
  by (rule shell_step_net [OF net_step_console])

text \<open>The file operations.\<close>

definition quiet_step :: "'a netif_scheme \<Rightarrow> 'a netif_scheme \<Rightarrow> bool" where
  "quiet_step s t \<longleftrightarrow> shell_others t = shell_others s \<and> (\<exists>i. io t = i @ io s)
     \<and> table_shape t = table_shape s \<and> (\<forall>n. net_upto n t = net_upto n s)"

lemma quiet_step_quoted: "quiet_step s (quoted a n b s)"
proof -
  let ?f = "\<lambda>s. quoted a n b s"
  have "console_op (\<lambda>s :: 'a netif_scheme. quoted a n b s)"
    unfolding quoted_def
    by (rule console_op_comp [OF console_op_kprint console_op_comp [OF console_op_kprint console_op_kprint]])
  then obtain i m l where q: "quoted a n b s = s\<lparr>io := i @ io s, mem := m, current_loc := l\<rparr>"
    using console_op.upd by blast
  show ?thesis unfolding q by (simp add: quiet_step_def shell_others_def others_def net_upto_def table_shape_def)
qed

lemma quiet_step_kprint: "quiet_step s (kprint x s)"
proof -
  obtain i m l where q: "kprint x s = s\<lparr>io := i @ io s, mem := m, current_loc := l\<rparr>"
    using kp.upd by blast
  show ?thesis unfolding q by (simp add: quiet_step_def shell_others_def others_def net_upto_def table_shape_def)
qed

lemma quiet_step_upd:
  "(\<And>e. entry_shape (f e) = entry_shape e) \<Longrightarrow> quiet_step s (upd_ent i f s)" "quiet_step s (s\<lparr>fs_cwd := c\<rparr>)"
proof -
  show "quiet_step s (s\<lparr>fs_cwd := c\<rparr>)"
    by (simp add: quiet_step_def shell_others_def others_def net_upto_def table_shape_def)
  assume "\<And>e. entry_shape (f e) = entry_shape e"
  then have "table_shape (upd_ent i f s) = table_shape s" by (rule table_shape_upd)
  then show "quiet_step s (upd_ent i f s)"
    by (simp only: quiet_step_def) (simp add: shell_others_def others_def net_upto_def upd_ent_def)
qed

lemmas quiet_steps = quiet_step_quoted quiet_step_kprint quiet_step_upd

lemma shell_step_fs:
  assumes "quiet_step s t" and "fs_inv s \<Longrightarrow> fs_inv t"
  shows "shell_step s t"
  using assms by (simp add: quiet_step_def shell_step_def)

lemma shell_step_mkdir: "shell_step s (snd (fs_mkdir n s))"
  by (rule shell_step_fs [OF _ fs_mkdir_inv]) (simp_all add: fs_mkdir_def Let_def quiet_steps)

lemma shell_step_touch: "shell_step s (snd (fs_create_file n s))"
  by (rule shell_step_fs [OF _ fs_create_file_inv]) (simp_all add: fs_create_file_def Let_def quiet_steps)

lemma shell_step_cd: "shell_step s (snd (fs_cd n s))"
  by (rule shell_step_fs [OF _ fs_cd_inv]) (simp_all add: fs_cd_def Let_def quiet_steps)

lemma shell_step_rm: "shell_step s (snd (fs_rm n s))"
  by (rule shell_step_fs [OF _ fs_rm_inv]) (simp_all add: fs_rm_def Let_def quiet_steps)

lemma shell_step_rmdir: "shell_step s (snd (fs_rmdir n s))"
  by (rule shell_step_fs [OF _ fs_rmdir_inv]) (simp_all add: fs_rmdir_def Let_def quiet_steps)

lemma shell_step_write: "shell_step s (fs_write_file n d s)"
  by (rule shell_step_fs [OF _ fs_write_file_inv]) (simp_all add: fs_write_file_def Let_def quiet_steps)

lemma shell_step_quoted: "shell_step s (quoted a n b s)"
  by (rule shell_step_fs [OF quiet_step_quoted]) (simp add: fs_inv_cong [of "quoted a n b s" s])

lemma shell_step_kprint2: "shell_step s (kprint b (kprint a s))"
  by (rule shell_step_trans [OF shell_step_kprint shell_step_kprint])

lemma shell_step_kprint3: "shell_step s (kprint c (kprint b (kprint a s)))"
  by (rule shell_step_trans [OF shell_step_kprint2 shell_step_kprint])

lemma shell_step_cat: "shell_step s (fs_read_file n s)"
  by (simp add: fs_read_file_def Let_def shell_step_quoted shell_step_kprint2)

lemma shell_step_ls: "shell_step s (fs_list_files s)"
  unfolding fs_ls_lists_fact [of s] by (rule shell_step_kprint)

lemma shell_step_pwd:
  assumes "fs_pwd s = Some t"
  shows "shell_step s t"
proof -
  have "shell_step u (fold (\<lambda>i s. kprint (e_name (ent s i)) (kprint ''/'' s)) xs u)"
    for xs and u :: "'a netif_scheme"
  proof (induction xs arbitrary: u)
    case (Cons x xs)
    show ?case
      using shell_step_trans [OF shell_step_trans [OF shell_step_kprint shell_step_kprint] Cons.IH] by simp
  qed simp
  then have "shell_step s u" if "fs_print_path (fs_cwd s) s = Some u" for u
    using that by (auto simp: fs_print_path_def split: if_splits option.splits)
  then show ?thesis
    using assms shell_step_trans [OF _ shell_step_kprint] by (auto simp: fs_pwd_def)
qed

lemma shell_step_with_arg: "(\<And>a. shell_step s (f a s)) \<Longrightarrow> shell_step s (with_arg n c usage f s)"
  by (simp add: with_arg_def Let_def)

lemma shell_step_cmd_write: "shell_step s (cmd_write c s)"
  by (simp add: cmd_write_def Let_def split_beta shell_step_write)

lemma shell_step_ifconfig: "shell_step s (net_cmd_ifconfig s)"
proof -
  have c: "console_op (\<lambda>s :: 'a netif_scheme. kprint [NL] (kprint_mac m (kprint ''      ether ''
      (kprint (''  netmask 255.255.255.0'' @ [NL]) (kprint_ip ip (kprint ''      inet ''
      (kprint (''eth0: flags=UP BROADCAST RUNNING'' @ [NL]) s)))))))" for m ip
    by (rule console_op_comp [OF console_op_kprint console_op_comp [OF console_op_kprint_mac
        console_op_comp [OF console_op_kprint console_op_comp [OF console_op_kprint
        console_op_comp [OF console_op_kprint_ip console_op_comp [OF console_op_kprint console_op_kprint]]]]]])
  show ?thesis
    unfolding net_cmd_ifconfig_def Let_def
    using shell_step_console [OF c] shell_step_trans [OF shell_step_console [OF c] shell_step_kprint] by simp
qed

lemma shell_step_arp: "shell_step s (net_cmd_arp s)"
proof -
  have e: "console_op (arp_print_entry e :: 'a netif_scheme \<Rightarrow> _)" for e
    unfolding arp_print_entry_def [abs_def] Let_def
    by (rule console_op_comp [OF console_op_kprint console_op_comp [OF console_op_kprint_mac
        console_op_comp [OF console_op_kprint console_op_kprint_ip]]])
  have "shell_step u (arp_print_cache u)" for u :: "'a netif_scheme"
    using shell_step_console [OF console_op_fold [of arp_print_entry, OF e], of u "filter a_valid (arp_cache u)"]
    by (simp add: arp_print_cache_def Let_def)
  then show ?thesis unfolding net_cmd_arp_def by (rule shell_step_trans [OF shell_step_kprint])
qed

lemma shell_step_help: "shell_step s (fold println help_lines s)"
  by (rule shell_step_console [OF console_op_fold [OF console_op_kprint]])

lemma if_SomeE:
  assumes "(if b then x else y) = Some t"
  obtains "x = Some t" | "y = Some t"
  using assms by (auto split: if_splits)

lemma if_Some_ex: "\<exists>t. x = Some t \<Longrightarrow> \<exists>t. y = Some t \<Longrightarrow> \<exists>t. (if b then x else y) = Some t"
  by simp

context poller
begin

lemma cmd_ping_step: "cmd_ping poll h c s = Some t \<Longrightarrow> shell_step s t"
  using shell_step_net [OF net_cmd_ping_step] by (auto simp: cmd_ping_def split: option.splits)

lemma cmd_udp_step:
  assumes "cmd_udp poll h c s = Some t"
  shows "shell_step s t"
proof -
  consider "t = println ''Usage: udp <ip> <port> <msg>'' s"
    | dst port dat n r u where "udp_send poll h dst 1234 port dat n s = Some (r, u)" "t = println ''UDP packet sent'' u"
    using assms by (auto simp: cmd_udp_def Let_def split_beta split: option.splits if_splits Option.bind_splits)
  then show ?thesis
    by cases (simp, simp only: shell_step_trans [OF shell_step_net [OF udp_send_step] shell_step_kprint])
qed

lemma execute_command_step:
  assumes "execute_command poll h cmd s = Some t"
  shows "shell_step s t"
proof -
  have c: "shell_step s (clear_screen s)" by (rule shell_step_console [OF console_op_clear_screen])
  have a: "poll s = Some u \<Longrightarrow> shell_step s (net_cmd_arp u)" for u
    by (rule shell_step_trans [OF shell_step_net [OF step] shell_step_arp])
  have l: "fs_pwd s = Some u \<Longrightarrow> shell_step s (fs_list_files u)" for u
    by (rule shell_step_trans [OF shell_step_pwd shell_step_ls])
  have w: "shell_step s (with_arg n x usage (\<lambda>a s. snd (fs_mkdir a s)) s)"
      "shell_step s (with_arg n x usage (\<lambda>a s. snd (fs_cd a s)) s)"
      "shell_step s (with_arg n x usage (\<lambda>a s. snd (fs_rm a s)) s)"
      "shell_step s (with_arg n x usage (\<lambda>a s. snd (fs_rmdir a s)) s)"
      "shell_step s (with_arg n x usage (\<lambda>a s. snd (fs_create_file a s)) s)"
      "shell_step s (with_arg n x usage fs_read_file s)" for n x usage
    by (rule shell_step_with_arg, simp only: shell_step_mkdir shell_step_cd shell_step_rm
        shell_step_rmdir shell_step_touch shell_step_cat)+
  show ?thesis
    using assms unfolding execute_command_def Let_def map_option_eq_Some option.inject
    by (elim if_SomeE exE conjE)
       (auto simp: c w shell_step_cd shell_step_cmd_write shell_step_ifconfig shell_step_help
          shell_step_kprint2 shell_step_kprint3 intro: a l shell_step_pwd cmd_ping_step cmd_udp_step)
qed

end

lemma bind_Some_ex: "\<exists>r t. x = Some (r, t) \<Longrightarrow> \<exists>t. (x \<bind> (\<lambda>p. Some (f p))) = Some t"
  by auto

context returning_poller
begin

lemma cmd_ping_returns: "good s \<Longrightarrow> \<exists>t. cmd_ping poll h c s = Some t"
  using net_cmd_ping_returns by (cases "parse_ip (skip_spaces (drop 5 c))") (simp_all add: cmd_ping_def)

lemma cmd_udp_returns: "good s \<Longrightarrow> \<exists>t. cmd_udp poll h c s = Some t"
proof -
  assume "good s"
  note u = udp_send_returns [OF this]
  show ?thesis
    unfolding cmd_udp_def Let_def split_beta by (auto split: option.split intro: bind_Some_ex [OF u])
qed

lemma execute_command_returns:
  assumes "good s" and "fs_inv s"
  shows "\<exists>t. execute_command poll h cmd s = Some t"
proof -
  have "\<exists>t. fs_pwd s = Some t" using fs_pwd_total [OF assms(2)] .
  moreover have "\<exists>t. poll s = Some t" by (rule returns [OF assms(1)])
  ultimately show ?thesis
    unfolding execute_command_def Let_def using cmd_ping_returns [OF assms(1)] cmd_udp_returns [OF assms(1)]
    by (intro if_Some_ex) auto
qed

end

end
