(* ===== verification/Keyboard.thy ===== *)
theory Keyboard
  imports Shell
begin

text \<open>
  The keyboard driver of \<open>kernel.c\<close>: scancode decoding, the line editor over the command buffer,
  the history of ten command lines, and the hand-over to the command interpreter.

  The handler runs with interrupts disabled, so nothing else touches these globals meanwhile. The
  result is \<open>None\<close> only when the command it starts does not return.
\<close>

definition CMD_BUFFER_SIZE :: nat where "CMD_BUFFER_SIZE = 256"
definition HISTORY_MAX :: nat where "HISTORY_MAX = 10"
definition KEYBOARD_DATA_PORT :: u16 where "KEYBOARD_DATA_PORT = 0x60"
definition KEYBOARD_STATUS_PORT :: u16 where "KEYBOARD_STATUS_PORT = 0x64"

record terminal = netif +
  cmd_buffer :: "char list"
  cmd_len :: nat
  shift_pressed :: bool
  ctrl_pressed :: bool
  e0_pressed :: bool
  history :: "char list list"
  history_count :: nat
  history_index :: nat

text \<open>The globals of the keyboard as the C program starts with them, added to a state of the rest.\<close>

definition with_keyboard_globals :: "netif \<Rightarrow> terminal" where
  "with_keyboard_globals s = netif.extend s
     (terminal.fields (replicate 256 NUL) 0 False False False (replicate 10 (replicate 256 NUL)) 0 0)"

definition keyboard_map :: "char list" where
  "keyboard_map =
     [NUL, CHR 0x1B] @ ''1234567890-='' @ [BS] @
     [CHR 0x09] @ ''qwertyuiop[]'' @ [NL] @
     [NUL] @ ''asdfghjkl;'' @ [CHR 0x27, CHR 0x60, NUL, CHR 0x5C] @ ''zxcv'' @
     ''bnm,./'' @ [NUL] @ ''*'' @ [NUL] @ '' '' @ replicate 70 NUL"

definition keyboard_map_shift :: "char list" where
  "keyboard_map_shift =
     [NUL, CHR 0x1B] @ ''!@#$%^&*()_+'' @ [BS] @
     [CHR 0x09] @ ''QWERTYUIOP{}'' @ [NL] @
     [NUL] @ ''ASDFGHJKL:'' @ [CHR 0x22, CHR 0x7E, NUL, CHR 0x7C] @ ''ZXCV'' @
     ''BNM<>?'' @ [NUL] @ ''*'' @ [NUL] @ '' '' @ replicate 70 NUL"

section \<open>The line editor\<close>

text \<open>Erasing a cell, as in the backspace branch of \<open>kprint\<close>, does not touch the terminal.\<close>

lemma erase_cell_terminal [simp]:
  "cmd_buffer (erase_cell s) = cmd_buffer s" "cmd_len (erase_cell s) = cmd_len s"
  "history (erase_cell s) = history s" "history_count (erase_cell s) = history_count s"
  "history_index (erase_cell s) = history_index s" "shift_pressed (erase_cell s) = shift_pressed s"
  "ctrl_pressed (erase_cell s) = ctrl_pressed s" "e0_pressed (erase_cell s) = e0_pressed s"
  by (rule er.unaffected; simp)+

lemma kprint_terminal [simp]:
  "cmd_buffer (kprint m s) = cmd_buffer s" "cmd_len (kprint m s) = cmd_len s"
  "history (kprint m s) = history s" "history_count (kprint m s) = history_count s"
  "history_index (kprint m s) = history_index s" "shift_pressed (kprint m s) = shift_pressed s"
  "ctrl_pressed (kprint m s) = ctrl_pressed s" "e0_pressed (kprint m s) = e0_pressed s"
  by (rule kp.unaffected; simp)+

function cmd_clear_display :: "'a terminal_scheme \<Rightarrow> 'a terminal_scheme" where
  "cmd_clear_display s =
     (if 0 < cmd_len s then cmd_clear_display (erase_cell (s\<lparr>cmd_len := cmd_len s - 1\<rparr>)) else s)"
  by pat_completeness auto
termination by (relation "measure cmd_len") simp_all

declare cmd_clear_display.simps [simp del]

fun cmd_set_loop :: "char list \<Rightarrow> 'a terminal_scheme \<Rightarrow> 'a terminal_scheme" where
  "cmd_set_loop [] s = s"
| "cmd_set_loop (c # str) s =
     (if c = NUL then s
      else cmd_set_loop str
        (if cmd_len s < CMD_BUFFER_SIZE - 1 then
           kprint [c, NUL] (s\<lparr>cmd_buffer := (cmd_buffer s)[cmd_len s := c], cmd_len := cmd_len s + 1\<rparr>)
         else s))"

definition cmd_set :: "char list \<Rightarrow> 'a terminal_scheme \<Rightarrow> 'a terminal_scheme" where
  "cmd_set str s = cmd_set_loop str (cmd_clear_display s)"

definition history_up :: "'a terminal_scheme \<Rightarrow> 'a terminal_scheme" where
  "history_up s =
     (if history_count s = 0 then s
      else if 0 < history_index s then
        let s = s\<lparr>history_index := history_index s - 1\<rparr>
        in cmd_set (history s ! history_index s) s
      else s)"

definition history_down :: "'a terminal_scheme \<Rightarrow> 'a terminal_scheme" where
  "history_down s =
     (if history_count s = 0 then s
      else if history_index s < history_count s - 1 then
        let s = s\<lparr>history_index := history_index s + 1\<rparr>
        in cmd_set (history s ! history_index s) s
      else if history_index s = history_count s - 1 then
        cmd_set [] (s\<lparr>history_index := history_index s + 1\<rparr>)
      else s)"

text \<open>The two loops of \<open>backspace_word\<close>: erase while the last character satisfies a condition.\<close>

function erase_while :: "(char \<Rightarrow> bool) \<Rightarrow> 'a terminal_scheme \<Rightarrow> 'a terminal_scheme" where
  "erase_while P s =
     (if 0 < cmd_len s \<and> P (cmd_buffer s ! (cmd_len s - 1)) then
        erase_while P (erase_cell (s\<lparr>cmd_len := cmd_len s - 1\<rparr>))
      else s)"
  by pat_completeness auto
termination by (relation "measure (cmd_len \<circ> snd)") simp_all

declare erase_while.simps [simp del]

definition backspace_word :: "'a terminal_scheme \<Rightarrow> 'a terminal_scheme" where
  "backspace_word s = erase_while (\<lambda>c. c \<noteq> SPC) (erase_while (\<lambda>c. c = SPC) s)"

section \<open>The history\<close>

text \<open>\<open>for (i = 0; i <= n; i++) dst[i] = src[i];\<close>\<close>

definition copy_row :: "nat \<Rightarrow> char list \<Rightarrow> char list \<Rightarrow> char list" where
  "copy_row n src dst = fold (\<lambda>i d. d[i := src ! i]) [0..<Suc n] dst"

text \<open>\<open>k = 0; while (src[k] != 0) { dst[k] = src[k]; k++; } dst[k] = 0;\<close>\<close>

fun strcpy_row :: "nat \<Rightarrow> char list \<Rightarrow> char list \<Rightarrow> char list" where
  "strcpy_row k [] dst = dst[k := NUL]"
| "strcpy_row k (c # src) dst = (if c = NUL then dst[k := NUL] else strcpy_row (k + 1) src (dst[k := c]))"

definition shift_history :: "char list list \<Rightarrow> char list list" where
  "shift_history hs = fold (\<lambda>j hs. hs[j := strcpy_row 0 (hs ! (j + 1)) (hs ! j)]) [0..<HISTORY_MAX - 1] hs"

definition history_push :: "'a terminal_scheme \<Rightarrow> 'a terminal_scheme" where
  "history_push s =
     (if history_count s < HISTORY_MAX then
        s\<lparr>history := (history s)[history_count s :=
             copy_row (cmd_len s) (cmd_buffer s) (history s ! history_count s)],
          history_count := history_count s + 1\<rparr>
      else
        let hs = shift_history (history s)
        in s\<lparr>history := hs[HISTORY_MAX - 1 :=
             copy_row (cmd_len s) (cmd_buffer s) (hs ! (HISTORY_MAX - 1))]\<rparr>)"

section \<open>Keys\<close>

definition key_enter :: "('a terminal_scheme \<Rightarrow> 'a terminal_scheme option) \<Rightarrow> hw \<Rightarrow> 'a terminal_scheme
    \<Rightarrow> 'a terminal_scheme option" where
  "key_enter poll h s =
     do { let s = kprint [NL] s;
          let s = s\<lparr>cmd_buffer := (cmd_buffer s)[cmd_len s := NUL]\<rparr>;
          let s = (if 0 < cmd_len s then history_push s else s);
          let s = s\<lparr>history_index := history_count s\<rparr>;
          s \<leftarrow> execute_command poll h (cmd_buffer s) s;
          Some (kprint ''OS> '' (s\<lparr>cmd_len := 0\<rparr>)) }"

definition key_char :: "char \<Rightarrow> 'a terminal_scheme \<Rightarrow> 'a terminal_scheme" where
  "key_char chr s =
     (if cmd_len s < CMD_BUFFER_SIZE - 1 then
        kprint [chr, NUL] (s\<lparr>cmd_buffer := (cmd_buffer s)[cmd_len s := chr], cmd_len := cmd_len s + 1\<rparr>)
      else s)"

definition key_backspace :: "'a terminal_scheme \<Rightarrow> 'a terminal_scheme" where
  "key_backspace s = (if 0 < cmd_len s then erase_cell (s\<lparr>cmd_len := cmd_len s - 1\<rparr>) else s)"

text \<open>The part of the handler behind the read of the scancode.\<close>

definition on_key :: "('a terminal_scheme \<Rightarrow> 'a terminal_scheme option) \<Rightarrow> hw \<Rightarrow> u8 \<Rightarrow> 'a terminal_scheme
    \<Rightarrow> 'a terminal_scheme option" where
  "on_key poll h keycode s =
     (if keycode = 0xE0 then Some (s\<lparr>e0_pressed := True\<rparr>)
      else if e0_pressed s then
        let s = s\<lparr>e0_pressed := False\<rparr> in
        if keycode AND 0x80 \<noteq> 0 then Some s
        else if keycode = 0x48 then Some (history_up s)
        else if keycode = 0x50 then Some (history_down s)
        else Some s
      else if keycode = 0x1D then Some (s\<lparr>ctrl_pressed := True\<rparr>)
      else if keycode = 0x9D then Some (s\<lparr>ctrl_pressed := False\<rparr>)
      else if keycode = 0x2A \<or> keycode = 0x36 then Some (s\<lparr>shift_pressed := True\<rparr>)
      else if keycode = 0xAA \<or> keycode = 0xB6 then Some (s\<lparr>shift_pressed := False\<rparr>)
      else if keycode AND 0x80 \<noteq> 0 then Some s
      else
        let chr = (if shift_pressed s then keyboard_map_shift ! unat keycode else keyboard_map ! unat keycode)
        in if ctrl_pressed s \<and> (chr = CHR ''w'' \<or> chr = CHR ''W'') then Some (backspace_word s)
           else if ctrl_pressed s \<and> (chr = CHR ''p'' \<or> chr = CHR ''P'') then Some (history_up s)
           else if chr = NL then key_enter poll h s
           else if chr = BS then Some (key_backspace s)
           else if chr \<noteq> NUL then Some (key_char chr s)
           else Some s)"

definition keyboard_handler_main :: "('a terminal_scheme \<Rightarrow> 'a terminal_scheme option) \<Rightarrow> hw
    \<Rightarrow> 'a terminal_scheme \<Rightarrow> 'a terminal_scheme option" where
  "keyboard_handler_main poll h s =
     (let s = write_port 0x20 0x20 s;
          (status, s) = read_port h KEYBOARD_STATUS_PORT s
      in if status AND 0x01 \<noteq> 0 then
           let (keycode, s) = read_port h KEYBOARD_DATA_PORT s in on_key poll h keycode s
         else Some s)"

end
