(* ===== verification/Keyboard_Spec.thy ===== *)
theory Keyboard_Spec
  imports Keyboard
begin

text \<open>
  What the keyboard driver promises: its tables stay well-formed and inside their bounds, and it is
  a line editor with a history of the last ten lines. The editor is stated abstractly, over strings
  and lists of strings; the arrays of 256 characters, the copies into them and the terminators are
  the implementation.
\<close>

section \<open>The contract of a key\<close>

definition key_others :: "'a terminal_scheme \<Rightarrow> 'a terminal_scheme" where
  "key_others s = (shell_others s)\<lparr>cmd_buffer := [], cmd_len := 0, shift_pressed := False,
     ctrl_pressed := False, e0_pressed := False, history := [], history_count := 0, history_index := 0\<rparr>"

definition key_step :: "'a terminal_scheme \<Rightarrow> 'a terminal_scheme \<Rightarrow> bool" where
  "key_step s t \<longleftrightarrow> key_others t = key_others s \<and> (\<exists>i. io t = i @ io s)
     \<and> table_shape t = table_shape s
     \<and> (\<forall>n\<le>ARP_CACHE_SIZE. net_upto n s \<longrightarrow> net_upto n t) \<and> (fs_inv s \<longrightarrow> fs_inv t)"

lemma key_step_refl [simp]: "key_step s s"
  by (simp add: key_step_def)

lemma key_step_trans: "key_step s t \<Longrightarrow> key_step t u \<Longrightarrow> key_step s u"
  unfolding key_step_def by (metis append.assoc)

lemma key_step_shell: "shell_step s t \<Longrightarrow> key_step s t"
  by (simp add: key_step_def shell_step_def key_others_def)

lemma key_step_console: "console_op f \<Longrightarrow> key_step s (f s)" for s :: "'a terminal_scheme"
  by (rule key_step_shell [OF shell_step_console])

lemma key_step_kprint [simp]: "key_step s (kprint m s)"
  by (rule key_step_console [OF console_op_kprint])

lemma key_step_erase [simp]: "key_step s (erase_cell s)"
  by (rule key_step_console [OF console_op_erase_cell])

text \<open>Updates of the terminal's own fields.\<close>

lemma key_step_own:
  assumes "key_others t = key_others s" "io t = io s" "\<And>n. net_upto n t = net_upto n s"
    "fs_table t = fs_table s" "fs_cwd t = fs_cwd s"
  shows "key_step s t"
  using assms fs_inv_cong [of t s] table_shape_cong [of t s] by (simp add: key_step_def)

lemma key_step_fields [simp]:
  "key_step s (s\<lparr>cmd_len := n\<rparr>)" "key_step s (s\<lparr>cmd_buffer := b\<rparr>)"
  "key_step s (s\<lparr>cmd_buffer := b, cmd_len := n\<rparr>)" "key_step s (s\<lparr>history_index := n\<rparr>)"
  "key_step s (s\<lparr>history := hs\<rparr>)" "key_step s (s\<lparr>history := hs, history_count := n\<rparr>)"
  "key_step s (s\<lparr>shift_pressed := f\<rparr>)" "key_step s (s\<lparr>ctrl_pressed := f\<rparr>)" "key_step s (s\<lparr>e0_pressed := f\<rparr>)"
  by (rule key_step_own; simp add: key_others_def shell_others_def others_def net_upto_def)+

lemma key_step_clear: "key_step s (cmd_clear_display s)"
proof (induction s rule: cmd_clear_display.induct)
  case (1 s)
  show ?case
  proof (cases "0 < cmd_len s")
    case True
    have "key_step s (erase_cell (s\<lparr>cmd_len := cmd_len s - 1\<rparr>))"
      by (rule key_step_trans [OF key_step_fields(1) key_step_erase])
    then show ?thesis
      using key_step_trans [OF _ "1.IH" [OF True]] True by (subst cmd_clear_display.simps) simp
  qed (simp add: cmd_clear_display.simps [of s])
qed

lemma key_step_key_char: "key_step s (key_char c s)"
  by (simp add: key_char_def key_step_trans [OF key_step_fields(3) key_step_kprint])

lemma cmd_set_loop_key_char: "cmd_set_loop str s = fold key_char (cstr str) s"
  by (induction str arbitrary: s) (simp_all add: key_char_def)

lemma key_step_fold: "(\<And>x s. key_step s (F x s)) \<Longrightarrow> key_step s (fold F xs s)"
  by (induction xs arbitrary: s) (auto intro: key_step_trans)

lemma key_step_cmd_set: "key_step s (cmd_set str s)"
  unfolding cmd_set_def cmd_set_loop_key_char
  by (rule key_step_trans [OF key_step_clear key_step_fold [OF key_step_key_char]])

lemma key_step_history_up: "key_step s (history_up s)"
  by (simp add: history_up_def Let_def key_step_trans [OF key_step_fields(4) key_step_cmd_set])

lemma key_step_history_down: "key_step s (history_down s)"
  by (simp add: history_down_def Let_def key_step_trans [OF key_step_fields(4) key_step_cmd_set])

lemma key_step_erase_while: "key_step s (erase_while P s)"
proof (induction P s rule: erase_while.induct)
  case (1 P s)
  show ?case
  proof (cases "0 < cmd_len s \<and> P (cmd_buffer s ! (cmd_len s - 1))")
    case True
    have "key_step s (erase_cell (s\<lparr>cmd_len := cmd_len s - 1\<rparr>))"
      by (rule key_step_trans [OF key_step_fields(1) key_step_erase])
    then show ?thesis
      using key_step_trans [OF _ "1.IH" [OF True]] True by (subst erase_while.simps) simp
  next
    case False
    then show ?thesis by (subst erase_while.simps) auto
  qed
qed

lemma key_step_backspace_word: "key_step s (backspace_word s)"
  unfolding backspace_word_def by (rule key_step_trans [OF key_step_erase_while key_step_erase_while])

lemma key_step_key_backspace: "key_step s (key_backspace s)"
  by (simp add: key_backspace_def key_step_trans [OF key_step_fields(1) key_step_erase])

lemma key_step_history_push: "key_step s (history_push s)"
  by (simp add: history_push_def Let_def)

text \<open>The editor is not touched by the command it runs.\<close>

lemma shell_step_terminal:
  assumes "shell_step s t"
  shows "cmd_buffer t = cmd_buffer s" "cmd_len t = cmd_len s" "history t = history s"
    "history_count t = history_count s" "history_index t = history_index s"
    "shift_pressed t = shift_pressed s" "ctrl_pressed t = ctrl_pressed s" "e0_pressed t = e0_pressed s"
  by (rule shell_step_unaffected [OF assms]; simp add: shell_others_def others_def)+

section \<open>The well-formed terminal\<close>

definition line_of :: "'a terminal_scheme \<Rightarrow> char list" where
  "line_of s = take (cmd_len s) (cmd_buffer s)"

text \<open>What a line may consist of: no terminator, and no character that moves the cursor otherwise than
  one cell ahead.\<close>

definition plain :: "char list \<Rightarrow> bool" where
  "plain cs \<longleftrightarrow> NUL \<notin> set cs \<and> NL \<notin> set cs \<and> BS \<notin> set cs"

text \<open>A row of the history: a terminated plain string.\<close>

definition row_ok :: "char list \<Rightarrow> bool" where
  "row_ok row \<longleftrightarrow> length row = 256 \<and> NUL \<in> set row \<and> plain (cstr row)"

definition kbd_inv :: "'a terminal_scheme \<Rightarrow> bool" where
  "kbd_inv s \<longleftrightarrow> length (cmd_buffer s) = 256 \<and> cmd_len s \<le> 255 \<and> plain (line_of s)
     \<and> length (history s) = 10 \<and> (\<forall>row\<in>set (history s). row_ok row)
     \<and> history_count s \<le> 10 \<and> history_index s \<le> history_count s"

definition hist_of :: "'a terminal_scheme \<Rightarrow> char list list" where
  "hist_of s = map cstr (take (history_count s) (history s))"

text \<open>Everything but the buffer and its length.\<close>

definition same_hist :: "'a terminal_scheme \<Rightarrow> 'a terminal_scheme \<Rightarrow> bool" where
  "same_hist s t \<longleftrightarrow> history t = history s \<and> history_count t = history_count s
     \<and> history_index t = history_index s \<and> shift_pressed t = shift_pressed s
     \<and> ctrl_pressed t = ctrl_pressed s \<and> e0_pressed t = e0_pressed s"

lemma same_hist_refl [simp]: "same_hist s s"
  by (simp add: same_hist_def)

lemma same_hist_trans: "same_hist s t \<Longrightarrow> same_hist t u \<Longrightarrow> same_hist s u"
  by (simp add: same_hist_def)

lemma kbd_inv_line:
  assumes "kbd_inv s" and "same_hist s t" and "length (cmd_buffer t) = 256" and "cmd_len t \<le> 255"
    and "plain (line_of t)"
  shows "kbd_inv t"
  using assms unfolding kbd_inv_def same_hist_def by simp

lemma clear_spec: "same_hist s (cmd_clear_display s) \<and> cmd_buffer (cmd_clear_display s) = cmd_buffer s
    \<and> cmd_len (cmd_clear_display s) = 0"
proof (induction s rule: cmd_clear_display.induct)
  case (1 s)
  show ?case
  proof (cases "0 < cmd_len s")
    case True
    then have "cmd_clear_display s = cmd_clear_display (erase_cell (s\<lparr>cmd_len := cmd_len s - 1\<rparr>))"
      by (subst cmd_clear_display.simps) simp
    then show ?thesis using "1.IH" [OF True] by (simp add: same_hist_def)
  qed (simp add: cmd_clear_display.simps [of s])
qed

lemma key_char_spec:
  assumes "length (cmd_buffer s) = 256" and "cmd_len s \<le> 255"
  shows "same_hist s (key_char c s)" "length (cmd_buffer (key_char c s)) = 256" "cmd_len (key_char c s) \<le> 255"
    "line_of (key_char c s) = (if length (line_of s) < 255 then line_of s @ [c] else line_of s)"
  using assms
  by (simp_all add: key_char_def same_hist_def CMD_BUFFER_SIZE_def line_of_def take_Suc_conv_app_nth)

lemma fold_key_char_spec:
  assumes "length (cmd_buffer s) = 256" and "cmd_len s \<le> 255"
  shows "same_hist s (fold key_char cs s) \<and> length (cmd_buffer (fold key_char cs s)) = 256
    \<and> cmd_len (fold key_char cs s) \<le> 255 \<and> line_of (fold key_char cs s) = take 255 (line_of s @ cs)"
  using assms
proof (induction cs arbitrary: s)
  case Nil
  then show ?case by (simp add: line_of_def)
next
  case (Cons c cs)
  note k = key_char_spec [OF Cons.prems, of c]
  have l: "length (line_of s) \<le> 255" using Cons.prems by (simp add: line_of_def)
  have "take 255 (line_of (key_char c s) @ cs) = take 255 (line_of s @ c # cs)"
    using l by (auto simp: k(4) take_Cons' min_def)
  then show ?case using Cons.IH [OF k(2,3)] same_hist_trans [OF k(1)] by auto
qed

lemma cmd_set_spec:
  assumes "length (cmd_buffer s) = 256"
  shows "same_hist s (cmd_set str s) \<and> length (cmd_buffer (cmd_set str s)) = 256
    \<and> cmd_len (cmd_set str s) \<le> 255 \<and> line_of (cmd_set str s) = take 255 (cstr str)"
proof -
  note c = clear_spec [of s]
  have "length (cmd_buffer (cmd_clear_display s)) = 256" "cmd_len (cmd_clear_display s) \<le> 255"
      "line_of (cmd_clear_display s) = []"
    using c assms by (simp_all add: line_of_def)
  then show ?thesis
    unfolding cmd_set_def cmd_set_loop_key_char
    using fold_key_char_spec [of "cmd_clear_display s" "cstr str"] c same_hist_trans by fastforce
qed

lemma erase_while_spec:
  assumes "cmd_len s \<le> length (cmd_buffer s)"
  shows "same_hist s (erase_while P s) \<and> cmd_buffer (erase_while P s) = cmd_buffer s
    \<and> cmd_len (erase_while P s) \<le> cmd_len s
    \<and> line_of (erase_while P s) = rev (dropWhile P (rev (line_of s)))"
  using assms
proof (induction P s rule: erase_while.induct)
  case (1 P s)
  show ?case
  proof (cases "0 < cmd_len s \<and> P (cmd_buffer s ! (cmd_len s - 1))")
    case True
    let ?t = "erase_cell (s\<lparr>cmd_len := cmd_len s - 1\<rparr>)"
    have e: "erase_while P s = erase_while P ?t" using True by (subst erase_while.simps) simp
    obtain n where n: "cmd_len s = Suc n" using True by (cases "cmd_len s") auto
    have l: "line_of s = line_of ?t @ [cmd_buffer s ! (cmd_len s - 1)]"
      using "1.prems" by (simp add: line_of_def n take_Suc_conv_app_nth)
    have "same_hist s ?t" by (simp add: same_hist_def)
    moreover have "cmd_len ?t \<le> length (cmd_buffer ?t)" using "1.prems" by simp
    ultimately show ?thesis
      using "1.IH" [OF True] True unfolding e l by (auto intro: same_hist_trans)
  next
    case False
    then have e: "erase_while P s = s" by (subst erase_while.simps) auto
    have "dropWhile P (rev (line_of s)) = rev (line_of s)"
    proof (cases "cmd_len s")
      case (Suc n)
      then have "line_of s = take n (cmd_buffer s) @ [cmd_buffer s ! n]"
        using "1.prems" by (simp add: line_of_def take_Suc_conv_app_nth)
      then show ?thesis using False Suc by simp
    qed (simp add: line_of_def)
    then show ?thesis unfolding e by simp
  qed
qed

section \<open>The copies into the history\<close>

lemma copy_row_eq:
  assumes "n < length src" and "n < length dst"
  shows "copy_row n src dst = take (Suc n) src @ drop (Suc n) dst"
proof -
  have "fold (\<lambda>i d. d[i := src ! i]) [0..<m] dst = take m src @ drop m dst" if "m \<le> Suc n" for m
    using that
  proof (induction m)
    case (Suc m)
    have "(take m src @ drop m dst)[m := src ! m] = take (Suc m) src @ drop (Suc m) dst"
      using Suc.prems assms by (intro nth_equalityI) (auto simp: nth_list_update nth_append)
    then show ?case using Suc.IH Suc.prems by simp
  qed simp
  from this [of "Suc n"] show ?thesis by (simp add: copy_row_def del: upt_Suc)
qed

lemma copy_row_line:
  assumes "n < length src" and "n < length dst" and "NUL \<notin> set (take n src)" and "src ! n = NUL"
  shows "cstr (copy_row n src dst) = take n src" "NUL \<in> set (copy_row n src dst)"
    "length (copy_row n src dst) = length dst"
proof -
  have e: "copy_row n src dst = take n src @ NUL # drop (Suc n) dst"
    using assms by (simp add: copy_row_eq take_Suc_conv_app_nth)
  show "cstr (copy_row n src dst) = take n src" unfolding e by (rule cstr_append_NUL [OF assms(3)])
  show "NUL \<in> set (copy_row n src dst)" unfolding e by simp
  show "length (copy_row n src dst) = length dst" unfolding e using assms(1,2) by simp
qed

lemma strcpy_row_eq:
  "k + length (cstr src) < length dst \<Longrightarrow>
    strcpy_row k src dst = take k dst @ cstr src @ NUL # drop (Suc (k + length (cstr src))) dst"
proof (induction k src dst rule: strcpy_row.induct)
  case (1 k dst)
  then show ?case by (simp add: upd_conv_take_nth_drop)
next
  case (2 k c src dst)
  then show ?case by (auto simp: upd_conv_take_nth_drop add.commute)
qed

lemma strcpy_row_ok:
  assumes "row_ok src" and "length dst = 256"
  shows "row_ok (strcpy_row 0 src dst)" "cstr (strcpy_row 0 src dst) = cstr src"
proof -
  have l: "length (cstr src) < 256"
  proof -
    have "NUL \<in> set src" "length src = 256" using assms(1) by (simp_all add: row_ok_def)
    moreover have "length (cstr row) < length row" if "NUL \<in> set row" for row
      using that by (induction row) auto
    ultimately show ?thesis by fastforce
  qed
  then have e: "strcpy_row 0 src dst = cstr src @ NUL # drop (Suc (length (cstr src))) dst"
    using assms(2) by (simp add: strcpy_row_eq)
  show c: "cstr (strcpy_row 0 src dst) = cstr src"
    unfolding e by (rule cstr_append_NUL [OF cstr_no_NUL])
  show "row_ok (strcpy_row 0 src dst)"
    unfolding row_ok_def c using assms l by (simp add: e row_ok_def)
qed

lemma shift_history_upto:
  assumes "length hs = 10" and "\<forall>row\<in>set hs. row_ok row" and "n \<le> 9"
  defines "R \<equiv> fold (\<lambda>j hs. hs[j := strcpy_row 0 (hs ! (j + 1)) (hs ! j)]) [0..<n] hs"
  shows "length R = 10 \<and> (\<forall>row\<in>set R. row_ok row) \<and> (\<forall>j<n. cstr (R ! j) = cstr (hs ! (j + 1)))
    \<and> (\<forall>j\<ge>n. R ! j = hs ! j)"
  using assms(3) unfolding R_def
proof (induction n)
  case 0
  then show ?case using assms by simp
next
  case (Suc n)
  let ?Q = "fold (\<lambda>j hs. hs[j := strcpy_row 0 (hs ! (j + 1)) (hs ! j)]) [0..<n] hs"
  have q: "length ?Q = 10" "\<forall>row\<in>set ?Q. row_ok row" "\<forall>j<n. cstr (?Q ! j) = cstr (hs ! (j + 1))"
      "\<forall>j\<ge>n. ?Q ! j = hs ! j"
    using Suc by auto
  have "row_ok (?Q ! (n + 1))" "length (?Q ! n) = 256"
    using q(1,2) Suc.prems nth_mem [of "n + 1" ?Q] nth_mem [of n ?Q] by (auto simp: row_ok_def)
  note s = strcpy_row_ok [OF this]
  have "\<forall>row\<in>set (?Q[n := strcpy_row 0 (?Q ! (n + 1)) (?Q ! n)]). row_ok row"
    using q(2) s(1) set_update_subset_insert by fastforce
  then show ?case using q(1,3,4) s(2) Suc.prems by (auto simp: nth_list_update less_Suc_eq)
qed

lemma shift_history_spec:
  assumes "length hs = 10" and "\<forall>row\<in>set hs. row_ok row"
  shows "length (shift_history hs) = 10" "\<forall>row\<in>set (shift_history hs). row_ok row"
    "map cstr (take 9 (shift_history hs)) = tl (map cstr hs)"
proof -
  have "shift_history hs = fold (\<lambda>j hs. hs[j := strcpy_row 0 (hs ! (j + 1)) (hs ! j)]) [0..<9] hs"
    by (simp add: shift_history_def HISTORY_MAX_def)
  note u = shift_history_upto [OF assms order_refl, folded this]
  show "length (shift_history hs) = 10" "\<forall>row\<in>set (shift_history hs). row_ok row"
    using u by auto
  then show "map cstr (take 9 (shift_history hs)) = tl (map cstr hs)"
    using u assms(1) by (intro nth_equalityI) (auto simp: nth_tl)
qed

end
