(* ===== verification/Editor.thy ===== *)
theory Editor
  imports Keyboard_Spec
begin

text \<open>
  The line editor as its user sees it, over strings and lists of strings, and the proof that the
  keyboard driver implements it: every key has on the abstract editor the effect that the handler
  has on the arrays. The driver also keeps what is on the screen in step with the line, and hands the
  finished line to the command interpreter.
\<close>

section \<open>The abstract editor\<close>

record editor =
  ed_line :: "char list"
  ed_hist :: "char list list"
  ed_idx :: nat
  ed_shift :: bool
  ed_ctrl :: bool
  ed_e0 :: bool

datatype action = Skip | Up | Down | EraseWord | EraseChar | Enter | Insert char

text \<open>The last ten lines are remembered.\<close>

definition remember :: "char list \<Rightarrow> char list list \<Rightarrow> char list list" where
  "remember line hist = (let hist = hist @ [line] in drop (length hist - 10) hist)"

fun ed_do :: "action \<Rightarrow> editor \<Rightarrow> editor" where
  "ed_do Skip e = e"
| "ed_do Up e =
     (if ed_idx e = 0 then e else e\<lparr>ed_idx := ed_idx e - 1, ed_line := ed_hist e ! (ed_idx e - 1)\<rparr>)"
| "ed_do Down e =
     (if ed_idx e = length (ed_hist e) then e
      else e\<lparr>ed_idx := ed_idx e + 1,
             ed_line := (if ed_idx e + 1 < length (ed_hist e) then ed_hist e ! (ed_idx e + 1) else [])\<rparr>)"
| "ed_do EraseWord e =
     e\<lparr>ed_line := rev (dropWhile (\<lambda>c. c \<noteq> SPC) (dropWhile (\<lambda>c. c = SPC) (rev (ed_line e))))\<rparr>"
| "ed_do EraseChar e = e\<lparr>ed_line := butlast (ed_line e)\<rparr>"
| "ed_do Enter e =
     (let hist = (if ed_line e = [] then ed_hist e else remember (ed_line e) (ed_hist e))
      in e\<lparr>ed_line := [], ed_hist := hist, ed_idx := length hist\<rparr>)"
| "ed_do (Insert c) e = (if length (ed_line e) < 255 then e\<lparr>ed_line := ed_line e @ [c]\<rparr> else e)"

text \<open>The action of a key that is pressed while no prefix code is pending.\<close>

definition action_of :: "bool \<Rightarrow> char \<Rightarrow> action" where
  "action_of ctrl c =
     (if ctrl \<and> c \<in> {CHR ''w'', CHR ''W''} then EraseWord
      else if ctrl \<and> c \<in> {CHR ''p'', CHR ''P''} then Up
      else if c = NL then Enter else if c = BS then EraseChar else if c = NUL then Skip else Insert c)"

definition ed_key :: "u8 \<Rightarrow> editor \<Rightarrow> editor" where
  "ed_key k e =
     (if k = 0xE0 then e\<lparr>ed_e0 := True\<rparr>
      else if ed_e0 e then ed_do (if k = 0x48 then Up else if k = 0x50 then Down else Skip) (e\<lparr>ed_e0 := False\<rparr>)
      else if k \<in> {0x1D, 0x9D} then e\<lparr>ed_ctrl := (k = 0x1D)\<rparr>
      else if k \<in> {0x2A, 0x36, 0xAA, 0xB6} then e\<lparr>ed_shift := (k \<in> {0x2A, 0x36})\<rparr>
      else if 128 \<le> k then e
      else ed_do (action_of (ed_ctrl e)
             ((if ed_shift e then keyboard_map_shift else keyboard_map) ! unat k)) e)"

definition editor_of :: "'a terminal_scheme \<Rightarrow> editor" where
  "editor_of s = \<lparr>ed_line = line_of s, ed_hist = hist_of s, ed_idx = history_index s,
     ed_shift = shift_pressed s, ed_ctrl = ctrl_pressed s, ed_e0 = e0_pressed s\<rparr>"

lemma editor_of_flags [simp]:
  "ed_e0 (editor_of s) = e0_pressed s" "ed_ctrl (editor_of s) = ctrl_pressed s"
  "ed_shift (editor_of s) = shift_pressed s" "ed_line (editor_of s) = line_of s" "ed_hist (editor_of s) = hist_of s"
  by (simp_all add: editor_of_def)

text \<open>The simulation: a well-formed terminal stays well-formed and its abstraction makes the step.\<close>

definition implements :: "'a terminal_scheme \<Rightarrow> 'a terminal_scheme \<Rightarrow> (editor \<Rightarrow> editor) \<Rightarrow> bool" where
  "implements s t f \<longleftrightarrow> kbd_inv t \<and> editor_of t = f (editor_of s)"

section \<open>Every key implements its action\<close>

lemma editor_of_line: "same_hist s t \<Longrightarrow> editor_of t = (editor_of s)\<lparr>ed_line := line_of t\<rparr>"
  by (simp add: same_hist_def editor_of_def hist_of_def)

lemma kbd_invD:
  assumes "kbd_inv s"
  shows "length (cmd_buffer s) = 256" "cmd_len s \<le> 255" "plain (line_of s)" "length (history s) = 10"
    "history_count s \<le> 10" "history_index s \<le> history_count s"
    "length (line_of s) = cmd_len s" "length (hist_of s) = history_count s"
  using assms by (simp_all add: kbd_inv_def line_of_def hist_of_def)

lemma row_ok_short: "row_ok row \<Longrightarrow> length (cstr row) < 256"
proof -
  have "length (cstr row) < length row" if "NUL \<in> set row" for row
    using that by (induction row) auto
  then show "row_ok row \<Longrightarrow> length (cstr row) < 256" by (fastforce simp: row_ok_def)
qed

lemma kbd_inv_row:
  assumes "kbd_inv s" and "i < history_count s"
  shows "row_ok (history s ! i)" "hist_of s ! i = cstr (history s ! i)"
  using assms by (auto simp: kbd_inv_def hist_of_def)

lemma implements_line:
  assumes "kbd_inv s" and "same_hist s t" and "length (cmd_buffer t) = 256" and "cmd_len t \<le> 255"
    and "plain (line_of t)"
  shows "implements s t (\<lambda>e. e\<lparr>ed_line := line_of t\<rparr>)"
  unfolding implements_def using kbd_inv_line [OF assms] editor_of_line [OF assms(2)] by simp

lemma plain_Nil [simp]: "plain []"
  by (simp add: plain_def)

lemma plain_append [simp]: "plain (a @ b) \<longleftrightarrow> plain a \<and> plain b"
  by (auto simp: plain_def)

lemma plain_subset: "plain b \<Longrightarrow> set a \<subseteq> set b \<Longrightarrow> plain a"
  by (auto simp: plain_def)

text \<open>Loading a row of the history (or the empty string) into the line.\<close>

lemma cmd_set_implements:
  assumes "kbd_inv s" and "n \<le> history_count s" and "plain (cstr str)" and "length (cstr str) < 256"
  shows "implements s (cmd_set str (s\<lparr>history_index := n\<rparr>)) (\<lambda>e. e\<lparr>ed_idx := n, ed_line := cstr str\<rparr>)"
proof -
  let ?s = "s\<lparr>history_index := n\<rparr>"
  have i: "kbd_inv ?s" using assms(1,2) by (simp add: kbd_inv_def line_of_def)
  have e: "editor_of ?s = (editor_of s)\<lparr>ed_idx := n\<rparr>"
    by (simp add: editor_of_def line_of_def hist_of_def)
  have c: "same_hist ?s (cmd_set str ?s)" "length (cmd_buffer (cmd_set str ?s)) = 256"
      "cmd_len (cmd_set str ?s) \<le> 255" "line_of (cmd_set str ?s) = cstr str"
    using cmd_set_spec [OF kbd_invD(1) [OF i], of str] assms(4) by simp_all
  show ?thesis
    using implements_line [OF i c(1-3)] assms(3) by (simp add: implements_def e c(4))
qed

lemma history_up_implements:
  assumes "kbd_inv s"
  shows "implements s (history_up s) (ed_do Up)"
proof (cases "history_index s = 0")
  case True
  then show ?thesis using assms by (simp add: history_up_def implements_def editor_of_def)
next
  case False
  let ?n = "history_index s - 1"
  have n: "?n < history_count s" using False kbd_invD(6) [OF assms] by linarith
  note r = kbd_inv_row [OF assms n]
  have "implements s (cmd_set (history s ! ?n) (s\<lparr>history_index := ?n\<rparr>))
      (\<lambda>e. e\<lparr>ed_idx := ?n, ed_line := cstr (history s ! ?n)\<rparr>)"
    using r(1) n by (intro cmd_set_implements [OF assms] row_ok_short) (simp_all add: row_ok_def)
  then show ?thesis
    using False n r(2) by (simp add: history_up_def implements_def editor_of_def Let_def)
qed

lemma history_down_implements:
  assumes "kbd_inv s"
  shows "implements s (history_down s) (ed_do Down)"
proof -
  let ?n = "history_index s + 1"
  note d = kbd_invD [OF assms]
  consider (stay) "history_index s = history_count s" | (older) "?n < history_count s" | (last) "?n = history_count s"
    using d(6) by linarith
  then show ?thesis
  proof cases
    case stay
    then have "history_down s = s" by (simp add: history_down_def)
    then show ?thesis using assms d(8) stay by (simp add: implements_def editor_of_def)
  next
    case older
    note r = kbd_inv_row [OF assms older]
    have "implements s (cmd_set (history s ! ?n) (s\<lparr>history_index := ?n\<rparr>))
        (\<lambda>e. e\<lparr>ed_idx := ?n, ed_line := cstr (history s ! ?n)\<rparr>)"
      using r(1) older by (intro cmd_set_implements [OF assms] row_ok_short) (simp_all add: row_ok_def)
    moreover have "history_down s = cmd_set (history s ! ?n) (s\<lparr>history_index := ?n\<rparr>)"
      using older by (simp add: history_down_def Let_def less_diff_conv)
    ultimately show ?thesis
      using older r(2) d(8) by (simp add: implements_def editor_of_def)
  next
    case last
    have "implements s (cmd_set [] (s\<lparr>history_index := ?n\<rparr>)) (\<lambda>e. e\<lparr>ed_idx := ?n, ed_line := cstr []\<rparr>)"
      using last by (intro cmd_set_implements [OF assms]) simp_all
    moreover have "history_down s = cmd_set [] (s\<lparr>history_index := ?n\<rparr>)"
      using last [symmetric] by (simp add: history_down_def Let_def)
    ultimately show ?thesis
      using last d(8) by (simp add: implements_def editor_of_def)
  qed
qed

lemma backspace_word_implements:
  assumes "kbd_inv s"
  shows "implements s (backspace_word s) (ed_do EraseWord)"
proof -
  note d = kbd_invD [OF assms]
  let ?u = "erase_while (\<lambda>c. c = SPC) s"
  have l: "cmd_len s \<le> length (cmd_buffer s)" using d by simp
  note u = erase_while_spec [OF this, of "\<lambda>c. c = SPC"]
  have "cmd_len ?u \<le> length (cmd_buffer ?u)" using u l by (metis le_trans)
  note t = erase_while_spec [OF this, of "\<lambda>c. c \<noteq> SPC"]
  have e: "line_of (backspace_word s) = rev (dropWhile (\<lambda>c. c \<noteq> SPC) (dropWhile (\<lambda>c. c = SPC) (rev (line_of s))))"
    using u t by (simp add: backspace_word_def)
  have "set (line_of (backspace_word s)) \<subseteq> set (line_of s)"
    unfolding e by (auto dest!: set_dropWhileD)
  then have "implements s (backspace_word s) (\<lambda>e. e\<lparr>ed_line := line_of (backspace_word s)\<rparr>)"
    using u t d plain_subset [OF d(3)]
    by (intro implements_line [OF assms]) (auto simp: backspace_word_def intro: same_hist_trans)
  then show ?thesis unfolding e by (simp add: implements_def editor_of_def)
qed

lemma key_backspace_implements:
  assumes "kbd_inv s"
  shows "implements s (key_backspace s) (ed_do EraseChar)"
proof -
  note d = kbd_invD [OF assms]
  have e: "line_of (key_backspace s) = butlast (line_of s)"
    using d(1,2) by (simp add: key_backspace_def line_of_def butlast_take)
  have "implements s (key_backspace s) (\<lambda>e. e\<lparr>ed_line := line_of (key_backspace s)\<rparr>)"
  proof (rule implements_line [OF assms])
    show "plain (line_of (key_backspace s))"
      unfolding e by (rule plain_subset [OF d(3)]) (auto dest: in_set_butlastD)
  qed (use d in \<open>auto simp: key_backspace_def same_hist_def\<close>)
  then show ?thesis unfolding e by (simp add: implements_def editor_of_def)
qed

lemma key_char_implements:
  assumes "kbd_inv s" and "plain [c]"
  shows "implements s (key_char c s) (ed_do (Insert c))"
proof -
  note d = kbd_invD [OF assms(1)]
  note k = key_char_spec [OF d(1,2), of c]
  have "implements s (key_char c s) (\<lambda>e. e\<lparr>ed_line := line_of (key_char c s)\<rparr>)"
    using k d(3) assms by (intro implements_line) simp_all
  then show ?thesis by (simp add: implements_def editor_of_def k(4))
qed

section \<open>Enter\<close>

lemma line_row:
  assumes "kbd_inv s" and "cmd_buffer s ! cmd_len s = NUL" and "length dst = 256"
  shows "row_ok (copy_row (cmd_len s) (cmd_buffer s) dst)"
    "cstr (copy_row (cmd_len s) (cmd_buffer s) dst) = line_of s"
proof -
  note d = kbd_invD [OF assms(1)]
  have "cmd_len s < length (cmd_buffer s)" "cmd_len s < length dst" "NUL \<notin> set (take (cmd_len s) (cmd_buffer s))"
    using d assms(3) by (simp_all add: plain_def line_of_def)
  note c = copy_row_line [OF this assms(2), folded line_of_def]
  show "cstr (copy_row (cmd_len s) (cmd_buffer s) dst) = line_of s" by (rule c(1))
  show "row_ok (copy_row (cmd_len s) (cmd_buffer s) dst)"
    using c d(3) assms(3) by (simp add: row_ok_def)
qed

lemma rows_update: "\<forall>row\<in>set hs. P row \<Longrightarrow> P r \<Longrightarrow> \<forall>row\<in>set (hs[i := r]). P row"
  using set_update_subset_insert by fastforce

lemma history_push_spec:
  assumes "kbd_inv s" and "cmd_buffer s ! cmd_len s = NUL"
  shows "length (history (history_push s)) = 10 \<and> (\<forall>row\<in>set (history (history_push s)). row_ok row)
    \<and> history_count (history_push s) \<le> 10 \<and> hist_of (history_push s) = remember (line_of s) (hist_of s)"
proof -
  note d = kbd_invD [OF assms(1)]
  have rows: "\<forall>row\<in>set (history s). row_ok row" using assms(1) by (simp add: kbd_inv_def)
  have len: "length (hs ! i) = 256" if "length hs = 10" "\<forall>row\<in>set hs. row_ok row" "i < 10" for hs :: "char list list" and i
    using that nth_mem [of i hs] by (auto simp: row_ok_def)
  show ?thesis
  proof (cases "history_count s < 10")
    case True
    note r = line_row [OF assms len [OF d(4) rows True]]
    show ?thesis
      using True d rows_update [OF rows r(1)] r(2)
      by (simp add: history_push_def HISTORY_MAX_def hist_of_def remember_def take_Suc_conv_app_nth)
  next
    case False
    then have n: "history_count s = 10" using d(5) by simp
    note h = shift_history_spec [OF d(4) rows]
    note r = line_row [OF assms len [OF h(1,2), of 9]]
    have "map cstr (take 10 ((shift_history (history s))[9 := x])) = tl (map cstr (history s)) @ [cstr x]" for x
      using h(1,3) take_Suc_conv_app_nth [of 9 "(shift_history (history s))[9 := x]"] by simp
    then show ?thesis
      using n d h rows_update [OF h(2) r(1)] r(2)
      by (simp add: history_push_def HISTORY_MAX_def hist_of_def remember_def Let_def drop_Suc)
  qed
qed

text \<open>The state in which the command interpreter is called, and the buffer it is given.\<close>

definition entered :: "'a terminal_scheme \<Rightarrow> 'a terminal_scheme" where
  "entered s =
     (let s = kprint [NL] s;
          s = s\<lparr>cmd_buffer := (cmd_buffer s)[cmd_len s := NUL]\<rparr>;
          s = (if 0 < cmd_len s then history_push s else s)
      in s\<lparr>history_index := history_count s\<rparr>)"

lemma key_enter_entered:
  "key_enter poll h s =
     map_option (\<lambda>s. kprint ''OS> '' (s\<lparr>cmd_len := 0\<rparr>)) (execute_command poll h (cmd_buffer (entered s)) (entered s))"
  by (simp add: key_enter_def entered_def Let_def map_conv_bind_option comp_def)

lemma history_push_others [simp]:
  "cmd_buffer (history_push s) = cmd_buffer s" "cmd_len (history_push s) = cmd_len s"
  "shift_pressed (history_push s) = shift_pressed s" "ctrl_pressed (history_push s) = ctrl_pressed s"
  "e0_pressed (history_push s) = e0_pressed s"
  by (simp_all add: history_push_def Let_def)

lemma entered_spec:
  assumes "kbd_inv s"
  shows "cstr (cmd_buffer (entered s)) = line_of s" "kbd_inv (entered s)"
    "editor_of ((entered s)\<lparr>cmd_len := 0\<rparr>) = ed_do Enter (editor_of s)" "kbd_inv ((entered s)\<lparr>cmd_len := 0\<rparr>)"
proof -
  note d = kbd_invD [OF assms]
  let ?u = "(kprint [NL] s)\<lparr>cmd_buffer := (cmd_buffer s)[cmd_len s := NUL]\<rparr>"
  define v where "v = (if 0 < cmd_len s then history_push ?u else ?u)"
  have u: "cmd_buffer ?u ! cmd_len ?u = NUL" "line_of ?u = line_of s" "hist_of ?u = hist_of s"
    using d by (simp_all add: line_of_def hist_of_def)
  then have k: "kbd_inv ?u" using assms by (simp add: kbd_inv_def)
  have e: "entered s = v\<lparr>history_index := history_count v\<rparr>"
    by (simp add: entered_def v_def Let_def)
  have buf: "cmd_buffer v = (cmd_buffer s)[cmd_len s := NUL]" "cmd_len v = cmd_len s"
      "shift_pressed v = shift_pressed s" "ctrl_pressed v = ctrl_pressed s" "e0_pressed v = e0_pressed s"
    by (simp_all add: v_def)
  have "(cmd_buffer s)[cmd_len s := NUL] = line_of s @ NUL # drop (Suc (cmd_len s)) (cmd_buffer s)"
    using d by (simp add: line_of_def upd_conv_take_nth_drop)
  then show "cstr (cmd_buffer (entered s)) = line_of s"
    using d(3) by (simp add: e buf plain_def cstr_append_NUL)
  have l: "line_of v = line_of s" by (simp add: line_of_def buf)
  have "length (history v) = 10 \<and> (\<forall>row\<in>set (history v). row_ok row) \<and> history_count v \<le> 10
      \<and> hist_of v = (if line_of s = [] then hist_of s else remember (line_of s) (hist_of s))"
  proof (cases "cmd_len s = 0")
    case True
    then have "v = ?u" "line_of s = []" by (simp_all add: v_def line_of_def)
    then show ?thesis
      using k u(3) by (simp add: kbd_inv_def)
  next
    case False
    then have "v = history_push ?u" "line_of s \<noteq> []" using d(7) by (auto simp: v_def)
    then show ?thesis using history_push_spec [OF k u(1)] u(2,3) by simp
  qed
  then have v: "length (history v) = 10" "\<forall>row\<in>set (history v). row_ok row" "history_count v \<le> 10"
      "hist_of v = (if line_of s = [] then hist_of s else remember (line_of s) (hist_of s))"
    by blast+
  show i: "kbd_inv (entered s)"
    using v(1-3) d(1-3) l by (simp add: e kbd_inv_def line_of_def buf)
  show "kbd_inv ((entered s)\<lparr>cmd_len := 0\<rparr>)"
    using i by (simp add: kbd_inv_def line_of_def)
  have "length (hist_of v) = history_count v" using v(1,3) by (simp add: hist_of_def)
  moreover have "hist_of ((entered s)\<lparr>cmd_len := 0\<rparr>) = hist_of v" by (simp add: e hist_of_def)
  ultimately show "editor_of ((entered s)\<lparr>cmd_len := 0\<rparr>) = ed_do Enter (editor_of s)"
    using v(4) by (auto simp: editor_of_def line_of_def [of "_\<lparr>cmd_len := 0\<rparr>"] Let_def e buf)
qed

lemma key_step_entered: "key_step s (entered s)"
proof -
  let ?u = "(kprint [NL] s)\<lparr>cmd_buffer := (cmd_buffer s)[cmd_len s := NUL]\<rparr>"
  define v where "v = (if 0 < cmd_len s then history_push ?u else ?u)"
  have "key_step s ?u" by (rule key_step_trans [OF key_step_kprint key_step_fields(2)])
  then have "key_step s v" unfolding v_def by (auto intro: key_step_trans [OF _ key_step_history_push])
  moreover have "entered s = v\<lparr>history_index := history_count v\<rparr>"
    by (simp add: entered_def v_def Let_def)
  ultimately show ?thesis using key_step_trans [OF _ key_step_fields(4)] by simp
qed

lemma kbd_fields_cong:
  assumes "cmd_buffer t = cmd_buffer s" "cmd_len t = cmd_len s" "history t = history s"
    "history_count t = history_count s" "history_index t = history_index s"
    "shift_pressed t = shift_pressed s" "ctrl_pressed t = ctrl_pressed s" "e0_pressed t = e0_pressed s"
  shows "kbd_inv t = kbd_inv s" "editor_of t = editor_of s"
  using assms by (simp_all add: kbd_inv_def editor_of_def line_of_def hist_of_def)

section \<open>The handler\<close>

lemma implements_trans: "implements s t f \<Longrightarrow> implements t u g \<Longrightarrow> implements s u (\<lambda>e. g (f e))"
  by (simp add: implements_def)

lemma implements_flags:
  assumes "kbd_inv s"
  shows "implements s (s\<lparr>e0_pressed := b\<rparr>) (ed_e0_update (\<lambda>_. b))"
    "implements s (s\<lparr>ctrl_pressed := b\<rparr>) (ed_ctrl_update (\<lambda>_. b))"
    "implements s (s\<lparr>shift_pressed := b\<rparr>) (ed_shift_update (\<lambda>_. b))"
    "implements s s (ed_do Skip)"
  using assms by (simp_all add: implements_def kbd_inv_def line_of_def editor_of_def hist_of_def)

lemma release_bit: "keycode AND 0x80 \<noteq> 0 \<longleftrightarrow> 128 \<le> keycode" for keycode :: u8
proof -
  have "bit keycode 7 \<longleftrightarrow> bit (unat keycode) 7" by (simp add: bit_unsigned_iff)
  also have "\<dots> \<longleftrightarrow> odd (unat keycode div 128)" by (simp add: bit_iff_odd)
  also have "\<dots> \<longleftrightarrow> unat keycode div 128 = 1"
  proof -
    have "unat keycode div 128 < 2" using unat_less_size [of keycode] by simp
    then show ?thesis by (metis even_zero less_2_cases odd_one One_nat_def)
  qed
  also have "\<dots> \<longleftrightarrow> 128 \<le> keycode"
    using unat_less_size [of keycode] by (auto simp: word_le_nat_alt)
  finally show ?thesis
    using and_exp_eq_0_iff_not_bit [of keycode 7] by (simp add: numeral_eq_Suc)
qed

text \<open>The poll function the keyboard is given works on the state that contains the terminal.\<close>

locale terminal_poller = poller poll for poll :: "'a terminal_scheme \<Rightarrow> 'a terminal_scheme option"
begin

lemma key_enter_implements:
  assumes "kbd_inv s" and "key_enter poll h s = Some t"
  shows "implements s t (ed_do Enter)"
proof -
  obtain u where u: "execute_command poll h (cmd_buffer (entered s)) (entered s) = Some u"
      and t: "t = kprint ''OS> '' (u\<lparr>cmd_len := 0\<rparr>)"
    using assms(2) by (auto simp: key_enter_entered)
  note f = shell_step_terminal [OF execute_command_step [OF u]]
  have "kbd_inv t = kbd_inv ((entered s)\<lparr>cmd_len := 0\<rparr>)" "editor_of t = editor_of ((entered s)\<lparr>cmd_len := 0\<rparr>)"
    by (rule kbd_fields_cong; simp add: t f)+
  then show ?thesis using entered_spec [OF assms(1)] by (simp add: implements_def)
qed

lemma key_enter_step:
  assumes "key_enter poll h s = Some t"
  shows "key_step s t"
proof -
  obtain u where u: "execute_command poll h (cmd_buffer (entered s)) (entered s) = Some u"
      and t: "t = kprint ''OS> '' (u\<lparr>cmd_len := 0\<rparr>)"
    using assms by (auto simp: key_enter_entered)
  have e: "key_step s (entered s)" by (rule key_step_entered)
  show ?thesis
    unfolding t by (rule key_step_trans [OF e key_step_trans [OF key_step_shell [OF execute_command_step [OF u]]
        key_step_trans [OF key_step_fields(1) key_step_kprint]]])
qed

lemma on_key_cases:
  assumes "on_key poll h k s = Some t"
  obtains (enter) "key_enter poll h s = Some t" | (other) "key_step s t"
proof -
  have "key_enter poll h s = Some t \<or> key_step s t"
    using assms unfolding on_key_def Let_def
    by (elim if_SomeE)
       (auto intro: key_step_trans [OF key_step_fields(9)] key_step_history_up key_step_history_down
          key_step_backspace_word key_step_key_backspace key_step_key_char)
  then show ?thesis using that by blast
qed

lemma on_key_step: "on_key poll h k s = Some t \<Longrightarrow> key_step s t"
  by (erule on_key_cases) (auto intro: key_enter_step)

lemma char_key_implements:
  assumes "kbd_inv s"
    and "(if ctrl_pressed s \<and> (c = CHR ''w'' \<or> c = CHR ''W'') then Some (backspace_word s)
      else if ctrl_pressed s \<and> (c = CHR ''p'' \<or> c = CHR ''P'') then Some (history_up s)
      else if c = NL then key_enter poll h s
      else if c = BS then Some (key_backspace s)
      else if c \<noteq> NUL then Some (key_char c s) else Some s) = Some t"
  shows "implements s t (ed_do (action_of (ctrl_pressed s) c))"
proof -
  let ?w = "ctrl_pressed s \<and> (c = CHR ''w'' \<or> c = CHR ''W'')"
  let ?p = "ctrl_pressed s \<and> (c = CHR ''p'' \<or> c = CHR ''P'')"
  consider (w) "?w" | (p) "\<not> ?w" "?p" | (nl) "\<not> ?w" "\<not> ?p" "c = NL" | (bs) "\<not> ?w" "\<not> ?p" "c = BS"
    | (nul) "\<not> ?w" "\<not> ?p" "c = NUL" | (ins) "\<not> ?w" "\<not> ?p" "c \<noteq> NL" "c \<noteq> BS" "c \<noteq> NUL"
    by argo
  then show ?thesis
  proof cases
    case w
    then have "action_of (ctrl_pressed s) c = EraseWord" "t = backspace_word s"
      using assms(2) by (simp_all add: action_of_def)
    then show ?thesis using backspace_word_implements [OF assms(1)] by simp
  next
    case p
    then have "action_of (ctrl_pressed s) c = Up" "t = history_up s"
      using assms(2) by (simp_all add: action_of_def)
    then show ?thesis using history_up_implements [OF assms(1)] by simp
  next
    case nl
    then have "action_of (ctrl_pressed s) c = Enter" "key_enter poll h s = Some t"
      using assms(2) by (simp_all add: action_of_def)
    then show ?thesis using key_enter_implements [OF assms(1)] by simp
  next
    case bs
    then have "action_of (ctrl_pressed s) c = EraseChar" "t = key_backspace s"
      using assms(2) by (simp_all add: action_of_def)
    then show ?thesis using key_backspace_implements [OF assms(1)] by simp
  next
    case nul
    then have "action_of (ctrl_pressed s) c = Skip" "t = s"
      using assms(2) by (simp_all add: action_of_def)
    then show ?thesis using implements_flags(4) [OF assms(1)] by simp
  next
    case ins
    then have "action_of (ctrl_pressed s) c = Insert c" "t = key_char c s" "plain [c]"
      using assms(2) by (auto simp: action_of_def plain_def)
    then show ?thesis using key_char_implements [OF assms(1)] by simp
  qed
qed

lemma on_key_implements:
  assumes "kbd_inv s" and "on_key poll h k s = Some t"
  shows "implements s t (ed_key k)"
proof -
  note fl = implements_flags [OF assms(1)]
  consider (prefix) "k = 0xE0" | (ext) "k \<noteq> 0xE0" "e0_pressed s"
    | (modifier) "k \<in> {0x1D, 0x9D, 0x2A, 0x36, 0xAA, 0xB6}" "\<not> e0_pressed s"
    | (released) "k \<notin> {0xE0, 0x1D, 0x9D, 0x2A, 0x36, 0xAA, 0xB6}" "\<not> e0_pressed s" "128 \<le> k"
    | (pressed) "k \<notin> {0xE0, 0x1D, 0x9D, 0x2A, 0x36, 0xAA, 0xB6}" "\<not> e0_pressed s" "\<not> 128 \<le> k"
    by blast
  then show ?thesis
  proof cases
    case prefix
    then show ?thesis using assms(2) fl(1) [of True] by (simp add: on_key_def implements_def ed_key_def)
  next
    case ext
    let ?s = "s\<lparr>e0_pressed := False\<rparr>"
    have i: "kbd_inv ?s" using fl(1) [of False] by (simp add: implements_def)
    have r: "(if k AND 0x80 \<noteq> 0 then Some ?s else if k = 0x48 then Some (history_up ?s)
        else if k = 0x50 then Some (history_down ?s) else Some ?s) = Some t"
      using assms(2) ext by (simp add: on_key_def Let_def)
    have "implements ?s t (ed_do (if k = 0x48 then Up else if k = 0x50 then Down else Skip))"
    proof -
      consider (up) "k = 0x48" | (down) "k = 0x50" | (none) "k \<noteq> 0x48" "k \<noteq> 0x50" by blast
      then show ?thesis
      proof cases
        case up
        then show ?thesis using r history_up_implements [OF i] by simp
      next
        case down
        then show ?thesis using r history_down_implements [OF i] by simp
      next
        case none
        then have "t = ?s" using r by (simp split: if_splits)
        then show ?thesis using none implements_flags(4) [OF i] by simp
      qed
    qed
    then have "kbd_inv t" "editor_of t = ed_do (if k = 0x48 then Up else if k = 0x50 then Down else Skip)
        ((editor_of s)\<lparr>ed_e0 := False\<rparr>)"
      using fl(1) [of False] unfolding implements_def by metis+
    moreover have "ed_key k (editor_of s) = ed_do (if k = 0x48 then Up else if k = 0x50 then Down else Skip)
        ((editor_of s)\<lparr>ed_e0 := False\<rparr>)"
      unfolding ed_key_def editor_of_flags using ext by (simp only: if_True if_False)
    ultimately show ?thesis unfolding implements_def by (simp only:)
  next
    case modifier
    then consider "k = 0x1D" | "k = 0x9D" | "k = 0x2A" | "k = 0x36" | "k = 0xAA" | "k = 0xB6" by blast
    then show ?thesis
      using assms(2) modifier(2) fl(2) [of True] fl(2) [of False] fl(3) [of True] fl(3) [of False]
      by cases (simp_all add: on_key_def implements_def ed_key_def)
  next
    case released
    then have "t = s" using assms(2) release_bit [of k] by (simp add: on_key_def)
    moreover have "ed_key k (editor_of s) = editor_of s" using released by (simp add: ed_key_def)
    ultimately show ?thesis using assms(1) by (simp add: implements_def)
  next
    case pressed
    then have "implements s t (ed_do (action_of (ctrl_pressed s)
        (if shift_pressed s then keyboard_map_shift ! unat k else keyboard_map ! unat k)))"
      using assms(2) release_bit [of k] by (intro char_key_implements [OF assms(1)]) (simp add: on_key_def Let_def)
    moreover have "ed_key k (editor_of s) = ed_do (action_of (ctrl_pressed s)
        (if shift_pressed s then keyboard_map_shift ! unat k else keyboard_map ! unat k)) (editor_of s)"
      using pressed by (cases "shift_pressed s") (simp_all add: ed_key_def)
    ultimately show ?thesis by (simp add: implements_def)
  qed
qed

lemma handler_kbd_inv:
  assumes "keyboard_handler_main poll h s = Some t" and "kbd_inv s"
  shows "kbd_inv t"
proof -
  have c: "kbd_inv (snd (read_port h p u)) = kbd_inv u" "kbd_inv (write_port p d u) = kbd_inv u" for p d and u :: "'a terminal_scheme"
    by (simp_all add: kbd_inv_def line_of_def read_port_def write_port_def Let_def)
  show ?thesis
    using assms on_key_implements [of "snd (read_port h KEYBOARD_DATA_PORT (snd (read_port h KEYBOARD_STATUS_PORT
        (write_port 0x20 0x20 s))))"]
    by (auto simp: keyboard_handler_main_def split_beta Let_def c implements_def split: if_splits)
qed

lemma keyboard_handler_step: "keyboard_handler_main poll h s = Some t \<Longrightarrow> key_step s t"
proof -
  assume t: "keyboard_handler_main poll h s = Some t"
  let ?v = "snd (read_port h KEYBOARD_STATUS_PORT (write_port 0x20 0x20 s))"
  have v: "key_step s ?v"
    by (rule key_step_trans [OF key_step_console [OF console_op_write_port] key_step_console [OF console_op_read_port]])
  then have "key_step s (snd (read_port h KEYBOARD_DATA_PORT ?v))"
    by (rule key_step_trans [OF _ key_step_console [OF console_op_read_port]])
  with v t show ?thesis
    by (auto simp: keyboard_handler_main_def split_beta Let_def split: if_splits
        intro: key_step_trans [OF _ on_key_step])
qed

end

locale returning_terminal = returning_poller poll good + terminal_poller poll
  for poll :: "'a terminal_scheme \<Rightarrow> 'a terminal_scheme option" and good +
  assumes good_key: "good s \<Longrightarrow> key_step s t \<Longrightarrow> good t"
begin

lemma key_enter_returns: "good s \<Longrightarrow> fs_inv s \<Longrightarrow> \<exists>t. key_enter poll h s = Some t"
proof -
  assume "good s" "fs_inv s"
  then have "good (entered s)" "fs_inv (entered s)"
    using good_key key_step_entered key_step_def by blast+
  then show ?thesis using execute_command_returns [of "entered s"] by (simp add: key_enter_entered)
qed

lemma on_key_returns: "good s \<Longrightarrow> fs_inv s \<Longrightarrow> \<exists>t. on_key poll h k s = Some t"
  unfolding on_key_def Let_def using key_enter_returns [of s h] by (intro if_Some_ex) auto

lemma keyboard_handler_returns:
  assumes "good s" and "fs_inv s"
  shows "\<exists>t. keyboard_handler_main poll h s = Some t"
proof -
  have c: "key_step s (snd (read_port h q (snd (read_port h p (write_port r d s)))))"
      "key_step s (snd (read_port h p (write_port r d s)))" for p q r d
    by (rule key_step_trans [OF key_step_console [OF console_op_write_port]
          key_step_trans [OF key_step_console [OF console_op_read_port] key_step_console [OF console_op_read_port]]],
        rule key_step_trans [OF key_step_console [OF console_op_write_port] key_step_console [OF console_op_read_port]])
  let ?u = "snd (read_port h KEYBOARD_DATA_PORT (snd (read_port h KEYBOARD_STATUS_PORT (write_port 0x20 0x20 s))))"
  have "good ?u" "fs_inv ?u"
    using c(1) assms good_key unfolding key_step_def by blast+
  then have "\<exists>t. on_key poll h k ?u = Some t" for k by (rule on_key_returns)
  then show ?thesis by (simp add: keyboard_handler_main_def split_beta Let_def)
qed

end

lemma key_step_iobase: "key_step s t \<Longrightarrow> net_iobase t = net_iobase s"
proof -
  assume "key_step s t"
  then have "key_others t = key_others s" by (simp add: key_step_def)
  moreover have "net_iobase (key_others u) = net_iobase u" for u :: "'a terminal_scheme"
    by (simp add: key_others_def shell_others_def others_def)
  ultimately show ?thesis by metis
qed

lemma polls_enough_key:
  assumes "polls_enough h n fuel s" and "key_step s t"
  shows "polls_enough h n fuel t"
proof -
  obtain i where "io t = i @ io s" using assms(2) unfolding key_step_def by blast
  then have "capr_count b (io s) \<le> capr_count b (io t)" for b by (simp add: capr_count_def)
  then show ?thesis
    using assms(1) diff_le_mono2 [of "capr_count (net_iobase s) (io s)" _ n]
    by (simp add: polls_enough_def key_step_iobase [OF assms(2)]) (meson le_less_trans)
qed

interpretation tp: terminal_poller "net_poll h fuel" for h fuel
  by (rule terminal_poller.intro) (rule net_poll_poller)

interpretation tr: returning_terminal "net_poll h fuel" "polls_enough h n fuel" for h fuel n
  by (intro returning_terminal.intro returning_terminal_axioms.intro net_poll_returning
      terminal_poller.intro net_poll_poller) (rule polls_enough_key)

section \<open>Properties\<close>

text \<open>The bytes the handler reads: the status port behind its end-of-interrupt, then the data port.\<close>

definition key_event :: "hw \<Rightarrow> io_event list \<Rightarrow> u8 option" where
  "key_event h tr =
     (let status = hw_in h (Out 0x20 0x20 # tr) 0x64
      in if status AND 1 = 0 then None else Some (hw_in h (In 0x64 status # Out 0x20 0x20 # tr) 0x60))"

lemma handler_cases:
  "keyboard_handler_main poll h s =
     (case key_event h (io s) of
        None \<Rightarrow> Some (snd (read_port h 0x64 (write_port 0x20 0x20 s)))
      | Some k \<Rightarrow> on_key poll h k (snd (read_port h 0x60 (snd (read_port h 0x64 (write_port 0x20 0x20 s))))))"
  by (simp add: keyboard_handler_main_def key_event_def read_port_def write_port_def Let_def
      KEYBOARD_STATUS_PORT_def KEYBOARD_DATA_PORT_def)

lemma kbd_ports:
  "kbd_inv (snd (read_port h p s)) = kbd_inv s" "editor_of (snd (read_port h p s)) = editor_of s"
  "kbd_inv (write_port p d s) = kbd_inv s" "editor_of (write_port p d s) = editor_of s"
  by (rule kbd_fields_cong; simp add: read_port_def write_port_def Let_def)+

text \<open>C3: The keyboard driver implements the line editor: whatever key arrives, the handler leaves
  the terminal well-formed (the line and the rows of the history terminated and inside their arrays
  of 256 characters, the history index in range), and the line, the history, the index and the
  modifiers change as the abstract editor prescribes. A spurious interrupt changes nothing.\<close>

theorem keyboard_refines_editor:
  assumes "keyboard_handler_main (net_poll h fuel) h s = Some t" and "kbd_inv s"
  shows "kbd_inv t \<and> editor_of t = (case key_event h (io s) of None \<Rightarrow> editor_of s | Some k \<Rightarrow> ed_key k (editor_of s))"
proof (cases "key_event h (io s)")
  case None
  then have "t = snd (read_port h 0x64 (write_port 0x20 0x20 s))" using assms(1) by (simp add: handler_cases)
  then show ?thesis using None assms(2) by (simp add: kbd_ports)
next
  case (Some k)
  let ?u = "snd (read_port h 0x60 (snd (read_port h 0x64 (write_port 0x20 0x20 s))))"
  have "on_key (net_poll h fuel) h k ?u = Some t" using assms(1) Some by (simp add: handler_cases)
  moreover have "kbd_inv ?u" using assms(2) by (simp add: kbd_ports)
  ultimately have "implements ?u t (ed_key k)" by (rule tp.on_key_implements [rotated])
  then show ?thesis using Some by (simp add: implements_def kbd_ports)
qed

definition blank_terminal :: terminal where
  "blank_terminal = with_keyboard_globals blank_net"

lemma blank_terminal_fields:
  "cmd_buffer blank_terminal = replicate 256 NUL" "cmd_len blank_terminal = 0"
  "history blank_terminal = replicate 10 (replicate 256 NUL)" "history_count blank_terminal = 0"
  "history_index blank_terminal = 0" "shift_pressed blank_terminal = False"
  "ctrl_pressed blank_terminal = False" "e0_pressed blank_terminal = False"
  "io blank_terminal = io blank_net" "net_iobase blank_terminal = 0"
  "fs_table blank_terminal = fs_table blank_net" "fs_cwd blank_terminal = fs_cwd blank_net"
  by (simp_all add: blank_terminal_def with_keyboard_globals_def netif.defs terminal.defs blank_net_def
      with_net_globals_def fsys.defs)

lemma blank_terminal_inv [simp]: "kbd_inv blank_terminal" "line_of blank_terminal = []" "hist_of blank_terminal = []"
proof -
  have "row_ok (replicate 256 NUL)"
    by (simp add: row_ok_def cstr_def numeral_eq_Suc)
  then show "kbd_inv blank_terminal" by (simp add: kbd_inv_def line_of_def blank_terminal_fields)
qed (simp_all add: line_of_def hist_of_def blank_terminal_fields)

text \<open>A board on which one key is pressed, and nothing else happens.\<close>

definition key_board :: "u8 \<Rightarrow> hw" where
  "key_board k = idle_board\<lparr>hw_in := \<lambda>_ p. if p = 0x60 then k else 0xFF\<rparr>"

lemma key_board_event: "key_event (key_board k) tr = Some k"
  by (simp add: key_event_def key_board_def Let_def)

theorem keyboard_refines_editor_witness:
  "\<exists>t. keyboard_handler_main (net_poll (key_board 0x1E) 1) (key_board 0x1E) blank_terminal = Some t
     \<and> line_of t = ''a''"
proof -
  have "keyboard_handler_main (net_poll (key_board 0x1E) 1) (key_board 0x1E) blank_terminal \<noteq> None"
    unfolding handler_cases key_board_event
    by (simp add: on_key_def read_port_def write_port_def Let_def blank_terminal_fields keyboard_map_def)
  then obtain t where t: "keyboard_handler_main (net_poll (key_board 0x1E) 1) (key_board 0x1E) blank_terminal = Some t"
    by blast
  have "editor_of t = ed_key 0x1E (editor_of blank_terminal)"
    using keyboard_refines_editor [OF t] by (simp add: key_board_event)
  then have "ed_line (editor_of t) = ''a''"
    by (simp add: ed_key_def action_of_def blank_terminal_fields keyboard_map_def)
  then show ?thesis using t by simp
qed

text \<open>C28: The keyboard interrupt returns, whatever line is entered: a command ends as soon as polling the
  card does, and the network traffic of a command cannot keep the handler busy for longer than the
  card delivers frames.\<close>

theorem keyboard_handler_terminates:
  assumes "fs_inv s" and "quiet_after n h (net_iobase s)" and "n < fuel"
  shows "\<exists>t. keyboard_handler_main (net_poll h fuel) h s = Some t \<and> fs_inv t \<and> (net_inv s \<longrightarrow> net_inv t)"
proof -
  have "polls_enough h n fuel s" using assms(2,3) by (simp add: polls_enough_def)
  from tr.keyboard_handler_returns [OF this assms(1)] obtain t where
    t: "keyboard_handler_main (net_poll h fuel) h s = Some t" by blast
  then have "key_step s t" by (rule tp.keyboard_handler_step)
  then show ?thesis using t assms(1) by (simp add: key_step_def net_inv_upto)
qed

lemma blank_terminal_loc: "current_loc blank_terminal = 0"
  by (simp add: blank_terminal_def with_keyboard_globals_def netif.defs terminal.defs blank_net_def
      with_net_globals_def fsys.defs blank_fs_def fs_init_def Let_def upd_ent_def)

lemma blank_terminal_safe: "fs_inv blank_terminal" "net_inv blank_terminal"
proof -
  have "fs_inv blank_terminal = fs_inv blank_fs"
    by (rule fs_inv_cong) (simp_all add: blank_terminal_fields blank_net_def with_net_globals_def fsys.defs)
  then show "fs_inv blank_terminal" using blank_fs_inv by simp
  have "net_inv blank_terminal = net_inv blank_net"
    by (simp add: net_inv_def blank_terminal_def with_keyboard_globals_def netif.defs terminal.defs
        blank_net_def with_net_globals_def fsys.defs)
  then show "net_inv blank_terminal" by simp
qed

lemma key_board_quiet: "polls_enough (key_board k) 0 1 blank_terminal"
  by (simp add: polls_enough_def quiet_after_def key_board_def blank_terminal_fields RTL_CR_def RTL_CR_RXBUFEMPTY_def)

theorem keyboard_handler_terminates_witness:
  "\<exists>t. keyboard_handler_main (net_poll (key_board 0x1C) 1) (key_board 0x1C) blank_terminal = Some t"
  using keyboard_handler_terminates [of blank_terminal 0 "key_board 0x1C" 1] blank_terminal_safe
    key_board_quiet [of "0x1C"]
  by (auto simp: polls_enough_def)

end
