(* ===== verification/Devices.thy ===== *)
theory Devices
  imports Editor
begin

text \<open>
  The timer and the PS/2 mouse of \<open>kernel.c\<close>: the tick counter, the programming of the interval timer,
  the bounded waits for the keyboard controller, the start-up of the mouse, and the mouse interrupt,
  which assembles packets of three bytes, moves the pointer and keeps the cell under it inverted.

  \<open>char mouse_byte[3]\<close> is an array of signed characters (gcc on x86), so its bytes are read with \<open>sint\<close>
  where the code does arithmetic on them. The coordinates are C integers that stay in a small range.
\<close>

record devices = terminal +
  timer_ticks :: u32
  mouse_cycle :: int
  mouse_byte :: "u8 list"
  mouse_x :: int
  mouse_y :: int

text \<open>The globals of the timer and the mouse as the C program starts with them.\<close>

definition with_device_globals :: "terminal \<Rightarrow> devices" where
  "with_device_globals s = terminal.extend s (devices.fields 0 0 (replicate 3 0) 40 12)"

section \<open>Timer\<close>

definition PIT_COMMAND_PORT :: u16 where "PIT_COMMAND_PORT = 0x43"
definition PIT_CHANNEL_0_PORT :: u16 where "PIT_CHANNEL_0_PORT = 0x40"

definition timer_handler_main :: "'a devices_scheme \<Rightarrow> 'a devices_scheme" where
  "timer_handler_main s = write_port 0x20 0x20 (s\<lparr>timer_ticks := timer_ticks s + 1\<rparr>)"

definition pit_init :: "'a machine_scheme \<Rightarrow> 'a machine_scheme" where
  "pit_init s =
     (let divisor = 11931 :: u16;
          s = write_port PIT_COMMAND_PORT 0x36 s;
          s = write_port PIT_CHANNEL_0_PORT (ucast (divisor AND 0xFF)) s
      in write_port PIT_CHANNEL_0_PORT (ucast (drop_bit 8 divisor AND 0xFF)) s)"

section \<open>Mouse\<close>

text \<open>\<open>while (time_out--) { if (...) return; }\<close>\<close>

primrec mouse_wait_loop :: "hw \<Rightarrow> u8 \<Rightarrow> nat \<Rightarrow> 'a machine_scheme \<Rightarrow> 'a machine_scheme" where
  "mouse_wait_loop h a_type 0 s = s"
| "mouse_wait_loop h a_type (Suc time_out) s =
     (let (v, s) = read_port h 0x64 s in
      if (if a_type = 0 then v AND 1 = 1 else v AND 2 = 0) then s
      else mouse_wait_loop h a_type time_out s)"

definition mouse_wait :: "hw \<Rightarrow> u8 \<Rightarrow> 'a machine_scheme \<Rightarrow> 'a machine_scheme" where
  "mouse_wait h a_type s = mouse_wait_loop h a_type 100000 s"

definition mouse_write :: "hw \<Rightarrow> u8 \<Rightarrow> 'a machine_scheme \<Rightarrow> 'a machine_scheme" where
  "mouse_write h a_write s =
     (let s = mouse_wait h 1 s;
          s = write_port 0x64 0xD4 s;
          s = mouse_wait h 1 s
      in write_port 0x60 a_write s)"

definition mouse_read :: "hw \<Rightarrow> 'a machine_scheme \<Rightarrow> u8 \<times> 'a machine_scheme" where
  "mouse_read h s = read_port h 0x60 (mouse_wait h 0 s)"

definition mouse_init :: "hw \<Rightarrow> 'a machine_scheme \<Rightarrow> 'a machine_scheme" where
  "mouse_init h s =
     (let s = mouse_wait h 1 s;
          s = write_port 0x64 0xA8 s;
          s = mouse_wait h 1 s;
          s = write_port 0x64 0x20 s;
          s = mouse_wait h 0 s;
          (v, s) = read_port h 0x60 s;
          status = v OR 2;
          s = mouse_wait h 1 s;
          s = write_port 0x64 0x60 s;
          s = mouse_wait h 1 s;
          s = write_port 0x60 status s;
          s = mouse_write h 0xF6 s;
          (_, s) = mouse_read h s;
          s = mouse_write h 0xF4 s;
          (_, s) = mouse_read h s
      in s)"

definition update_mouse_cursor :: "bool \<Rightarrow> 'a devices_scheme \<Rightarrow> 'a devices_scheme" where
  "update_mouse_cursor invert s =
     (let pos = (mouse_y s * 80 + mouse_x s) * 2;
          a = vidptr + of_int (pos + 1)
      in if invert then poke a (mem s a XOR 0x77) s else s)"

text \<open>The \<open>switch\<close> of the handler.\<close>

definition mouse_move :: "'a devices_scheme \<Rightarrow> 'a devices_scheme" where
  "mouse_move s =
     (let b0 = mouse_byte s ! 0; b1 = sint (mouse_byte s ! 1); b2 = sint (mouse_byte s ! 2);
          x = (if b0 AND 0x10 \<noteq> 0 then mouse_x s - (256 - b1) else mouse_x s + b1);
          y = (if b0 AND 0x20 \<noteq> 0 then mouse_y s + (256 - b2) else mouse_y s - b2);
          x = (if x < 0 then 0 else x);
          x = (if 79 < x then 79 else x);
          y = (if y < 0 then 24 else y);
          y = (if 24 < y then 24 else y)
      in s\<lparr>mouse_x := x, mouse_y := y\<rparr>)"

definition mouse_packet :: "u8 \<Rightarrow> 'a devices_scheme \<Rightarrow> 'a devices_scheme" where
  "mouse_packet in_byte s =
     (if mouse_cycle s = 0 then
        (if in_byte AND 0x08 = 0 then s
         else s\<lparr>mouse_byte := (mouse_byte s)[0 := in_byte], mouse_cycle := mouse_cycle s + 1\<rparr>)
      else if mouse_cycle s = 1 then
        s\<lparr>mouse_byte := (mouse_byte s)[1 := in_byte], mouse_cycle := mouse_cycle s + 1\<rparr>
      else if mouse_cycle s = 2 then
        (mouse_move (s\<lparr>mouse_byte := (mouse_byte s)[2 := in_byte]\<rparr>))\<lparr>mouse_cycle := 0\<rparr>
      else s)"

definition mouse_handler_main :: "hw \<Rightarrow> 'a devices_scheme \<Rightarrow> 'a devices_scheme" where
  "mouse_handler_main h s =
     (let (status, s) = read_port h 0x64 s in
      if status AND 1 = 0 then write_port 0x20 0x20 (write_port 0xA0 0x20 s)
      else
        let (in_byte, s) = read_port h 0x60 s;
            s = update_mouse_cursor True s;
            s = mouse_packet in_byte s;
            s = update_mouse_cursor True s
        in write_port 0x20 0x20 (write_port 0xA0 0x20 s))"

section \<open>Contracts\<close>

lemma console_op_mouse_wait: "console_op (mouse_wait h a :: 'a machine_scheme \<Rightarrow> _)"
proof -
  have "console_op (mouse_wait_loop h a n :: 'a machine_scheme \<Rightarrow> _)" for n
  proof (induction n)
    case 0
    then show ?case using console_op_id by simp
  next
    case (Suc n)
    have "console_op (\<lambda>s :: 'a machine_scheme. if (if a = 0 then fst (read_port h 0x64 s) AND 1 = 1 else fst (read_port h 0x64 s) AND 2 = 0)
        then snd (read_port h 0x64 s) else mouse_wait_loop h a n (snd (read_port h 0x64 s)))"
      by (rule console_op_if [OF console_op_read_port console_op_comp [OF Suc console_op_read_port]])
    then show ?case by (simp add: split_beta Let_def)
  qed
  then show ?thesis by (simp add: mouse_wait_def [abs_def])
qed

lemma console_op_mouse_write: "console_op (mouse_write h w)"
  unfolding mouse_write_def [abs_def] Let_def
  by (rule console_op_comp [OF console_op_write_port console_op_comp [OF console_op_mouse_wait
        console_op_comp [OF console_op_write_port console_op_mouse_wait]]])

lemma console_op_mouse_read: "console_op (\<lambda>s. snd (mouse_read h s))"
  unfolding mouse_read_def by (rule console_op_comp [OF console_op_read_port console_op_mouse_wait])

lemma console_op_pit_init: "console_op pit_init"
  unfolding pit_init_def [abs_def] Let_def
  by (rule console_op_comp [OF console_op_write_port console_op_comp [OF console_op_write_port console_op_write_port]])

lemma mouse_init_tail: "console_op (\<lambda>s. snd (mouse_read h (mouse_write h 0xF4 (snd (mouse_read h
    (mouse_write h 0xF6 (write_port 0x60 st (mouse_wait h 1 (write_port 0x64 0x60 (mouse_wait h 1 s))))))))))"
  by (rule console_op_comp [OF console_op_mouse_read console_op_comp [OF console_op_mouse_write
        console_op_comp [OF console_op_mouse_read console_op_comp [OF console_op_mouse_write
        console_op_comp [OF console_op_write_port console_op_comp [OF console_op_mouse_wait
        console_op_comp [OF console_op_write_port console_op_mouse_wait]]]]]]])

lemma console_op_mouse_init: "console_op (mouse_init h :: 'a machine_scheme \<Rightarrow> _)"
proof -
  let ?a = "\<lambda>s. mouse_wait h 0 (write_port 0x64 0x20 (mouse_wait h 1 (write_port 0x64 0xA8 (mouse_wait h 1 s))))"
  have a: "console_op (?a :: 'a machine_scheme \<Rightarrow> _)"
    by (rule console_op_comp [OF console_op_mouse_wait console_op_comp [OF console_op_write_port
          console_op_comp [OF console_op_mouse_wait console_op_comp [OF console_op_write_port console_op_mouse_wait]]]])
  show ?thesis
  proof
    fix s :: "'a machine_scheme"
    let ?s = "snd (read_port h 0x60 (?a s))"
    have "console_op (\<lambda>s :: 'a machine_scheme. snd (read_port h 0x60 (?a s)))"
      by (rule console_op_comp [OF console_op_read_port a])
    from console_op.upd [OF console_op_comp [OF mouse_init_tail [where st = "fst (read_port h 0x60 (?a s)) OR 2"] this], of h s]
    show "\<exists>i m l. mouse_init h s = s\<lparr>io := i @ io s, mem := m, current_loc := l\<rparr>"
      by (simp add: mouse_init_def Let_def split_beta)
  qed
qed

text \<open>The mouse and the timer, seen from the rest of the kernel: only their own fields, the port trace
  and the text memory change.\<close>

definition device_others :: "'a devices_scheme \<Rightarrow> 'a devices_scheme" where
  "device_others s = s\<lparr>io := [], mem := (\<lambda>_. 0), timer_ticks := 0, mouse_cycle := 0, mouse_byte := [],
     mouse_x := 0, mouse_y := 0\<rparr>"

lemma device_others_updates [simp]:
  "device_others (s\<lparr>timer_ticks := n\<rparr>) = device_others s" "device_others (s\<lparr>mouse_cycle := c\<rparr>) = device_others s"
  "device_others (s\<lparr>mouse_byte := b\<rparr>) = device_others s" "device_others (s\<lparr>mouse_x := x\<rparr>) = device_others s"
  "device_others (s\<lparr>mouse_y := y\<rparr>) = device_others s" "device_others (write_port p d s) = device_others s"
  "device_others (snd (read_port h p s)) = device_others s" "device_others (poke a v s) = device_others s"
  by (simp_all add: device_others_def write_port_def read_port_def poke_def Let_def)

lemma device_others_handlers:
  "device_others (timer_handler_main s) = device_others s"
  "device_others (update_mouse_cursor iv s) = device_others s"
  "device_others (mouse_packet b s) = device_others s"
  "device_others (mouse_handler_main h s) = device_others s"
proof -
  show c: "device_others (update_mouse_cursor iv s) = device_others s" for iv and s :: "'a devices_scheme"
    by (simp add: update_mouse_cursor_def Let_def)
  have "device_others (mouse_move s) = device_others s" for s :: "'a devices_scheme"
    by (simp add: mouse_move_def Let_def device_others_def)
  then show p: "device_others (mouse_packet b s) = device_others s" for b and s :: "'a devices_scheme"
    by (simp add: mouse_packet_def)
  show "device_others (mouse_handler_main h s) = device_others s"
    by (simp add: mouse_handler_main_def Let_def split_beta c p)
qed (simp add: timer_handler_main_def)

section \<open>The mouse pointer\<close>

definition mouse_inv :: "'a devices_scheme \<Rightarrow> bool" where
  "mouse_inv s \<longleftrightarrow> length (mouse_byte s) = 3 \<and> mouse_cycle s \<in> {0, 1, 2}
     \<and> 0 \<le> mouse_x s \<and> mouse_x s \<le> 79 \<and> 0 \<le> mouse_y s \<and> mouse_y s \<le> 24"

lemma mouse_inv_cong:
  assumes "mouse_byte t = mouse_byte s" "mouse_cycle t = mouse_cycle s" "mouse_x t = mouse_x s" "mouse_y t = mouse_y s"
  shows "mouse_inv t = mouse_inv s"
  using assms by (simp add: mouse_inv_def)

lemma mouse_inv_packet:
  assumes "mouse_inv s"
  shows "mouse_inv (mouse_packet b s)"
  using assms by (auto simp: mouse_packet_def mouse_move_def mouse_inv_def Let_def)

text \<open>The address of the attribute of the cell under the pointer.\<close>

definition pointer_cell :: "'a devices_scheme \<Rightarrow> u32" where
  "pointer_cell s = vidptr + of_int ((mouse_y s * 80 + mouse_x s) * 2 + 1)"

lemma cursor_effect: "update_mouse_cursor True s = s\<lparr>mem := (mem s)(pointer_cell s := mem s (pointer_cell s) XOR 0x77)\<rparr>"
  by (simp add: update_mouse_cursor_def pointer_cell_def Let_def poke_def)

lemma mem_packet: "mem (mouse_packet b s) = mem s"
  by (simp add: mouse_packet_def mouse_move_def Let_def)

lemma packet_ports [simp]:
  "pointer_cell (write_port p d s) = pointer_cell s" "pointer_cell (snd (read_port h p s)) = pointer_cell s"
  "mem (write_port p d s) = mem s" "mem (snd (read_port h p s)) = mem s"
  "mouse_inv (write_port p d s) = mouse_inv s" "mouse_inv (snd (read_port h p s)) = mouse_inv s"
  "pointer_cell (s\<lparr>mem := m\<rparr>) = pointer_cell s" "mouse_inv (s\<lparr>mem := m\<rparr>) = mouse_inv s"
  by (simp_all add: write_port_def read_port_def Let_def pointer_cell_def mouse_inv_def)

lemma pointer_cell_packet_mem: "pointer_cell (mouse_packet b (s\<lparr>mem := m\<rparr>)) = pointer_cell (mouse_packet b s)"
  by (simp add: mouse_packet_def mouse_move_def Let_def pointer_cell_def)

lemma xor_twice: "(x XOR 0x77) XOR 0x77 = x" for x :: u8
  by (simp add: xor.assoc)

text \<open>The screen \<open>base\<close> with the cell at \<open>a\<close> inverted.\<close>

definition inverted_at :: "u32 \<Rightarrow> (u32 \<Rightarrow> u8) \<Rightarrow> (u32 \<Rightarrow> u8)" where
  "inverted_at a base = base(a := base a XOR 0x77)"

lemma inverted_twice [simp]: "inverted_at a (inverted_at a base) = base"
  by (simp add: inverted_at_def xor_twice fun_upd_idem)

lemma cursor_inverts: "update_mouse_cursor True s = s\<lparr>mem := inverted_at (pointer_cell s) (mem s)\<rparr>"
  by (simp add: cursor_effect inverted_at_def)

text \<open>The byte an interrupt delivers, if the controller has one.\<close>

definition mouse_event :: "hw \<Rightarrow> io_event list \<Rightarrow> u8 option" where
  "mouse_event h tr =
     (let status = hw_in h tr 0x64 in if status AND 1 = 0 then None else Some (hw_in h (In 0x64 status # tr) 0x60))"

lemma mouse_handler_cases:
  "mouse_handler_main h s =
     (case mouse_event h (io s) of
        None \<Rightarrow> write_port 0x20 0x20 (write_port 0xA0 0x20 (snd (read_port h 0x64 s)))
      | Some b \<Rightarrow> write_port 0x20 0x20 (write_port 0xA0 0x20 (update_mouse_cursor True (mouse_packet b
          (update_mouse_cursor True (snd (read_port h 0x60 (snd (read_port h 0x64 s)))))))))"
  by (simp add: mouse_handler_main_def mouse_event_def Let_def read_port_def)

lemma pointer_cell_inside:
  assumes "mouse_inv s"
  shows "unat (pointer_cell s - vidptr) = nat ((mouse_y s * 80 + mouse_x s) * 2 + 1)"
    "unat (pointer_cell s - vidptr) < 4000"
proof -
  let ?p = "(mouse_y s * 80 + mouse_x s) * 2 + 1"
  have b: "0 \<le> ?p" "?p < 4000" using assms by (simp_all add: mouse_inv_def)
  then have "pointer_cell s - vidptr = of_nat (nat ?p)" by (simp add: pointer_cell_def)
  moreover have "unat (of_nat (nat ?p) :: u32) = nat ?p"
    by (rule unat_of_nat_small) (use b in simp)
  ultimately show e: "unat (pointer_cell s - vidptr) = nat ?p" by (simp only:)
  show "unat (pointer_cell s - vidptr) < 4000" unfolding e using b by simp
qed

text \<open>C14: The mouse interrupt keeps the pointer on the screen and inverts exactly the cell it is on: whatever
  the controller delivers, if before the interrupt the screen was some \<open>base\<close> with the attribute
  under the pointer inverted, then afterwards it is the same \<open>base\<close> with the attribute under the new
  position inverted. No character and no byte outside the 4000 bytes of the text page changes.\<close>

theorem mouse_pointer_follows:
  fixes s :: "'a devices_scheme" and h base
  assumes "mouse_inv s" and "mem s = inverted_at (pointer_cell s) base"
  defines "t \<equiv> mouse_handler_main h s"
  shows "mouse_inv t \<and> mem t = inverted_at (pointer_cell t) base
    \<and> odd (unat (pointer_cell t - vidptr)) \<and> unat (pointer_cell t - vidptr) < 4000"
proof -
  have "mouse_inv t \<and> mem t = inverted_at (pointer_cell t) base"
  proof (cases "mouse_event h (io s)")
    case None
    then show ?thesis using assms(1,2) by (simp add: t_def mouse_handler_cases)
  next
    case (Some b)
    let ?u = "snd (read_port h 0x60 (snd (read_port h 0x64 s)))"
    let ?v = "mouse_packet b (?u\<lparr>mem := base\<rparr>)"
    have u: "update_mouse_cursor True ?u = ?u\<lparr>mem := base\<rparr>"
      using assms(2) by (simp add: cursor_inverts)
    have "mouse_inv ?v" using assms(1) by (intro mouse_inv_packet) simp
    moreover have "t = write_port 0x20 0x20 (write_port 0xA0 0x20 (update_mouse_cursor True (mouse_packet b
        (update_mouse_cursor True ?u))))"
      using Some by (simp add: t_def mouse_handler_cases)
    then have "t = write_port 0x20 0x20 (write_port 0xA0 0x20 (?v\<lparr>mem := inverted_at (pointer_cell ?v) base\<rparr>))"
      unfolding u cursor_inverts [of ?v] by (simp add: mem_packet)
    ultimately show ?thesis by simp
  qed
  then show ?thesis
    using pointer_cell_inside [of t] by (auto simp: mouse_inv_def even_nat_iff)
qed

text \<open>A packet of three bytes that starts in sync moves the pointer by the displacement the code
  computes, with the column clamped to the screen and a row outside the screen set to the last.\<close>

definition move_x :: "u8 \<Rightarrow> u8 \<Rightarrow> int" where
  "move_x b0 b1 = (if b0 AND 0x10 \<noteq> 0 then sint b1 - 256 else sint b1)"

definition move_y :: "u8 \<Rightarrow> u8 \<Rightarrow> int" where
  "move_y b0 b2 = (if b0 AND 0x20 \<noteq> 0 then 256 - sint b2 else - sint b2)"

lemma mouse_packet_move:
  fixes s :: "'a devices_scheme" and b0 b1 b2
  assumes "mouse_inv s" and "mouse_cycle s = 0" and "b0 AND 0x08 \<noteq> 0"
  defines "t \<equiv> fold mouse_packet [b0, b1, b2] s"
  shows "mouse_cycle t = 0" "mouse_x t = max 0 (min 79 (mouse_x s + move_x b0 b1))"
    "mouse_y t = (if mouse_y s + move_y b0 b2 \<in> {0..24} then mouse_y s + move_y b0 b2 else 24)"
proof -
  obtain x y z where "mouse_byte s = [x, y, z]"
    using assms(1) by (auto simp: mouse_inv_def length_Suc_conv numeral_eq_Suc)
  then have t: "t = (mouse_move (s\<lparr>mouse_cycle := 2, mouse_byte := [b0, b1, b2]\<rparr>))\<lparr>mouse_cycle := 0\<rparr>"
    using assms(2,3) by (simp add: t_def mouse_packet_def)
  then show "mouse_cycle t = 0" by simp
  show "mouse_x t = max 0 (min 79 (mouse_x s + move_x b0 b1))"
    by (simp add: t mouse_move_def move_x_def Let_def)
  show "mouse_y t = (if mouse_y s + move_y b0 b2 \<in> {0..24} then mouse_y s + move_y b0 b2 else 24)"
    by (simp add: t mouse_move_def move_y_def Let_def)
qed

lemma sign_bit_u8: "bit (uint (b::u8)) 7 \<longleftrightarrow> odd (unat b div 128)"
proof -
    have "uint b div 128 = int (unat b div 128)" by (simp add: zdiv_int)
    moreover have "bit (uint b) 7 \<longleftrightarrow> odd (uint b div 128)" by (simp add: bit_iff_odd)
    ultimately show ?thesis by (simp only: even_of_nat)
qed

lemma odd_high_u8: "odd (unat b div 128) \<longleftrightarrow> \<not> b < 128" for b :: u8
proof -
    have "unat b div 128 < 2" using unat_less_size [of b] by simp
    then have "odd (unat b div 128) \<longleftrightarrow> unat b div 128 = 1" by (metis even_zero less_2_cases odd_one One_nat_def)
    also have "\<dots> \<longleftrightarrow> \<not> b < 128" using unat_less_size [of b] by (auto simp: word_less_nat_alt)
    finally show ?thesis .
qed

lemma sint_u8_bit: "sint b = take_bit 8 (uint b) - 256 * of_bool (bit (uint b) 7)" for b :: u8
  proof -
    have "sint b = signed_take_bit (LENGTH(8) - Suc 0) (uint b)" by (simp only: sint_uint)
    also have "LENGTH(8) - Suc 0 = 7" by simp
    also have "signed_take_bit 7 (uint b) = take_bit (Suc 7) (uint b) - 2 ^ Suc 7 * of_bool (bit (uint b) 7)"
      by (rule signed_take_bit_eq_take_bit_minus)
    finally show ?thesis by simp
  qed

lemma take_uint_u8: "take_bit 8 (uint b) = uint b" for b :: u8
    using uint_bounded [of b] by (simp add: take_bit_int_eq_self_iff)

lemma sint_u8: "sint b = (if b < 128 then int (unat b) else int (unat b) - 256)" for b :: u8
  unfolding sint_u8_bit take_uint_u8 sign_bit_u8 odd_high_u8 by simp

text \<open>C34: What a mouse packet does to the pointer, given the signs in the first byte. Moving right and moving
  up inside the screen are as the device says; but the two signed bytes are sign-extended a second
  time, so moving left by up to 128 columns always jumps to column 0, moving down by up to 128 rows
  always jumps to the last row, and leaving the screen at the top jumps to the bottom.\<close>

theorem mouse_packet_effect:
  fixes s :: "'a devices_scheme" and b0 b1 b2 :: u8
  assumes "mouse_inv s" and "mouse_cycle s = 0" and "b0 AND 0x08 \<noteq> 0"
  defines "t \<equiv> fold mouse_packet [b0, b1, b2] s"
  shows "mouse_inv t \<and> mouse_cycle t = 0
    \<and> (b0 AND 0x10 = 0 \<and> b1 < 128 \<longrightarrow> mouse_x t = min 79 (mouse_x s + int (unat b1)))
    \<and> (b0 AND 0x10 \<noteq> 0 \<and> 128 \<le> b1 \<longrightarrow> mouse_x t = 0)
    \<and> (b0 AND 0x20 = 0 \<and> b2 < 128 \<longrightarrow>
         mouse_y t = (if int (unat b2) \<le> mouse_y s then mouse_y s - int (unat b2) else 24))
    \<and> (b0 AND 0x20 \<noteq> 0 \<and> 128 \<le> b2 \<longrightarrow> mouse_y t = 24)"
proof -
  note m = mouse_packet_move [OF assms(1-3), of b1 b2, folded t_def]
  have i: "mouse_inv t" unfolding t_def using assms(1) by (simp add: mouse_inv_packet)
  have r: "0 \<le> mouse_x s" "mouse_x s \<le> 79" "0 \<le> mouse_y s" "mouse_y s \<le> 24" using assms(1) by (simp_all add: mouse_inv_def)
  have u: "unat b1 < 256" "unat b2 < 256" using unat_less_size [of b1] unat_less_size [of b2] by simp_all
  have uint_less: "uint b1 < 256" "uint b2 < 256" using uint_bounded [of b1] uint_bounded [of b2] by simp_all
  have x: "mouse_x t = min 79 (mouse_x s + int (unat b1))" if "b0 AND 0x10 = 0" "b1 < 128"
    using that m(2) r by (simp add: move_x_def sint_u8)
  have x0: "mouse_x t = 0" if "b0 AND 0x10 \<noteq> 0" "128 \<le> b1"
    using that m(2) r u uint_less by (simp add: move_x_def sint_u8 not_less [symmetric] max_def min_def)
  have y: "mouse_y t = (if int (unat b2) \<le> mouse_y s then mouse_y s - int (unat b2) else 24)"
    if "b0 AND 0x20 = 0" "b2 < 128"
  proof -
    define n where "n = int (unat b2)"
    have "move_y b0 b2 = - n" "0 \<le> n" using that by (simp_all add: move_y_def sint_u8 n_def)
    then show ?thesis using m(3) r unfolding n_def [symmetric] by auto
  qed
  have y0: "mouse_y t = 24" if "b0 AND 0x20 \<noteq> 0" "128 \<le> b2"
    using that m(3) r u uint_less by (simp add: move_y_def sint_u8 not_less [symmetric])
  show ?thesis using i m(1) x x0 y y0 by blast
qed

definition blank_devices :: devices where
  "blank_devices = with_device_globals blank_terminal"

lemma blank_devices_fields:
  "mouse_byte blank_devices = [0, 0, 0]" "mouse_cycle blank_devices = 0" "mouse_x blank_devices = 40"
  "mouse_y blank_devices = 12" "timer_ticks blank_devices = 0" "mem blank_devices = mem blank_terminal"
  by (simp_all add: blank_devices_def with_device_globals_def terminal.defs devices.defs numeral_eq_Suc)

lemma blank_devices_inv: "mouse_inv blank_devices"
  by (simp add: mouse_inv_def blank_devices_fields)

text \<open>One step to the left (\<open>-1\<close>, sign bit set) moves the pointer from column 40 to column 0.\<close>

theorem mouse_packet_effect_witness:
  "mouse_x (fold mouse_packet [0x18, 0xFF, 0] blank_devices) = 0"
  using mouse_packet_effect [OF blank_devices_inv, of "0x18" "0xFF" 0] by (simp add: blank_devices_fields)

theorem mouse_pointer_follows_witness:
  "mem (mouse_handler_main (key_board 0x08) (update_mouse_cursor True blank_devices))
     = inverted_at (pointer_cell (mouse_handler_main (key_board 0x08) (update_mouse_cursor True blank_devices)))
         (mem blank_devices)"
proof -
  let ?s = "update_mouse_cursor True blank_devices"
  have "mouse_inv ?s" "mem ?s = inverted_at (pointer_cell ?s) (mem blank_devices)"
    using blank_devices_inv by (simp_all add: cursor_inverts)
  from mouse_pointer_follows [OF this, of "key_board 0x08"] show ?thesis by simp
qed

section \<open>Ports\<close>

lemma mouse_wait_io: "outs (io (mouse_wait h a s)) = outs (io s) \<and> length (io (mouse_wait h a s)) \<le> length (io s) + 100000"
proof -
  have "outs (io (mouse_wait_loop h a n s)) = outs (io s) \<and> length (io (mouse_wait_loop h a n s)) \<le> length (io s) + n" for n
  proof (induction n arbitrary: s)
    case (Suc n)
    have "length (io (snd (read_port h 0x64 s))) = length (io s) + 1" by (simp add: read_port_def Let_def)
    then show ?case using Suc [of "snd (read_port h 0x64 s)"] by (simp add: split_beta Let_def)
  qed simp
  then show ?thesis by (simp add: mouse_wait_def)
qed

text \<open>C40: The start-up of the mouse is bounded and sends the controller exactly its commands, whatever the
  controller answers and even if it never becomes ready: enable the port (0xA8), ask for the
  configuration byte (0x20), then write back (0x60) the byte that was read from the data port at that
  moment, with the bit of IRQ 12 set, then defaults (0xF6) and enable reporting (0xF4).\<close>

theorem mouse_init_commands:
  "\<exists>tr later. io (mouse_init h s) = later @ In 0x60 (hw_in h tr 0x60) # tr
    \<and> outs tr = outs (io s) @ [(0x64, 0xA8), (0x64, 0x20)]
    \<and> outs later = [(0x64, 0x60), (0x60, hw_in h tr 0x60 OR 2),
      (0x64, 0xD4), (0x60, 0xF6), (0x64, 0xD4), (0x60, 0xF4)]
    \<and> length (io (mouse_init h s)) \<le> length (io s) + 1100011"
proof -
  note w = mouse_wait_io [THEN conjunct1] and l = mouse_wait_io [THEN conjunct2]
  have a: "length (io (mouse_write h b u)) \<le> length (io u) + 200002" for b and u :: "'a machine_scheme"
    using l [of h 1 u] l [of h 1 "write_port 0x64 0xD4 (mouse_wait h 1 u)"] by (simp add: mouse_write_def Let_def)
  have r: "length (io (snd (mouse_read h u))) \<le> length (io u) + 100001" for u :: "'a machine_scheme"
    using l [of h 0 u] by (simp add: mouse_read_def)
  have o: "outs (io (mouse_write h b u)) = outs (io u) @ [(0x64, 0xD4), (0x60, b)]"
      "outs (io (snd (mouse_read h u))) = outs (io u)" for b and u :: "'a machine_scheme"
    by (simp_all add: mouse_write_def mouse_read_def Let_def w)
  define q where "q = mouse_wait h 0 (write_port 0x64 0x20 (mouse_wait h 1 (write_port 0x64 0xA8 (mouse_wait h 1 s))))"
  define st where "st = hw_in h (io q) 0x60"
  define v where "v = snd (read_port h 0x60 q)"
  define b where "b = write_port 0x60 (st OR 2) (mouse_wait h 1 (write_port 0x64 0x60 (mouse_wait h 1 v)))"
  define t where "t = snd (mouse_read h (mouse_write h 0xF4 (snd (mouse_read h (mouse_write h 0xF6 b)))))"
  have v: "io v = In 0x60 st # io q" by (simp add: v_def st_def read_port_def Let_def)
  have init: "mouse_init h s = t"
    by (simp add: mouse_init_def Let_def split_beta t_def b_def v_def st_def q_def read_port_def)
  have "console_op (\<lambda>u :: 'a machine_scheme. snd (mouse_read h (mouse_write h 0xF4 (snd (mouse_read h
      (mouse_write h 0xF6 (write_port 0x60 (st OR 2) (mouse_wait h 1 (write_port 0x64 0x60 (mouse_wait h 1 u))))))))))"
    by (rule mouse_init_tail)
  then obtain later where later: "io t = later @ io v"
    unfolding t_def b_def by (rule console_op.trace [THEN exE])
  have q: "outs (io q) = outs (io s) @ [(0x64, 0xA8), (0x64, 0x20)]" by (simp add: q_def w)
  have "outs (io t) = outs (io v) @ [(0x64, 0x60), (0x60, st OR 2), (0x64, 0xD4), (0x60, 0xF6), (0x64, 0xD4), (0x60, 0xF4)]"
    by (simp add: t_def b_def o w)
  then have "outs later = [(0x64, 0x60), (0x60, st OR 2), (0x64, 0xD4), (0x60, 0xF6), (0x64, 0xD4), (0x60, 0xF4)]"
    by (simp add: later)
  moreover have "length (io q) \<le> length (io s) + 300002"
    using l [of h 1 s] l [of h 1 "write_port 0x64 0xA8 (mouse_wait h 1 s)"]
      l [of h 0 "write_port 0x64 0x20 (mouse_wait h 1 (write_port 0x64 0xA8 (mouse_wait h 1 s)))"] by (simp add: q_def)
  moreover have "length (io b) \<le> length (io q) + 200003"
    using l [of h 1 v] l [of h 1 "write_port 0x64 0x60 (mouse_wait h 1 v)"] by (simp add: b_def v)
  ultimately show ?thesis
    unfolding init
    using r [of "mouse_write h 0xF4 (snd (mouse_read h (mouse_write h 0xF6 b)))"]
      a [of "0xF4" "snd (mouse_read h (mouse_write h 0xF6 b))"] r [of "mouse_write h 0xF6 b"] a [of "0xF6" b] later v q
    by (intro exI [of _ "io q"] exI [of _ later]) (simp add: st_def [symmetric], simp add: t_def)
qed

text \<open>The tick counter counts interrupts modulo 2^32, and each is acknowledged.\<close>

theorem timer_counts:
  "unat (timer_ticks ((timer_handler_main ^^ n) s)) = (unat (timer_ticks s) + n) mod 2 ^ 32
    \<and> outs (io ((timer_handler_main ^^ n) s)) = outs (io s) @ replicate n (0x20, 0x20)"
proof (induction n)
  case 0
  then show ?case using unat_less_size [of "timer_ticks s"] by simp
next
  case (Suc n)
  let ?t = "(timer_handler_main ^^ n) s"
  have "timer_ticks (timer_handler_main ?t) = timer_ticks ?t + 1"
      "outs (io (timer_handler_main ?t)) = outs (io ?t) @ [(0x20, 0x20)]"
    by (simp_all add: timer_handler_main_def) (simp add: write_port_def)
  moreover have "unat (timer_ticks ?t + 1) = (unat (timer_ticks ?t) + 1) mod 2 ^ 32"
    by (simp add: unat_word_ariths)
  ultimately show ?case using Suc by (simp add: mod_Suc_eq replicate_append_same)
qed

end
