(* ===== verification/Kernel.thy ===== *)
theory Kernel
  imports Devices
begin

text \<open>
  The interrupt table and the start-up of \<open>kernel.c\<close>: \<open>idt_init\<close>, which installs the four gates, remaps
  the two interrupt controllers and enables interrupts, and \<open>kmain\<close>, which brings the components up
  in their order and then waits for interrupts.

  \<open>load_idt\<close> is the routine of \<open>start.asm\<close>: it loads the two words of the descriptor into the
  processor's register and sets the interrupt flag.
\<close>

definition IDT_SIZE :: nat where "IDT_SIZE = 256"

record IDT_entry =
  offset_lowerbits :: u16
  selector :: u16
  zero_byte :: u8
  type_attr :: u8
  offset_higherbits :: u16

record kernel = devices +
  IDT :: "IDT_entry list"
  idt_register :: "(u32 \<times> u32) option"
  interrupts :: bool

text \<open>The globals of \<open>kernel.c\<close> that belong to the interrupt table, as the C program starts with them,
  and the processor as \<open>start.asm\<close> leaves it to \<open>kmain\<close>.\<close>

definition with_kernel_globals :: "devices \<Rightarrow> kernel" where
  "with_kernel_globals s = devices.extend s (kernel.fields
     (replicate IDT_SIZE \<lparr>offset_lowerbits = 0, selector = 0, zero_byte = 0, type_attr = 0, offset_higherbits = 0\<rparr>)
     None False)"

text \<open>The five assignments to an entry of the table.\<close>

definition set_gate :: "nat \<Rightarrow> u32 \<Rightarrow> 'a kernel_scheme \<Rightarrow> 'a kernel_scheme" where
  "set_gate n address s = s\<lparr>IDT := (IDT s)[n :=
     \<lparr>offset_lowerbits = ucast (address AND 0xFFFF), selector = 0x08, zero_byte = 0, type_attr = 0x8E,
      offset_higherbits = ucast (drop_bit 16 address AND 0xFFFF)\<rparr>]\<rparr>"

definition load_idt :: "u32 \<times> u32 \<Rightarrow> 'a kernel_scheme \<Rightarrow> 'a kernel_scheme" where
  "load_idt idt_ptr s = s\<lparr>idt_register := Some idt_ptr, interrupts := True\<rparr>"

definition idt_init :: "hw \<Rightarrow> 'a kernel_scheme \<Rightarrow> 'a kernel_scheme" where
  "idt_init h s =
     (let s = set_gate 0x20 (addr_timer_handler h) s;
          s = set_gate 0x21 (addr_keyboard_handler h) s;
          s = set_gate 0x2C (addr_mouse_handler h) s;
          s = set_gate 14 (addr_page_fault_stub h) s;
          s = write_port 0x20 0x11 s;
          s = write_port 0xA0 0x11 s;
          s = write_port 0x21 0x20 s;
          s = write_port 0xA1 0x28 s;
          s = write_port 0x21 0x00 s;
          s = write_port 0xA1 0x00 s;
          s = write_port 0x21 0x01 s;
          s = write_port 0xA1 0x01 s;
          s = write_port 0x21 0xF8 s;
          s = write_port 0xA1 0xEF s;
          idt_address = addr_idt h;
          idt_ptr = ((8 * of_nat IDT_SIZE) OR push_bit 16 (idt_address AND 0xFFFF), drop_bit 16 idt_address)
      in load_idt idt_ptr s)"

text \<open>\<open>kmain\<close> up to its idle loop.\<close>

definition kmain :: "hw \<Rightarrow> 'a kernel_scheme \<Rightarrow> 'a kernel_scheme" where
  "kmain h s =
     (let s = write_port 0x3F8 (of_char CHR ''A'') s;
          s = write_port 0x3F8 (of_char NL) s;
          s = kprint (''Booting MOKernel...'' @ [NL]) s;
          s = kprint (''Initializing Paging...'' @ [NL]) s;
          s = paging_init h s;
          s = kprint (''Initializing PIT Timer...'' @ [NL]) s;
          s = pit_init s;
          s = kprint (''Initializing PS/2 Mouse...'' @ [NL]) s;
          s = mouse_init h s;
          s = kprint (''Initializing IDT...'' @ [NL]) s;
          s = idt_init h s;
          s = kprint (''Initializing File System...'' @ [NL]) s;
          s = fs_init s;
          s = kprint (''Initializing Network Stack...'' @ [NL]) s;
          s = net_stack_init h s;
          s = update_mouse_cursor True s;
          s = kprint ([NL] @ ''Kernel initialization complete!'' @ [NL]) s
      in kprint ''OS> '' s)"

section \<open>The interrupt table\<close>

text \<open>The address a gate calls, whether the processor accepts it as a 32-bit interrupt gate of the kernel
  (present, ring 0, code segment 8), and the limit and the base the processor reads from the
  descriptor.\<close>

definition gate_address :: "IDT_entry \<Rightarrow> u32" where
  "gate_address e = ucast (offset_lowerbits e) OR push_bit 16 (ucast (offset_higherbits e))"

definition interrupt_gate :: "IDT_entry \<Rightarrow> bool" where
  "interrupt_gate e \<longleftrightarrow> type_attr e = 0x8E \<and> selector e = 0x08 \<and> zero_byte e = 0"

definition idt_limit :: "u32 \<times> u32 \<Rightarrow> u16" where
  "idt_limit p = ucast (fst p)"

definition idt_base :: "u32 \<times> u32 \<Rightarrow> u32" where
  "idt_base p = drop_bit 16 (fst p) OR push_bit 16 (snd p)"

lemma low_half_mask: "(0xFFFF :: 'a::len word) = mask 16"
  by (simp add: mask_eq_exp_minus_1)

lemma split_address: "(ucast (ucast (a AND 0xFFFF) :: u16) :: u32) OR push_bit 16 (ucast (ucast (drop_bit 16 a AND 0xFFFF) :: u16)) = a"
  for a :: u32
  unfolding low_half_mask by (rule bit_word_eqI) (auto simp: bit_simps)

lemma split_base: "drop_bit 16 (0x800 OR push_bit 16 (a AND 0xFFFF)) OR push_bit 16 (drop_bit 16 a) = a" for a :: u32
proof -
  have "drop_bit 16 (0x800 OR push_bit 16 (a AND 0xFFFF)) = drop_bit 16 (push_bit 16 (a AND 0xFFFF))"
    by (simp add: drop_bit_or)
  also have "\<dots> = a AND 0xFFFF"
    unfolding low_half_mask by (rule bit_word_eqI) (auto simp: bit_simps)
  finally have "drop_bit 16 (0x800 OR push_bit 16 (a AND 0xFFFF)) = a AND mask 16"
    by (simp only: low_half_mask)
  moreover have "(a AND mask 16) OR push_bit 16 (drop_bit 16 a) = a"
  proof (rule bit_word_eqI)
    fix n assume "n < LENGTH(32)"
    then show "bit ((a AND mask 16) OR push_bit 16 (drop_bit 16 a)) n \<longleftrightarrow> bit a n"
      by (cases "n < 16") (simp_all add: bit_simps)
  qed
  ultimately show ?thesis by (simp only:)
qed

lemma gate_address_set:
  "n < length (IDT s) \<Longrightarrow> gate_address (IDT (set_gate n a s) ! n) = a \<and> interrupt_gate (IDT (set_gate n a s) ! n)"
  by (simp add: set_gate_def gate_address_def interrupt_gate_def split_address)

text \<open>The table that the kernel loads.\<close>

definition idt_ready :: "hw \<Rightarrow> 'a kernel_scheme \<Rightarrow> bool" where
  "idt_ready h s \<longleftrightarrow> length (IDT s) = 256 \<and> (\<exists>p. idt_register s = Some p \<and> idt_base p = addr_idt h)
     \<and> (\<forall>(n, a)\<in>{(0x20, addr_timer_handler h), (0x21, addr_keyboard_handler h), (0x2C, addr_mouse_handler h),
           (14, addr_page_fault_stub h)}. gate_address (IDT s ! n) = a \<and> interrupt_gate (IDT s ! n))"

lemma idt_init_installs_fact:
  assumes "length (IDT s) = 256"
  shows "idt_ready h (idt_init h s) \<and> interrupts (idt_init h s)
    \<and> (\<forall>n. n \<notin> {14, 0x20, 0x21, 0x2C} \<longrightarrow> IDT (idt_init h s) ! n = IDT s ! n)
    \<and> map_option idt_limit (idt_register (idt_init h s)) = Some (of_nat (8 * IDT_SIZE))
    \<and> outs (io (idt_init h s)) = outs (io s) @ [(0x20, 0x11), (0xA0, 0x11), (0x21, 0x20), (0xA1, 0x28),
        (0x21, 0), (0xA1, 0), (0x21, 1), (0xA1, 1), (0x21, NOT 0x07), (0xA1, NOT 0x10)]"
proof -
  let ?g = "set_gate 14 (addr_page_fault_stub h) (set_gate 0x2C (addr_mouse_handler h)
      (set_gate 0x21 (addr_keyboard_handler h) (set_gate 0x20 (addr_timer_handler h) s)))"
  let ?p = "(8 * of_nat IDT_SIZE OR push_bit 16 (addr_idt h AND 0xFFFF), drop_bit 16 (addr_idt h)) :: u32 \<times> u32"
  have f: "IDT (idt_init h s) = IDT ?g" "idt_register (idt_init h s) = Some ?p" "interrupts (idt_init h s)"
    by (simp_all add: idt_init_def Let_def load_idt_def write_port_def)
  have k: "n \<noteq> m \<Longrightarrow> IDT (set_gate m a u) ! n = IDT u ! n" "length (IDT (set_gate m a u)) = length (IDT u)" for m n a and u :: "'a kernel_scheme"
    by (simp_all add: set_gate_def)
  have base: "idt_base ?p = addr_idt h"
    using split_base [of "addr_idt h"] by (simp add: idt_base_def IDT_SIZE_def)
  have limit: "idt_limit ?p = of_nat (8 * IDT_SIZE)"
  proof (rule bit_word_eqI)
    fix n assume "n < LENGTH(16)"
    then show "bit (idt_limit ?p) n \<longleftrightarrow> bit (of_nat (8 * IDT_SIZE) :: u16) n"
      by (simp add: idt_limit_def IDT_SIZE_def bit_simps)
  qed
  have "IDT ?g ! n = IDT s ! n" if "n \<notin> {14, 0x20, 0x21, 0x2C}" for n
    using that k(1) by simp
  moreover have "outs (io (idt_init h s)) = outs (io s) @ [(0x20, 0x11), (0xA0, 0x11), (0x21, 0x20), (0xA1, 0x28),
        (0x21, 0), (0xA1, 0), (0x21, 1), (0xA1, 1), (0x21, NOT 0x07), (0xA1, NOT 0x10)]"
    by (simp add: idt_init_def Let_def load_idt_def) (simp add: set_gate_def)
  ultimately show ?thesis
    using base limit assms by (simp add: idt_ready_def f k gate_address_set)
qed

text \<open>C23: \<open>idt_init\<close>: vectors 0x20 (timer), 0x21 (keyboard), 0x2C (mouse) and 14 (page fault) call the stubs of
  \<open>start.asm\<close> as interrupt gates of the kernel, no other gate changes, the processor's register points
  at the table, the controllers are programmed for vectors from 0x20 and 0x28 with exactly the timer,
  the keyboard, the cascade and the mouse unmasked, and interrupts are enabled at the end. The limit
  that is loaded is 2048, one more than the last byte of the table.\<close>

theorem idt_init_installs:
  assumes "length (IDT s) = 256"
  shows "idt_ready h (idt_init h s) \<and> interrupts (idt_init h s)
    \<and> (\<forall>n. n \<notin> {14, 0x20, 0x21, 0x2C} \<longrightarrow> IDT (idt_init h s) ! n = IDT s ! n)
    \<and> map_option idt_limit (idt_register (idt_init h s)) = Some (of_nat (8 * IDT_SIZE))
    \<and> outs (io (idt_init h s)) = outs (io s) @ [(0x20, 0x11), (0xA0, 0x11), (0x21, 0x20), (0xA1, 0x28),
        (0x21, 0), (0xA1, 0), (0x21, 1), (0xA1, 1), (0x21, NOT 0x07), (0xA1, NOT 0x10)]"
  using assms by (rule idt_init_installs_fact)

definition blank_kernel :: kernel where
  "blank_kernel = with_kernel_globals blank_devices"

theorem idt_init_installs_witness:
  "gate_address (IDT (idt_init idle_board blank_kernel) ! 0x21) = 0x101100"
proof -
  have "length (IDT blank_kernel) = 256"
    by (simp add: blank_kernel_def with_kernel_globals_def devices.defs kernel.defs IDT_SIZE_def)
  from idt_init_installs [OF this, of idle_board] show ?thesis by (simp add: idt_ready_def idle_board_def)
qed

end
