(* ===== verification/Interruptible.thy ===== *)
theory Interruptible
  imports Prelude
begin

text \<open>
  Programs that can be interrupted. A program is what is left to do: nothing but to return a value,
  or a statement that is executed without interruption, followed by a program that may depend on the
  state the statement found (a local variable of the C code is bound in the continuation). Between two
  statements anything may happen to the state. \<open>run\<close> is the run without interruption.

  \<open>every\<close> says that all statements of a program satisfy a predicate; \<open>steady\<close> that a relation between
  two states is kept by every statement and that related states take the same branches, which makes
  the rest of the run insensitive to interruptions that respect the relation.
\<close>

datatype ('s, 'a) prog = Return 'a | Stmt "'s \<Rightarrow> 's" "'s \<Rightarrow> ('s, 'a) prog"

primrec run :: "('s, 'a) prog \<Rightarrow> 's \<Rightarrow> 'a \<times> 's" where
  "run (Return a) s = (a, s)"
| "run (Stmt f k) s = run (k s) (f s)"

primrec after :: "('s, 'a) prog \<Rightarrow> ('a \<Rightarrow> ('s, 'b) prog) \<Rightarrow> ('s, 'b) prog" where
  "after (Return a) g = g a"
| "after (Stmt f k) g = Stmt f (\<lambda>s. after (k s) g)"

text \<open>A statement without a value, one with a value, and a sequence of programs without values.\<close>

definition stmt :: "('s \<Rightarrow> 's) \<Rightarrow> ('s, unit) prog" where
  "stmt f = Stmt f (\<lambda>_. Return ())"

definition get :: "('s \<Rightarrow> 'a \<times> 's) \<Rightarrow> ('s, 'a) prog" where
  "get f = Stmt (\<lambda>s. snd (f s)) (\<lambda>s. Return (fst (f s)))"

fun block :: "('s, unit) prog list \<Rightarrow> ('s, unit) prog" where
  "block [] = Return ()"
| "block (p # ps) = after p (\<lambda>_. block ps)"

lemma run_after [simp]: "run (after p g) s = run (g (fst (run p s))) (snd (run p s))"
  by (induction p arbitrary: s) simp_all

lemma run_stmt [simp]: "run (stmt f) s = ((), f s)"
  by (simp add: stmt_def)

lemma run_get [simp]: "run (get f) s = f s"
  by (simp add: get_def)

lemma run_block: "run (block ps) s = ((), fold (\<lambda>p s. snd (run p s)) ps s)"
  by (induction ps arbitrary: s) simp_all

lemma run_unit: "run p s = ((), snd (run p s))" for p :: "('s, unit) prog"
  by (cases "run p s") simp

lemma after_after: "after (after p g) h = after p (\<lambda>a. after (g a) h)"
  by (induction p) simp_all

lemma block_append: "block (ps @ qs) = after (block ps) (\<lambda>_. block qs)"
  by (induction ps) (simp_all add: after_after)

text \<open>Something is left to do.\<close>

primrec running :: "('s, 'a) prog \<Rightarrow> bool" where
  "running (Return a) \<longleftrightarrow> False"
| "running (Stmt f k) \<longleftrightarrow> True"

lemma running_simps [simp]: "running p \<Longrightarrow> running (after p g)" "running (stmt f)" "running (get h)"
  by (cases p; simp) (simp_all add: stmt_def get_def)

section \<open>All statements\<close>

primrec every :: "(('s \<Rightarrow> 's) \<Rightarrow> bool) \<Rightarrow> ('s, 'a) prog \<Rightarrow> bool" where
  "every P (Return a) \<longleftrightarrow> True"
| "every P (Stmt f k) \<longleftrightarrow> P f \<and> (\<forall>s. every P (k s))"

lemma every_after: "every P p \<Longrightarrow> (\<And>a. every P (g a)) \<Longrightarrow> every P (after p g)"
  by (induction p) simp_all

lemma every_stmt [simp]: "every P (stmt f) \<longleftrightarrow> P f"
  by (simp add: stmt_def)

lemma every_get [simp]: "every P (get f) \<longleftrightarrow> P (\<lambda>s. snd (f s))"
  by (simp add: get_def)

lemma every_block: "(\<And>p. p \<in> set ps \<Longrightarrow> every P p) \<Longrightarrow> every P (block ps)"
  by (induction ps) (auto intro: every_after)

lemma every_mono: "every P p \<Longrightarrow> (\<And>f. P f \<Longrightarrow> Q f) \<Longrightarrow> every Q p"
  by (induction p) simp_all

section \<open>Steady programs\<close>

primrec steady :: "('s \<Rightarrow> 's \<Rightarrow> bool) \<Rightarrow> ('s, 'a) prog \<Rightarrow> bool" where
  "steady R (Return a) \<longleftrightarrow> True"
| "steady R (Stmt f k) \<longleftrightarrow> (\<forall>s t. R s t \<longrightarrow> R (f s) (f t) \<and> k s = k t) \<and> (\<forall>s. steady R (k s))"

lemma steady_run: "steady R p \<Longrightarrow> R s t \<Longrightarrow> R (snd (run p s)) (snd (run p t))"
proof (induction p arbitrary: s t)
  case (Stmt f k)
  then have "R (f s) (f t)" "k s = k t" "steady R (k s)" by auto
  then show ?case using Stmt.IH [OF rangeI, of s "f s" "f t"] by simp
qed simp

lemma steady_after:
  assumes "steady R p" and "\<And>a. steady R (g a)"
  shows "steady R (after p g)"
  using assms(1)
proof (induction p)
  case (Stmt f k)
  then have "R s t \<Longrightarrow> k s = k t" for s t by simp
  then have "R s t \<Longrightarrow> after (k s) g = after (k t) g" for s t by metis
  then show ?case using Stmt by simp
qed (simp add: assms(2))

lemma steady_stmt: "(\<And>s t. R s t \<Longrightarrow> R (f s) (f t)) \<Longrightarrow> steady R (stmt f)"
  by (simp add: stmt_def)

lemma steady_block: "(\<And>p. p \<in> set ps \<Longrightarrow> steady R p) \<Longrightarrow> steady R (block ps)"
  by (induction ps) (auto intro: steady_after)

section \<open>Every program ends\<close>

text \<open>One statement less: the rest of a program is smaller than the program, and there is no
  infinite descent, whatever the states are in which the statements are executed.\<close>

inductive rest_of :: "('s, 'a) prog \<Rightarrow> ('s, 'a) prog \<Rightarrow> bool" where
  "rest_of (k s) (Stmt f k)"

inductive_cases rest_of_StmtE: "rest_of p (Stmt f k)"
inductive_simps rest_of_simps: "rest_of p (Return a)" "rest_of p (Stmt f k)"

lemma wfp_rest_of: "wfP (rest_of :: ('s, 'a) prog \<Rightarrow> _)"
proof (rule wfpUNIVI)
  fix P :: "('s, 'a) prog \<Rightarrow> bool" and p
  assume step: "\<forall>p. (\<forall>q. rest_of q p \<longrightarrow> P q) \<longrightarrow> P p"
  show "P p"
  proof (induction p)
    case (Return a)
    show ?case using step by (simp add: rest_of_simps(1))
  next
    case (Stmt f k)
    have "P q" if "rest_of q (Stmt f k)" for q
      using that by (rule rest_of_StmtE) (simp add: Stmt)
    then show ?case using step by blast
  qed
qed

end
