(* ===== verification/Boot.thy ===== *)
theory Boot
  imports Kernel Interruptible
begin

text \<open>
  What \<open>kmain\<close> runs with interrupts enabled, statement by statement. \<open>idt_init\<close> ends with \<open>sti\<close>, and
  from then on a handler can run between any two statements of \<open>fs_init\<close>, \<open>net_stack_init\<close>, \<open>kprint\<close> and
  of the number printers. The programs below are these functions again, cut at every
  statement that accesses a global, memory or a port; a condition on a global is a statement of its own.
  For each of them, the run without interruption is the function of the other theories.
\<close>

section \<open>Printing\<close>

definition put_byte :: "u8 \<Rightarrow> 'a machine_scheme \<Rightarrow> 'a machine_scheme" where
  "put_byte v s = (poke (vidptr + current_loc s) v s)\<lparr>current_loc := current_loc s + 1\<rparr>"

definition erase_prog :: "('a machine_scheme, unit) prog" where
  "erase_prog = after (get (\<lambda>s. (2 \<le> current_loc s, s))) (\<lambda>b.
     if b then block [stmt (\<lambda>s. s\<lparr>current_loc := current_loc s - 2\<rparr>),
                      stmt (\<lambda>s. poke (vidptr + current_loc s) 0x20 s),
                      stmt (\<lambda>s. poke (vidptr + (current_loc s + 1)) 0x07 s)]
     else Return ())"

definition kputc_prog :: "char \<Rightarrow> ('a machine_scheme, unit) prog" where
  "kputc_prog c = block
     [stmt (write_port 0x3F8 (of_char c)),
      if c = NL then stmt (\<lambda>s. s\<lparr>current_loc := current_loc s + (160 - current_loc s mod 160)\<rparr>)
      else if c = BS then erase_prog
      else block [stmt (put_byte (of_char c)), stmt (put_byte 0x07)]]"

primrec kprint_prog :: "char list \<Rightarrow> ('a machine_scheme, unit) prog" where
  "kprint_prog [] = Return ()"
| "kprint_prog (c # cs) = (if c = NUL then Return () else after (kputc_prog c) (\<lambda>_. kprint_prog cs))"

definition kprint_hex_prog :: "u32 \<Rightarrow> ('a machine_scheme, unit) prog" where
  "kprint_hex_prog val = kprint_prog (hex_string val)"

definition kprint_dec_prog :: "u32 \<Rightarrow> ('a machine_scheme, unit) prog" where
  "kprint_dec_prog v = (if v = 0 then kprint_prog ''0'' else block (map (\<lambda>c. kprint_prog [c, NUL]) (rev (dec_loop v))))"

definition kprint_ip_prog :: "u32 \<Rightarrow> ('a machine_scheme, unit) prog" where
  "kprint_ip_prog ip = block
     [kprint_dec_prog (drop_bit 24 ip AND 0xFF), kprint_prog ''.'',
      kprint_dec_prog (drop_bit 16 ip AND 0xFF), kprint_prog ''.'',
      kprint_dec_prog (drop_bit 8 ip AND 0xFF), kprint_prog ''.'',
      kprint_dec_prog (ip AND 0xFF)]"

primrec kprint_mac_prog :: "nat \<Rightarrow> u8 list \<Rightarrow> ('a machine_scheme, unit) prog" where
  "kprint_mac_prog i [] = Return ()"
| "kprint_mac_prog i (b # bs) = block
     [kprint_prog [mac_digit (drop_bit 4 b AND 0xF), NUL], kprint_prog [mac_digit (b AND 0xF), NUL],
      if i < 5 then kprint_prog '':'' else Return (), kprint_mac_prog (i + 1) bs]"

lemma run_kprint [simp]: "run (kprint_prog m) s = ((), kprint m s)"
proof (induction m arbitrary: s)
  case (Cons c m)
  have "snd (run (kputc_prog c) s) = kputc c s" for s :: "'a machine_scheme"
    by (simp add: kputc_prog_def kputc_def erase_prog_def erase_cell_def put_byte_def Let_def poke_def write_port_def)
  then show ?case using Cons by (simp add: kprint.simps)
qed (simp add: kprint.simps)

lemma run_kprint_hex [simp]: "run (kprint_hex_prog v) s = ((), kprint_hex v s)"
  by (simp add: kprint_hex_prog_def kprint_hex_def)

lemma run_kprint_dec [simp]: "run (kprint_dec_prog v) s = ((), kprint_dec v s)"
  by (simp add: kprint_dec_prog_def kprint_dec_def run_block fold_map comp_def del: kprint_prog.simps kprint.simps)

lemma run_kprint_ip [simp]: "run (kprint_ip_prog v) s = ((), kprint_ip v s)"
  by (simp add: kprint_ip_prog_def kprint_ip_def Let_def del: kprint_prog.simps kprint.simps)

lemma run_kprint_mac_from: "run (kprint_mac_prog i m) s = ((), kprint_mac_from i m s)"
  by (induction m arbitrary: i s) (simp_all add: Let_def del: kprint_prog.simps kprint.simps)

lemma run_kprint_mac [simp]: "run (kprint_mac_prog 0 m) s = ((), kprint_mac m s)"
  by (simp add: run_kprint_mac_from kprint_mac_def)

text \<open>Every statement of a printing routine is a console operation.\<close>

lemma console_op_loc: "console_op (\<lambda>s. s\<lparr>current_loc := F s\<rparr>)"
proof
  fix s :: "'a machine_scheme"
  have "s\<lparr>current_loc := F s\<rparr> = s\<lparr>io := [] @ io s, mem := mem s, current_loc := F s\<rparr>" by simp
  then show "\<exists>i m l. s\<lparr>current_loc := F s\<rparr> = s\<lparr>io := i @ io s, mem := m, current_loc := l\<rparr>" by blast
qed

lemma console_op_poke_at: "console_op (\<lambda>s. poke (A s) (V s) s)"
proof
  fix s :: "'a machine_scheme"
  have "poke (A s) (V s) s = s\<lparr>io := [] @ io s, mem := (mem s)(A s := V s), current_loc := current_loc s\<rparr>"
    by (simp add: poke_def)
  then show "\<exists>i m l. poke (A s) (V s) s = s\<lparr>io := i @ io s, mem := m, current_loc := l\<rparr>" by blast
qed

lemma console_op_put_byte: "console_op (put_byte v)"
proof
  fix s :: "'a machine_scheme"
  have "put_byte v s = s\<lparr>io := [] @ io s, mem := (mem s)(vidptr + current_loc s := v), current_loc := current_loc s + 1\<rparr>"
    by (simp add: put_byte_def poke_def)
  then show "\<exists>i m l. put_byte v s = s\<lparr>io := i @ io s, mem := m, current_loc := l\<rparr>" by blast
qed

lemma every_kprint: "every console_op (kprint_prog m)"
proof (induction m)
  case (Cons c m)
  have e: "every console_op erase_prog"
    unfolding erase_prog_def
    by (rule every_after) (auto intro!: every_after simp: console_op_id console_op_loc console_op_poke_at)
  have "every console_op (kputc_prog c)"
    unfolding kputc_prog_def
    by (auto intro!: every_after simp: e console_op_write_port console_op_loc console_op_put_byte)
  then show ?case using Cons by (auto intro: every_after)
qed simp

lemma every_kprint_dec: "every console_op (kprint_dec_prog v)"
  unfolding kprint_dec_prog_def by (auto intro!: every_block every_kprint simp del: kprint_prog.simps)

lemma every_print:
  "every console_op (kprint_hex_prog v)" "every console_op (kprint_ip_prog v)" "every console_op (kprint_mac_prog i m)"
proof -
  show "every console_op (kprint_hex_prog v)" unfolding kprint_hex_prog_def by (rule every_kprint)
  show "every console_op (kprint_ip_prog v)"
    unfolding kprint_ip_prog_def by (rule every_block) (auto simp: every_kprint every_kprint_dec simp del: kprint_prog.simps)
  show "every console_op (kprint_mac_prog i m)"
    by (induction m arbitrary: i)
       (auto intro!: every_block simp: every_kprint simp del: kprint_prog.simps block.simps)
qed

section \<open>fs_init\<close>

text \<open>The body of the loop over the entries, with its loops over the bytes of the name and of the
  content, and the whole function.\<close>

definition fs_clear_prog :: "nat \<Rightarrow> ('a fsys_scheme, unit) prog" where
  "fs_clear_prog i = block
     ([stmt (upd_ent (int i) (\<lambda>e. e\<lparr>e_type := FS_TYPE_NONE\<rparr>)),
       stmt (upd_ent (int i) (\<lambda>e. e\<lparr>e_size := 0\<rparr>)),
       stmt (upd_ent (int i) (\<lambda>e. e\<lparr>e_parent := FS_NULL_IDX\<rparr>))]
      @ map (\<lambda>j. stmt (upd_ent (int i) (\<lambda>e. e\<lparr>e_name := (e_name e)[j := NUL]\<rparr>))) [0..<FS_MAX_NAME_LEN + 1]
      @ map (\<lambda>j. stmt (upd_ent (int i) (\<lambda>e. e\<lparr>e_content := (e_content e)[j := NUL]\<rparr>))) [0..<FS_MAX_FILE_SIZE])"

definition fs_init_prog :: "('a fsys_scheme, unit) prog" where
  "fs_init_prog = block
     (map fs_clear_prog [0..<FS_MAX_ENTRIES]
      @ [stmt (upd_ent FS_ROOT_IDX (\<lambda>e. e\<lparr>e_type := FS_TYPE_DIR\<rparr>)),
         stmt (upd_ent FS_ROOT_IDX (\<lambda>e. e\<lparr>e_parent := FS_NULL_IDX\<rparr>)),
         stmt (upd_ent FS_ROOT_IDX (\<lambda>e. e\<lparr>e_name := (e_name e)[0 := NUL]\<rparr>)),
         stmt (\<lambda>s. s\<lparr>fs_cwd := FS_ROOT_IDX\<rparr>)])"

definition cleared :: "fs_entry \<Rightarrow> fs_entry" where
  "cleared e = e\<lparr>e_type := FS_TYPE_NONE, e_size := 0, e_parent := FS_NULL_IDX,
     e_name := replicate (FS_MAX_NAME_LEN + 1) NUL, e_content := replicate FS_MAX_FILE_SIZE NUL\<rparr>"

text \<open>The sizes of the arrays in the table, as they are declared.\<close>

definition declared_shape :: "(nat \<times> nat) list" where
  "declared_shape = replicate FS_MAX_ENTRIES (FS_MAX_NAME_LEN + 1, FS_MAX_FILE_SIZE)"

lemma table_shape_entry:
  assumes "table_shape s = declared_shape"
  shows "length (fs_table s) = 32"
    and "i < 32 \<Longrightarrow> length (e_name (fs_table s ! i)) = 17 \<and> length (e_content (fs_table s ! i)) = 256"
proof -
  have m: "map entry_shape (fs_table s) = replicate 32 (17, 256)"
    using assms by (simp add: table_shape_def declared_shape_def FS_MAX_ENTRIES_def FS_MAX_NAME_LEN_def FS_MAX_FILE_SIZE_def)
  from arg_cong [OF m, of length] show l: "length (fs_table s) = 32" by simp
  assume i: "i < 32"
  then have "entry_shape (fs_table s ! i) = map entry_shape (fs_table s) ! i" using l by simp
  also have "\<dots> = (17, 256)" unfolding m using i by (rule nth_replicate)
  finally show "length (e_name (fs_table s ! i)) = 17 \<and> length (e_content (fs_table s ! i)) = 256"
    by (simp add: entry_shape_def)
qed

lemma fold_set_list: "k \<le> length n \<Longrightarrow> fold (\<lambda>j n. n[j := v]) [0..<k] n = replicate k v @ drop k n"
proof (induction k)
  case (Suc k)
  have "(replicate k v @ drop k n)[k := v] = replicate k v @ (drop k n)[0 := v]" by (simp add: list_update_append)
  also have "\<dots> = replicate (Suc k) v @ drop (Suc k) n"
    using Suc.prems by (simp add: Cons_nth_drop_Suc [symmetric] replicate_app_Cons_same)
  finally show ?case using Suc by simp
qed simp

lemma upd_ent_upd_ent: "nat i < length (fs_table s) \<Longrightarrow> upd_ent i g (upd_ent i f s) = upd_ent i (\<lambda>e. g (f e)) s"
  by (simp add: upd_ent_def)

lemma fold_upd_ent: "nat i < length (fs_table s) \<Longrightarrow> fold (\<lambda>j. upd_ent i (G j)) js s = upd_ent i (\<lambda>e. fold G js e) s"
proof (induction js arbitrary: s)
  case Nil
  then show ?case by (simp add: upd_ent_def)
next
  case (Cons j js)
  then have "fold (\<lambda>j. upd_ent i (G j)) js (upd_ent i (G j) s) = upd_ent i (\<lambda>e. fold G js e) (upd_ent i (G j) s)"
    by (intro Cons.IH) simp
  then show ?case using Cons.prems by (simp add: upd_ent_upd_ent)
qed

lemma fold_entry_fields:
  "fold (\<lambda>j e. e\<lparr>e_name := (e_name e)[j := NUL]\<rparr>) js e = e\<lparr>e_name := fold (\<lambda>j n. n[j := NUL]) js (e_name e)\<rparr>"
  "fold (\<lambda>j e. e\<lparr>e_content := (e_content e)[j := NUL]\<rparr>) js e = e\<lparr>e_content := fold (\<lambda>j n. n[j := NUL]) js (e_content e)\<rparr>"
  by (induction js arbitrary: e) simp_all

lemma run_fs_clear:
  assumes "i < length (fs_table s)" and "length (e_name (fs_table s ! i)) = 17" and "length (e_content (fs_table s ! i)) = 256"
  shows "snd (run (fs_clear_prog i) s) = upd_ent (int i) cleared s"
proof -
  let ?F = "\<lambda>e. fold (\<lambda>j e. e\<lparr>e_content := (e_content e)[j := NUL]\<rparr>) [0..<256]
      (fold (\<lambda>j e. e\<lparr>e_name := (e_name e)[j := NUL]\<rparr>) [0..<17]
        (e\<lparr>e_type := FS_TYPE_NONE, e_size := 0, e_parent := FS_NULL_IDX\<rparr>))"
  have "snd (run (fs_clear_prog i) s) = upd_ent (int i) ?F s"
    using assms(1) unfolding fs_clear_prog_def
    by (simp add: run_block fold_map comp_def FS_MAX_NAME_LEN_def FS_MAX_FILE_SIZE_def fold_upd_ent upd_ent_upd_ent
        del: upt_Suc)
  moreover have "?F (fs_table s ! i) = cleared (fs_table s ! i)"
    using fold_set_list [of 17 "e_name (fs_table s ! i)" NUL] fold_set_list [of 256 "e_content (fs_table s ! i)" NUL] assms(2,3)
    by (simp add: fold_entry_fields cleared_def FS_MAX_NAME_LEN_def FS_MAX_FILE_SIZE_def del: upt_Suc)
  ultimately show ?thesis by (simp add: upd_ent_def)
qed

lemma run_fs_clear_all:
  assumes "table_shape s = declared_shape" and "k \<le> 32"
  shows "fold (\<lambda>i s. snd (run (fs_clear_prog i) s)) [0..<k] s
    = s\<lparr>fs_table := map cleared (take k (fs_table s)) @ drop k (fs_table s)\<rparr>"
  using assms(2)
proof (induction k)
  case (Suc k)
  let ?t = "s\<lparr>fs_table := map cleared (take k (fs_table s)) @ drop k (fs_table s)\<rparr>"
  have l: "length (fs_table s) = 32" by (rule table_shape_entry(1) [OF assms(1)])
  have k: "fs_table ?t ! k = fs_table s ! k" using Suc.prems l by (simp add: nth_append)
  have "snd (run (fs_clear_prog k) ?t) = upd_ent (int k) cleared ?t"
    using Suc.prems l table_shape_entry(2) [OF assms(1), of k] by (intro run_fs_clear) (simp_all add: k [simplified])
  also have "\<dots> = s\<lparr>fs_table := map cleared (take (Suc k) (fs_table s)) @ drop (Suc k) (fs_table s)\<rparr>"
  proof -
    have "(map cleared (take k (fs_table s)) @ drop k (fs_table s))[k := cleared (fs_table s ! k)]
        = map cleared (take k (fs_table s)) @ (drop k (fs_table s))[0 := cleared (fs_table s ! k)]"
      using Suc.prems l by (simp add: list_update_append)
    also have "\<dots> = map cleared (take (Suc k) (fs_table s)) @ drop (Suc k) (fs_table s)"
      using Suc.prems l by (simp add: Cons_nth_drop_Suc [symmetric] take_Suc_conv_app_nth)
    finally show ?thesis using k by (simp add: upd_ent_def)
  qed
  finally show ?case using Suc by simp
qed simp

lemma run_fs_init:
  assumes "table_shape s = declared_shape"
  shows "snd (run fs_init_prog s) = fs_init s"
proof -
  have l: "length (fs_table s) = 32" by (rule table_shape_entry(1) [OF assms])
  have "fold (\<lambda>i s. snd (run (fs_clear_prog i) s)) [0..<32] s = s\<lparr>fs_table := map cleared (fs_table s)\<rparr>"
    using run_fs_clear_all [OF assms, of 32] l by simp
  then show ?thesis
    using l unfolding fs_init_prog_def fs_init_def
    by (simp add: run_block fold_map comp_def FS_MAX_ENTRIES_def upd_ent_upd_ent Let_def del: upt_Suc upt_rec_numeral)
       (simp add: cleared_def [abs_def])
qed

text \<open>The statements change nothing but the table and the working directory, keep the sizes of the arrays, and do
  the same on equal tables: the rest of the run is insensitive to handlers that leave the file system alone.\<close>

definition same_files :: "'a fsys_scheme \<Rightarrow> 'a fsys_scheme \<Rightarrow> bool" where
  "same_files s t \<longleftrightarrow> fs_table s = fs_table t \<and> fs_cwd s = fs_cwd t"

definition file_stmt :: "('a fsys_scheme \<Rightarrow> 'a fsys_scheme) \<Rightarrow> bool" where
  "file_stmt f \<longleftrightarrow> (\<forall>s. table_shape (f s) = table_shape s
     \<and> (f s)\<lparr>fs_table := [], fs_cwd := 0\<rparr> = s\<lparr>fs_table := [], fs_cwd := 0\<rparr>)"

lemma file_stmt_upd: "(\<And>e. entry_shape (f e) = entry_shape e) \<Longrightarrow> file_stmt (upd_ent i f)"
  unfolding file_stmt_def by (simp add: table_shape_upd) (simp add: upd_ent_def)

lemma file_stmt_cwd: "file_stmt (\<lambda>s. s\<lparr>fs_cwd := c\<rparr>)"
  by (simp add: file_stmt_def table_shape_def)

lemma every_fs_init: "every file_stmt fs_init_prog"
  unfolding fs_init_prog_def fs_clear_prog_def
  by (rule every_block) (auto intro!: every_block file_stmt_upd file_stmt_cwd simp del: block.simps)

lemma steady_fs_init: "steady same_files fs_init_prog"
proof -
  have "same_files s t \<Longrightarrow> same_files (upd_ent i f s) (upd_ent i f t)" for i f and s t :: "'a fsys_scheme"
    by (simp add: same_files_def)
  moreover have "same_files s t \<Longrightarrow> same_files (s\<lparr>fs_cwd := c\<rparr>) (t\<lparr>fs_cwd := c\<rparr>)" for c and s t :: "'a fsys_scheme"
    by (simp add: same_files_def)
  ultimately show ?thesis
    unfolding fs_init_prog_def fs_clear_prog_def
    by (intro steady_block) (auto intro!: steady_block steady_stmt simp del: block.simps)
qed

section \<open>net_stack_init\<close>

definition arp_clear :: "nat \<Rightarrow> 'a netif_scheme \<Rightarrow> 'a netif_scheme" where
  "arp_clear i s = s\<lparr>arp_cache := (arp_cache s)[i := (arp_cache s ! i)\<lparr>a_valid := False\<rparr>]\<rparr>"

definition arp_cache_init_prog :: "('a netif_scheme, unit) prog" where
  "arp_cache_init_prog = block (map (\<lambda>i. stmt (arp_clear i)) [0..<ARP_CACHE_SIZE])"

definition pci_inl_prog :: "hw \<Rightarrow> u16 \<Rightarrow> ('a machine_scheme, u32) prog" where
  "pci_inl_prog h port =
     after (get (read_port h port)) (\<lambda>b0.
     after (get (read_port h (port + 1))) (\<lambda>b1.
     after (get (read_port h (port + 2))) (\<lambda>b2.
     after (get (read_port h (port + 3))) (\<lambda>b3.
     Return (ucast b0 OR push_bit 8 (ucast b1) OR push_bit 16 (ucast b2) OR push_bit 24 (ucast b3))))))"

definition pci_outl_prog :: "u16 \<Rightarrow> u32 \<Rightarrow> ('a machine_scheme, unit) prog" where
  "pci_outl_prog port val = block
     [stmt (write_port port (ucast val)), stmt (write_port (port + 1) (ucast (drop_bit 8 val))),
      stmt (write_port (port + 2) (ucast (drop_bit 16 val))), stmt (write_port (port + 3) (ucast (drop_bit 24 val)))]"

definition pci_read32_prog :: "hw \<Rightarrow> u8 \<Rightarrow> u8 \<Rightarrow> u8 \<Rightarrow> u8 \<Rightarrow> ('a machine_scheme, u32) prog" where
  "pci_read32_prog h bus slot func offset =
     after (pci_outl_prog PCI_CONFIG_ADDR (pci_addr bus slot func offset)) (\<lambda>_. pci_inl_prog h PCI_CONFIG_DATA)"

definition pci_write32_prog :: "u8 \<Rightarrow> u8 \<Rightarrow> u8 \<Rightarrow> u8 \<Rightarrow> u32 \<Rightarrow> ('a machine_scheme, unit) prog" where
  "pci_write32_prog bus slot func offset value =
     block [pci_outl_prog PCI_CONFIG_ADDR (pci_addr bus slot func offset), pci_outl_prog PCI_CONFIG_DATA value]"

primrec pci_scan_prog :: "hw \<Rightarrow> u16 \<Rightarrow> u16 \<Rightarrow> (u8 \<times> u8) list \<Rightarrow> ('a machine_scheme, (u8 \<times> u8) option) prog" where
  "pci_scan_prog h vendor device [] = Return None"
| "pci_scan_prog h vendor device (b # rest) =
     after (pci_read32_prog h (fst b) (snd b) 0 0) (\<lambda>id.
       if ucast (id AND 0xFFFF) = vendor \<and> ucast (drop_bit 16 id AND 0xFFFF) = device then Return (Some b)
       else pci_scan_prog h vendor device rest)"

definition pci_find_device_prog :: "hw \<Rightarrow> u16 \<Rightarrow> u16 \<Rightarrow> ('a machine_scheme, (u8 \<times> u8) option) prog" where
  "pci_find_device_prog h vendor device = pci_scan_prog h vendor device
     (concat (map (\<lambda>bus. map (\<lambda>slot. (of_nat bus, of_nat slot)) [0..<32]) [0..<8]))"

text \<open>The register accesses of the driver: each byte access reads \<open>net_iobase\<close> anew.\<close>

definition rtl_outb_prog :: "u8 \<Rightarrow> u8 \<Rightarrow> ('a netif_scheme, unit) prog" where
  "rtl_outb_prog reg val = stmt (rtl_outb reg val)"

definition rtl_port_prog :: "u8 \<Rightarrow> u16 \<Rightarrow> u8 \<Rightarrow> ('a netif_scheme, unit) prog" where
  "rtl_port_prog reg k val = stmt (\<lambda>s. write_port (net_iobase s + ucast reg + k) val s)"

definition rtl_outw_prog :: "u8 \<Rightarrow> u16 \<Rightarrow> ('a netif_scheme, unit) prog" where
  "rtl_outw_prog reg val = block
     [rtl_port_prog reg 0 (ucast (val AND 0xFF)), rtl_port_prog reg 1 (ucast (drop_bit 8 val AND 0xFF))]"

definition rtl_outl_prog :: "u8 \<Rightarrow> u32 \<Rightarrow> ('a netif_scheme, unit) prog" where
  "rtl_outl_prog reg val = block
     [rtl_port_prog reg 0 (ucast val), rtl_port_prog reg 1 (ucast (drop_bit 8 val)),
      rtl_port_prog reg 2 (ucast (drop_bit 16 val)), rtl_port_prog reg 3 (ucast (drop_bit 24 val))]"

primrec rtl_reset_prog :: "hw \<Rightarrow> nat \<Rightarrow> ('a netif_scheme, unit) prog" where
  "rtl_reset_prog h 0 = after (get (rtl_inb h RTL_CR)) (\<lambda>_. Return ())"
| "rtl_reset_prog h (Suc timeout) = after (get (rtl_inb h RTL_CR))
     (\<lambda>cr. if cr AND RTL_CR_RST \<noteq> 0 then rtl_reset_prog h timeout else Return ())"

definition read_mac_prog :: "hw \<Rightarrow> nat \<Rightarrow> ('a netif_scheme, unit) prog" where
  "read_mac_prog h i = after (get (rtl_inb h (RTL_IDR0 + of_nat i)))
     (\<lambda>b. stmt (\<lambda>s. s\<lparr>net_mac := (net_mac s)[i := b]\<rparr>))"

text \<open>\<open>net_init\<close> once the card is found.\<close>

definition card_start_prog :: "hw \<Rightarrow> ('a netif_scheme, unit) prog" where
  "card_start_prog h = block
     [kprint_prog ''[NET] I/O base: '',
      after (get (\<lambda>s. (net_iobase s, s))) (\<lambda>b. kprint_hex_prog (ucast b)), kprint_prog [NL],
      rtl_outb_prog RTL_CONFIG1 0x00,
      rtl_outb_prog RTL_CR RTL_CR_RST, rtl_reset_prog h 1000000,
      block (map (read_mac_prog h) [0..<6]),
      kprint_prog ''[NET] MAC: '', after (get (\<lambda>s. (net_mac s, s))) (kprint_mac_prog 0), kprint_prog [NL],
      rtl_outl_prog RTL_RBSTART (addr_rx_buf h),
      rtl_outl_prog RTL_RCR RTL_RCR_VALUE,
      rtl_outl_prog RTL_TCR 0x03000700,
      block (map (\<lambda>i. rtl_outl_prog (RTL_TSAD0 + of_nat i * 4) (addr_tx_buf h + of_nat i * ucast RTL_TX_BUF_SIZE))
        [0..<RTL_TX_DESC_NUM]),
      rtl_outb_prog RTL_CR (RTL_CR_RE OR RTL_CR_TE),
      rtl_outw_prog RTL_IMR (0x0001 OR 0x0004),
      stmt (\<lambda>s. s\<lparr>rx_cur := 0\<rparr>),
      kprint_prog ''[NET] RTL8139 initialized. IP: '',
      after (get (\<lambda>s. (net_ip s, s))) kprint_ip_prog, kprint_prog [NL]]"

definition net_init_prog :: "hw \<Rightarrow> ('a netif_scheme, unit) prog" where
  "net_init_prog h = after (pci_find_device_prog h 0x10EC 0x8139) (\<lambda>r. case r of
     None \<Rightarrow> kprint_prog (''[NET] RTL8139 not found on PCI bus.'' @ [NL])
   | Some (bus, slot) \<Rightarrow>
       after (block [kprint_prog ''[NET] RTL8139 found at PCI '', kprint_dec_prog (ucast bus), kprint_prog '':'',
                     kprint_dec_prog (ucast slot), kprint_prog (''.0'' @ [NL])]) (\<lambda>_.
       after (pci_read32_prog h bus slot 0 0x04) (\<lambda>cmd.
       after (pci_write32_prog bus slot 0 0x04 (cmd OR 0x05)) (\<lambda>_.
       after (pci_read32_prog h bus slot 0 0x10) (\<lambda>bar0.
       after (stmt (\<lambda>s. s\<lparr>net_iobase := ucast (bar0 AND NOT 0x3)\<rparr>)) (\<lambda>_.
       card_start_prog h))))))"

lemma run_pci [simp]:
  "run (pci_inl_prog h p) s = pci_inl h p s" "run (pci_outl_prog p v) s = ((), pci_outl p v s)"
  "run (pci_read32_prog h bus slot f off) s = pci_read32 h bus slot f off s"
  "run (pci_write32_prog bus slot f off v) s = ((), pci_write32 bus slot f off v s)"
  by (simp_all add: pci_inl_prog_def pci_outl_prog_def pci_read32_prog_def pci_write32_prog_def
      pci_inl_def pci_outl_def pci_read32_def pci_write32_def Let_def split_beta)

lemma run_pci_find [simp]: "run (pci_find_device_prog h v d) s = pci_find_device h v d s"
proof -
  have "run (pci_scan_prog h v d bs) s = pci_scan h v d bs s" for bs and s :: "'a machine_scheme"
    by (induction bs arbitrary: s) (auto simp: Let_def split_beta)
  then show ?thesis by (simp add: pci_find_device_prog_def pci_find_device_def)
qed

lemma run_rtl [simp]:
  "run (rtl_outb_prog reg b) s = ((), rtl_outb reg b s)" "run (rtl_outw_prog reg w) s = ((), rtl_outw reg w s)"
  "run (rtl_outl_prog reg v) s = ((), rtl_outl reg v s)" "run (read_mac_prog h i) s = ((), read_mac_byte h i s)"
  by (simp_all add: rtl_outb_prog_def rtl_outw_prog_def rtl_outl_prog_def read_mac_prog_def rtl_port_prog_def
      rtl_outw_def rtl_outl_def read_mac_byte_def Let_def split_beta)

lemma run_rtl_reset [simp]: "run (rtl_reset_prog h n) s = ((), rtl_reset_loop h n s)"
  by (induction n arbitrary: s) (simp_all add: split_beta Let_def)

lemma run_net_init: "snd (run (net_init_prog h) s) = snd (net_init h s)"
proof -
  obtain r u where f: "pci_find_device h 0x10EC 0x8139 s = (r, u)" by (cases "pci_find_device h 0x10EC 0x8139 s")
  show ?thesis
  proof (cases r)
    case None
    then show ?thesis by (simp add: net_init_prog_def net_init_def f del: kprint_prog.simps kprint.simps)
  next
    case (Some bs)
    obtain bus slot where bs: "bs = (bus, slot)" by (cases bs)
    show ?thesis
      unfolding net_init_prog_def net_init_def card_start_prog_def
      by (simp add: f Some bs Let_def split_beta run_block fold_map comp_def rtl_wait_reset_def
          del: kprint_prog.simps kprint.simps rtl_reset_prog.simps rtl_reset_loop.simps kprint_mac_prog.simps)
  qed
qed

lemma run_arp_cache_init:
  assumes "length (arp_cache s) = ARP_CACHE_SIZE"
  shows "snd (run arp_cache_init_prog s) = arp_cache_init s"
proof -
  have "fold arp_clear [0..<k] s = s\<lparr>arp_cache := map (\<lambda>e. e\<lparr>a_valid := False\<rparr>) (take k (arp_cache s)) @ drop k (arp_cache s)\<rparr>"
    if "k \<le> length (arp_cache s)" for k
    using that
  proof (induction k)
    case (Suc k)
    let ?m = "map (\<lambda>e. e\<lparr>a_valid := False\<rparr>)"
    have "(?m (take k (arp_cache s)) @ drop k (arp_cache s))[k := (arp_cache s ! k)\<lparr>a_valid := False\<rparr>]
        = ?m (take (Suc k) (arp_cache s)) @ drop (Suc k) (arp_cache s)"
      using Suc.prems by (simp add: list_update_append Cons_nth_drop_Suc [symmetric] take_Suc_conv_app_nth)
    then show ?case using Suc by (simp add: arp_clear_def nth_append)
  qed simp
  from this [of "length (arp_cache s)"] show ?thesis
    by (simp add: arp_cache_init_prog_def run_block fold_map comp_def arp_cache_init_def assms)
qed

text \<open>Every statement of \<open>net_init\<close> keeps the network globals well-formed, and clearing the ARP cache entry
  by entry keeps them well-formed up to the entry that is being cleared.\<close>

definition net_stmt :: "('a netif_scheme \<Rightarrow> 'a netif_scheme) \<Rightarrow> bool" where
  "net_stmt f \<longleftrightarrow> (\<forall>s. init_others (f s) = init_others s \<and> (\<forall>n. net_upto n s \<longrightarrow> net_upto n (f s)))"

lemma net_stmt_console: "console_op f \<Longrightarrow> net_stmt f" for f :: "'a netif_scheme \<Rightarrow> 'a netif_scheme"
proof -
  assume f: "console_op f"
  have "net_upto n (f s) = net_upto n s" for n s
    by (rule console_op.unaffected [OF f]) (simp add: net_upto_def)
  then show ?thesis by (simp add: net_stmt_def init_others_console [OF f])
qed

lemmas every_console = every_mono [OF _ net_stmt_console]

lemma net_stmt_port: "net_stmt (\<lambda>s. write_port (P s) v s)" "net_stmt (\<lambda>s. snd (rtl_inb h reg s))" "net_stmt (rtl_outb reg b)"
  "net_stmt (\<lambda>s. s)"
  by (simp_all add: net_stmt_def net_upto_def) (simp_all add: write_port_def rtl_outb_def rtl_inb_def read_port_def Let_def net_upto_def)

lemma net_stmt_fields: "net_stmt (\<lambda>s. s\<lparr>net_iobase := b\<rparr>)" "net_stmt (\<lambda>s. s\<lparr>rx_cur := 0\<rparr>)"
  "net_stmt (\<lambda>s. s\<lparr>net_mac := (net_mac s)[i := b']\<rparr>)"
  by (simp_all add: net_stmt_def net_upto_def RTL_RX_BUF_SIZE_def)

lemma every_pci:
  "every console_op (pci_outl_prog p v)" "every console_op (pci_read32_prog h bus slot f off)"
  "every console_op (pci_write32_prog bus slot f off v)" "every console_op (pci_find_device_prog h d e)"
proof -
  show o: "every console_op (pci_outl_prog p v)" for p v
    unfolding pci_outl_prog_def by (rule every_block) (auto simp: console_op_write_port)
  have "every console_op (pci_inl_prog h p)" for p
    unfolding pci_inl_prog_def by (intro every_after) (simp_all add: console_op_read_port)
  then show r: "every console_op (pci_read32_prog h bus slot f off)" for bus slot f off
    unfolding pci_read32_prog_def by (intro every_after o)
  show "every console_op (pci_write32_prog bus slot f off v)"
    unfolding pci_write32_prog_def by (rule every_block) (auto simp: o)
  have "every console_op (pci_scan_prog h d e bs)" for bs
    by (induction bs) (auto intro!: every_after r)
  then show "every console_op (pci_find_device_prog h d e)" by (simp only: pci_find_device_prog_def)
qed

lemma every_rtl:
  "every net_stmt (rtl_outb_prog reg b)" "every net_stmt (rtl_outw_prog reg w)" "every net_stmt (rtl_outl_prog reg v)"
  "every net_stmt (rtl_reset_prog h n)" "every net_stmt (read_mac_prog h i)"
proof -
  show "every net_stmt (rtl_outb_prog reg b)" by (simp add: rtl_outb_prog_def net_stmt_port)
  have "every net_stmt (rtl_port_prog reg k b)" for k b
    by (simp add: rtl_port_prog_def net_stmt_port)
  then show "every net_stmt (rtl_outw_prog reg w)" "every net_stmt (rtl_outl_prog reg v)"
    unfolding rtl_outw_prog_def rtl_outl_prog_def by (auto intro!: every_block simp del: block.simps)
  show "every net_stmt (rtl_reset_prog h n)"
    by (induction n) (auto intro!: every_after simp: net_stmt_port)
  show "every net_stmt (read_mac_prog h i)"
    unfolding read_mac_prog_def by (intro every_after) (simp_all add: net_stmt_port net_stmt_fields)
qed

lemmas every_net_print = every_console [OF every_kprint] every_console [OF every_kprint_dec]
  every_console [OF every_print(1)] every_console [OF every_print(2)] every_console [OF every_print(3)]

lemma every_card_start: "every net_stmt (card_start_prog h)"
  unfolding card_start_prog_def
  by (rule every_block)
     (auto intro!: every_after every_block every_net_print every_rtl
        simp: net_stmt_port net_stmt_fields simp del: kprint_prog.simps block.simps rtl_reset_prog.simps kprint_mac_prog.simps)

lemma every_net_init: "every net_stmt (net_init_prog h)"
  unfolding net_init_prog_def
  by (intro every_after every_console [OF every_pci(4)])
     (auto intro!: every_after every_block every_net_print every_card_start every_console [OF every_pci(2)]
        every_console [OF every_pci(3)] simp: net_stmt_fields simp del: kprint_prog.simps block.simps split: option.split)

lemma net_upto_arp_clear: "net_upto i s \<Longrightarrow> i < ARP_CACHE_SIZE \<Longrightarrow> net_upto (Suc i) (arp_clear i s)"
proof -
  assume n: "net_upto i s" and i: "i < ARP_CACHE_SIZE"
  then have l: "length (arp_cache s) = ARP_CACHE_SIZE" by (simp add: net_upto_def cache_upto_def)
  then have "arp_cache s ! i \<in> set (arp_cache s)" using i by simp
  then have "\<forall>e\<in>set ((arp_cache s)[i := (arp_cache s ! i)\<lparr>a_valid := False\<rparr>]). length (a_mac e) = 6"
    using n by (auto simp: net_upto_def dest!: subsetD [OF set_update_subset_insert])
  moreover have "cache_upto (Suc i) ((arp_cache s)[i := (arp_cache s ! i)\<lparr>a_valid := False\<rparr>])"
    using n l i by (auto simp: net_upto_def cache_upto_def less_Suc_eq nth_list_update)
  ultimately show ?thesis using n by (simp add: net_upto_def arp_clear_def)
qed

section \<open>kmain\<close>

text \<open>The pointer is drawn by a read and a write at a position that was computed before.\<close>

definition mouse_cursor_prog :: "bool \<Rightarrow> ('a devices_scheme, unit) prog" where
  "mouse_cursor_prog invert = after (get (\<lambda>s. ((mouse_y s * 80 + mouse_x s) * 2, s))) (\<lambda>pos.
     if invert then after (get (\<lambda>s. (mem s (vidptr + of_int (pos + 1)), s)))
       (\<lambda>b. stmt (poke (vidptr + of_int (pos + 1)) (b XOR 0x77)))
     else Return ())"

lemma run_mouse_cursor [simp]: "run (mouse_cursor_prog iv) s = ((), update_mouse_cursor iv s)"
  by (simp add: mouse_cursor_prog_def update_mouse_cursor_def Let_def)

lemma every_mouse_cursor: "every console_op (mouse_cursor_prog iv)"
  by (auto simp: mouse_cursor_prog_def console_op_id console_op_poke intro!: every_after)

text \<open>The calls of \<open>kmain\<close> in their order. Up to \<open>idt_init\<close> interrupts are disabled and a call can
  be one statement; \<open>net_stack_init\<close> is two calls.\<close>

definition kmain_calls :: "hw \<Rightarrow> (kernel, unit) prog list" where
  "kmain_calls h =
     [block [stmt (write_port 0x3F8 (of_char CHR ''A'')), stmt (write_port 0x3F8 (of_char NL))],
      kprint_prog (''Booting MOKernel...'' @ [NL]),
      kprint_prog (''Initializing Paging...'' @ [NL]), stmt (paging_init h),
      kprint_prog (''Initializing PIT Timer...'' @ [NL]), stmt pit_init,
      kprint_prog (''Initializing PS/2 Mouse...'' @ [NL]), stmt (mouse_init h),
      kprint_prog (''Initializing IDT...'' @ [NL]), stmt (idt_init h),
      kprint_prog (''Initializing File System...'' @ [NL]), fs_init_prog,
      kprint_prog (''Initializing Network Stack...'' @ [NL]), arp_cache_init_prog, net_init_prog h,
      mouse_cursor_prog True,
      kprint_prog ([NL] @ ''Kernel initialization complete!'' @ [NL]), kprint_prog ''OS> '']"

lemma length_kmain_calls [simp]: "length (kmain_calls h) = 18"
  by (simp add: kmain_calls_def)

end
