(* ===== verification/Shell_Spec.thy ===== *)
theory Shell_Spec
  imports Shell
begin

text \<open>
  What the command interpreter promises. A command line is a C string: the bytes that older, longer
  commands left behind its terminator have no effect, with the exception of \<open>udp\<close>, which sends them.
  The text of a file command runs the operation of the file system that it names, on the argument
  that was typed.
\<close>

section \<open>Strings and what is behind them\<close>

lemma strcmp_cstr [simp]: "strcmp (cstr a) b = strcmp a b" "strcmp b (cstr a) = strcmp b a"
proof -
  show *: "strcmp (cstr a) b = strcmp a b" for a b
  proof (induction a arbitrary: b)
    case (Cons c a)
    then show ?case by (cases b) auto
  qed simp
  show "strcmp b (cstr a) = strcmp b a"
    using * [of a b] by (simp add: strcmp_antisym [of b])
qed

lemma strncmp_cstr [simp]: "0 \<le> n \<Longrightarrow> strncmp (cstr a) b n = strncmp a b n"
proof (induction a arbitrary: b n)
  case (Cons c a)
  show ?case
  proof (cases "n = 0")
    case False
    with Cons.prems have "0 < n" by simp
    then show ?thesis using Cons.IH [of "n - 1"] by (cases b) auto
  qed simp
qed simp

lemma deref_cstr [simp]: "deref (cstr a) = deref a"
  by (cases a) auto

lemma skip_spaces_cstr: "skip_spaces (cstr p) = cstr (skip_spaces p)"
  by (induction p) (auto simp: skip_spaces_def)

lemma drop_cstr: "n \<le> length (cstr c) \<Longrightarrow> drop n (cstr c) = cstr (drop n c)"
proof (induction c arbitrary: n)
  case (Cons x c)
  then show ?case by (cases n) (auto split: if_splits)
qed simp

lemma drop_word:
  assumes "strncmp c w (int n) = 0" and "length (cstr w) = n"
  shows "drop n (cstr c) = cstr (drop n c)"
proof (rule drop_cstr)
  have "take n (cstr c) = cstr w" using assms by (simp add: strncmp_zero_iff_fact)
  then show "n \<le> length (cstr c)" using assms(2) by (metis length_take min.cobounded1)
qed

lemma copy_word_cstr: "copy_word n (cstr a) = (fst (copy_word n a), cstr (snd (copy_word n a)))"
proof (induction n a rule: copy_word.induct)
  case (1 n c args)
  then show ?case by (auto simp: split_beta Let_def)
qed auto

lemma parse_ip_cstr: "parse_ip (cstr a) = parse_ip a"
proof -
  have "parse_ip_loop (cstr a) ip d oct = parse_ip_loop a ip d oct" for ip d oct
    by (induction a ip d oct rule: parse_ip_loop.induct) (auto simp: Let_def)
  then show ?thesis by (simp add: parse_ip_def)
qed

lemma charat_cstr_le: "i \<le> length (cstr a) \<Longrightarrow> charat (cstr a) i = charat a i"
proof (induction a arbitrary: i)
  case (Cons c a)
  then show ?case by (cases i) (auto split: if_splits)
qed simp

lemma cpy_loop_cstr: "i \<le> length (cstr src) \<Longrightarrow> cpy_loop dst (cstr src) lim i = cpy_loop dst src lim i"
proof (induction dst src lim i rule: cpy_loop.induct)
  case (1 dst src lim i)
  then show ?case
    using charat_stop [of i src] charat_cstr_le [of i src]
    by (subst (1 2) cpy_loop.simps) auto
qed

lemma fs_cstr:
  "fs_find_in (cstr n) d s = fs_find_in n d s" "fs_resolve_dir (cstr n) s = fs_resolve_dir n s"
  "fs_strncpy dst (cstr n) lim = fs_strncpy dst n lim" "quoted a (cstr n) b s = quoted a n b s"
  "fs_put_content (cstr n) = fs_put_content n"
  by (simp_all add: fun_eq_iff fs_find_in_def fs_resolve_dir_def fs_strncpy_def quoted_def kprint_cstr cpy_loop_cstr fs_put_content_def)

lemma fs_ops_cstr:
  "fs_mkdir (cstr n) s = fs_mkdir n s" "fs_create_file (cstr n) s = fs_create_file n s"
  "fs_cd (cstr n) s = fs_cd n s" "fs_rm (cstr n) s = fs_rm n s" "fs_rmdir (cstr n) s = fs_rmdir n s"
  "fs_read_file (cstr n) s = fs_read_file n s" "fs_write_file n (cstr d) s = fs_write_file n d s"
  "fs_write_file (cstr n) d s = fs_write_file n d s"
proof -
  have "charat (cstr n) 0 = CHR ''/'' \<and> charat (cstr n) 1 = NUL \<longleftrightarrow> charat n 0 = CHR ''/'' \<and> charat n 1 = NUL"
    by (cases n; cases "tl n") auto
  then show "fs_cd (cstr n) s = fs_cd n s" by (simp add: fs_cd_def fs_cstr Let_def)
qed (simp_all add: fs_mkdir_def fs_create_file_def fs_rm_def fs_rmdir_def fs_read_file_def fs_write_file_def fs_cstr Let_def)

section \<open>Old bytes in the command buffer\<close>

lemma with_arg_cstr:
  assumes "strncmp c w (int n) = 0" and "length (cstr w) = n" and "\<And>a. f (cstr a) s = f a s"
  shows "with_arg n (cstr c) usage f s = with_arg n c usage f s"
  by (simp add: with_arg_def drop_word [OF assms(1,2)] skip_spaces_cstr assms(3))

lemma cmd_write_cstr:
  assumes "strncmp c ''write '' 6 = 0"
  shows "cmd_write (cstr c) s = cmd_write c s"
proof -
  have "drop 6 (cstr c) = cstr (drop 6 c)" using drop_word [of c "''write ''" 6] assms by simp
  then show ?thesis
    by (simp add: cmd_write_def Let_def split_beta skip_spaces_cstr copy_word_cstr fs_ops_cstr)
qed

lemma cmd_ping_cstr:
  assumes "strncmp c ''ping '' 5 = 0"
  shows "cmd_ping poll h (cstr c) s = cmd_ping poll h c s"
proof -
  have "drop 5 (cstr c) = cstr (drop 5 c)" using drop_word [of c "''ping ''" 5] assms by simp
  then show ?thesis by (simp add: cmd_ping_def skip_spaces_cstr parse_ip_cstr)
qed

lemma execute_cstr:
  assumes "strncmp (skip_spaces cmd) ''udp '' 4 \<noteq> 0"
  shows "execute_command poll h (cstr cmd) s = execute_command poll h cmd s"
proof -
  let ?c = "skip_spaces cmd"
  have a: "with_arg 6 (cstr ?c) u (\<lambda>a s. snd (fs_mkdir a s)) s = with_arg 6 ?c u (\<lambda>a s. snd (fs_mkdir a s)) s"
    if "strncmp ?c ''mkdir '' 6 = 0" for u
    using that by (intro with_arg_cstr [of _ "''mkdir ''"]) (simp_all add: fs_ops_cstr)
  have b: "with_arg 3 (cstr ?c) u (\<lambda>a s. snd (fs_cd a s)) s = with_arg 3 ?c u (\<lambda>a s. snd (fs_cd a s)) s"
    if "strncmp ?c ''cd '' 3 = 0" for u
    using that by (intro with_arg_cstr [of _ "''cd ''"]) (simp_all add: fs_ops_cstr)
  have c: "with_arg 3 (cstr ?c) u (\<lambda>a s. snd (fs_rm a s)) s = with_arg 3 ?c u (\<lambda>a s. snd (fs_rm a s)) s"
    if "strncmp ?c ''rm '' 3 = 0" for u
    using that by (intro with_arg_cstr [of _ "''rm ''"]) (simp_all add: fs_ops_cstr)
  have d: "with_arg 6 (cstr ?c) u (\<lambda>a s. snd (fs_rmdir a s)) s = with_arg 6 ?c u (\<lambda>a s. snd (fs_rmdir a s)) s"
    if "strncmp ?c ''rmdir '' 6 = 0" for u
    using that by (intro with_arg_cstr [of _ "''rmdir ''"]) (simp_all add: fs_ops_cstr)
  have e: "with_arg 6 (cstr ?c) u (\<lambda>a s. snd (fs_create_file a s)) s = with_arg 6 ?c u (\<lambda>a s. snd (fs_create_file a s)) s"
    if "strncmp ?c ''touch '' 6 = 0" for u
    using that by (intro with_arg_cstr [of _ "''touch ''"]) (simp_all add: fs_ops_cstr)
  have f: "with_arg 4 (cstr ?c) u fs_read_file s = with_arg 4 ?c u fs_read_file s"
    if "strncmp ?c ''cat '' 4 = 0" for u
    using that by (intro with_arg_cstr [of _ "''cat ''"]) (simp_all add: fs_ops_cstr)
  have g: "kprint (drop 5 (cstr ?c)) s = kprint (drop 5 ?c) s" if "strncmp ?c ''echo '' 5 = 0"
    using drop_word [of ?c "''echo ''" 5] that by (simp add: kprint_cstr)
  have k: "kprint (cstr ?c) u = kprint ?c u" for u by (rule kprint_cstr)
  show ?thesis
    unfolding execute_command_def Let_def skip_spaces_cstr deref_cstr strcmp_cstr
    using assms by (simp add: a b c d e f g k cmd_write_cstr cmd_ping_cstr cong: if_cong)
qed

text \<open>C17: What an earlier, longer command left in the command buffer behind the terminator has no
  influence on a command, unless it is \<open>udp\<close>.\<close>

theorem execute_command_cstr:
  assumes "strncmp (skip_spaces cmd) ''udp '' 4 \<noteq> 0"
  shows "execute_command poll h (cstr cmd) s = execute_command poll h cmd s"
  using assms by (rule execute_cstr)

text \<open>An earlier, longer command leaves \<open>sr\<close> behind the NUL of \<open>cd /\<close>.\<close>

theorem execute_command_cstr_witness:
  "execute_command Some idle_board (''cd /'' @ NUL # ''sr'') blank_net = execute_command Some idle_board ''cd /'' blank_net"
  using execute_command_cstr [of "''cd /'' @ NUL # ''sr''" Some idle_board blank_net] by (simp add: skip_spaces_def)

section \<open>File commands\<close>

text \<open>The text of a file operation, and the operations that the interpreter runs for it (\<open>ls\<close> prints
  the path first).\<close>

fun op_text :: "fs_op \<Rightarrow> char list" where
  "op_text (Touch n) = ''touch '' @ n"
| "op_text (Write n d) = ''write '' @ n @ SPC # d"
| "op_text (Cat n) = ''cat '' @ n"
| "op_text (Mkdir n) = ''mkdir '' @ n"
| "op_text (Cd n) = ''cd '' @ n"
| "op_text Pwd = ''pwd''"
| "op_text Ls = ''ls''"
| "op_text (Rm n) = ''rm '' @ n"
| "op_text (Rmdir n) = ''rmdir '' @ n"

fun op_runs :: "fs_op \<Rightarrow> fs_op list" where
  "op_runs Ls = [Pwd, Ls]"
| "op_runs x = [x]"

text \<open>An argument that the interpreter can take apart again: something printable up front; the file
  name of \<open>write\<close> is one word of at most 15 characters.\<close>

definition arg_ok :: "char list \<Rightarrow> bool" where
  "arg_ok n \<longleftrightarrow> n \<noteq> [] \<and> hd n \<noteq> SPC \<and> NUL \<notin> set n"

fun op_ok :: "fs_op \<Rightarrow> bool" where
  "op_ok (Touch n) = arg_ok n" | "op_ok (Cat n) = arg_ok n" | "op_ok (Mkdir n) = arg_ok n"
| "op_ok (Cd n) = arg_ok n" | "op_ok (Rm n) = arg_ok n" | "op_ok (Rmdir n) = arg_ok n"
| "op_ok (Write n d) = (arg_ok n \<and> SPC \<notin> set n \<and> length n \<le> 15 \<and> arg_ok d)"
| "op_ok Pwd = True" | "op_ok Ls = True"

lemma arg_ok_simps:
  assumes "arg_ok n"
  shows "skip_spaces (n @ r) = n @ r" "skip_spaces n = n" "deref n \<noteq> NUL" "n \<noteq> []" "NUL \<notin> set n"
  using assms by (cases n; auto simp: arg_ok_def skip_spaces_def)+

lemma copy_word_word:
  "NUL \<notin> set w \<Longrightarrow> SPC \<notin> set w \<Longrightarrow> length w \<le> n \<Longrightarrow> deref rest \<in> {SPC, NUL} \<Longrightarrow>
    copy_word n (w @ rest) = (w, rest)"
proof (induction w arbitrary: n)
  case Nil
  then show ?case by (cases n; cases rest) auto
next
  case (Cons c w)
  then obtain m where "n = Suc m" by (cases n) auto
  then show ?case using Cons by auto
qed

lemma skip_spaces_Cons: "skip_spaces (c # p) = (if c = SPC then skip_spaces p else c # p)"
  by (simp add: skip_spaces_def)

lemma with_arg_text:
  assumes "arg_ok a" and "length w = n"
  shows "with_arg n (w @ a) u f s = f a s"
  using assms arg_ok_simps(2,3) [OF assms(1)] by (simp add: with_arg_def)

lemma cmd_write_text:
  assumes "op_ok (Write n d)"
  shows "cmd_write (op_text (Write n d)) s = fs_write_file n d s"
proof -
  have n: "arg_ok n" "SPC \<notin> set n" "length n \<le> 15" and d: "arg_ok d" using assms by simp_all
  have "copy_word 15 (n @ SPC # d) = (n, SPC # d)"
    using n arg_ok_simps(5) [OF n(1)] by (intro copy_word_word) simp_all
  moreover have "skip_spaces (SPC # d) = d"
    using arg_ok_simps(2) [OF d] by (simp add: skip_spaces_Cons)
  moreover have "fs_write_file (n @ [NUL]) d s = fs_write_file n d s"
    using fs_ops_cstr(8) [of "n @ [NUL]" d s] arg_ok_simps(5) [OF n(1)] by (simp add: cstr_append_NUL)
  ultimately show ?thesis
    using arg_ok_simps [OF n(1)] arg_ok_simps(3) [OF d] by (simp add: cmd_write_def)
qed

lemma op_text_run:
  assumes "op_ok x"
  shows "execute_command poll h (op_text x) s = fs_run (op_runs x) s"
proof (cases x)
  case (Touch n)
  then show ?thesis
    using with_arg_text [of n "''touch ''" 6] assms by (simp add: execute_command_def skip_spaces_Cons)
next
  case (Write n d)
  then show ?thesis
    using cmd_write_text [of n d s] assms by (simp add: execute_command_def skip_spaces_Cons)
next
  case (Cat n)
  then show ?thesis
    using with_arg_text [of n "''cat ''" 4] assms by (simp add: execute_command_def skip_spaces_Cons)
next
  case (Mkdir n)
  then show ?thesis
    using with_arg_text [of n "''mkdir ''" 6] assms by (simp add: execute_command_def skip_spaces_Cons)
next
  case (Cd n)
  then show ?thesis
    using with_arg_text [of n "''cd ''" 3] assms by (simp add: execute_command_def skip_spaces_Cons)
next
  case (Rm n)
  then show ?thesis
    using with_arg_text [of n "''rm ''" 3] assms by (simp add: execute_command_def skip_spaces_Cons)
next
  case (Rmdir n)
  then show ?thesis
    using with_arg_text [of n "''rmdir ''" 6] assms by (simp add: execute_command_def skip_spaces_Cons)
qed (simp_all add: execute_command_def skip_spaces_Cons split: option.split)

lemma op_text_word:
  assumes "op_ok x"
  obtains c w where "op_text x = c # w" "c \<noteq> SPC" "c \<noteq> CHR ''u''" "NUL \<notin> set (op_text x)"
  using assms by (cases x) (auto simp: arg_ok_def)

lemma skip_to_text:
  assumes "op_ok x"
  shows "skip_spaces (replicate k SPC @ op_text x @ r) = op_text x @ r"
proof -
  obtain c w where x: "op_text x = c # w" "c \<noteq> SPC" using op_text_word [OF assms] .
  then show ?thesis by (induction k) (simp_all add: skip_spaces_Cons)
qed

lemma op_text_not_udp:
  assumes "op_ok x"
  shows "strncmp (skip_spaces (replicate k SPC @ op_text x @ r)) ''udp '' 4 \<noteq> 0"
proof -
  obtain c w where x: "op_text x = c # w" "c \<noteq> CHR ''u''" using op_text_word [OF assms] .
  then show ?thesis
    unfolding skip_to_text [OF assms] using of_char_eq_iff [where 'a = int, of c "CHR ''u''"] by simp
qed

lemma op_text_run_spaces:
  assumes "op_ok x"
  shows "execute_command poll h (replicate k SPC @ op_text x) s = fs_run (op_runs x) s"
proof -
  have "execute_command poll h (replicate k SPC @ op_text x) s = execute_command poll h (op_text x) s"
    using skip_to_text [OF assms, of k "[]"] skip_to_text [OF assms, of 0 "[]"]
    by (simp add: execute_command_def)
  then show ?thesis by (simp add: op_text_run [OF assms])
qed

text \<open>The text of a file command, wherever it starts in the line and whatever is left in the buffer
  behind its end, runs exactly the operation of the file system that it names on the argument that
  was typed: \<open>touch\<close>, \<open>write\<close>, \<open>cat\<close>, \<open>mkdir\<close>, \<open>cd\<close>, \<open>pwd\<close>, \<open>ls\<close> (which prints the path first),
  \<open>rm\<close> and \<open>rmdir\<close>. The file name of \<open>write\<close> must be a word of at most 15 characters.\<close>

theorem execute_file_command:
  assumes "op_ok x"
  shows "execute_command poll h (replicate k SPC @ op_text x @ NUL # old) s = fs_run (op_runs x) s"
proof -
  let ?line = "replicate k SPC @ op_text x @ NUL # old"
  have "NUL \<notin> set (op_text x)" using op_text_word [OF assms] .
  then have c: "cstr ?line = replicate k SPC @ op_text x"
    using cstr_append_NUL [of "replicate k SPC @ op_text x" old] by simp
  have "execute_command poll h ?line s = execute_command poll h (cstr ?line) s"
    by (rule execute_cstr [OF op_text_not_udp [OF assms], symmetric])
  then show ?thesis unfolding c op_text_run_spaces [OF assms] .
qed

theorem execute_file_command_witness:
  "execute_command Some idle_board (''  mkdir src'' @ NUL # ''old'') blank_net = Some (snd (fs_mkdir ''src'' blank_net))"
  using execute_file_command [of "Mkdir ''src''" Some idle_board 2 "''old''" blank_net]
  by (simp add: arg_ok_def numeral_eq_Suc)

section \<open>The length of a UDP message\<close>

text \<open>The value of a string of decimal digits, in the 32-bit arithmetic of the code.\<close>

definition digits_value :: "char list \<Rightarrow> u32" where
  "digits_value ds = foldl (\<lambda>v c. v * 10 + (of_char c - 48)) 0 ds"

lemma scan_port_digits:
  assumes "\<forall>c\<in>set ds. isdigit_n c"
  shows "scan_port p (ds @ SPC # m) = (foldl (\<lambda>v c. v * 10 + (of_char c - 48)) p ds, SPC # m)"
  using assms by (induction ds arbitrary: p) (simp_all add: isdigit_n_def)

lemma digits_stop:
  assumes "\<forall>c\<in>set ds. isdigit_n c" and "ds \<noteq> []"
  shows "skip_spaces (SPC # ds @ r) = ds @ r"
proof -
  obtain c cs where "ds = c # cs" using assms(2) by (cases ds) auto
  moreover have "c \<noteq> SPC" using assms(1) calculation by (auto simp: isdigit_n_def)
  ultimately show ?thesis by (simp add: skip_spaces_Cons)
qed

lemma udp_packet_views:
  assumes "unat dlen \<le> 512" and "unat dlen \<le> length dat"
  shows "length (udp_packet sp dp dat dlen) = 520"
    and "ntohs (load16 (udp_packet sp dp dat dlen) 0) = sp" and "ntohs (load16 (udp_packet sp dp dat dlen) 2) = dp"
    and "ntohs (load16 (udp_packet sp dp dat dlen) 4) = UDP_HDR + dlen"
    and "take (8 + unat dlen) (udp_packet sp dp dat dlen) = take 8 (udp_packet sp dp dat dlen) @ take (unat dlen) dat"
proof -
  let ?b = "store16 6 0 (store16 4 (htons (UDP_HDR + dlen)) (store16 2 (htons dp) (store16 0 (htons sp) (replicate 520 0))))"
  have p: "udp_packet sp dp dat dlen = memcpy_n ?b 8 dat (unat dlen)" by (simp add: udp_packet_def Let_def)
  show "length (udp_packet sp dp dat dlen) = 520" by (simp add: p)
  show "ntohs (load16 (udp_packet sp dp dat dlen) 0) = sp" "ntohs (load16 (udp_packet sp dp dat dlen) 2) = dp"
    "ntohs (load16 (udp_packet sp dp dat dlen) 4) = UDP_HDR + dlen"
    using assms by (simp_all add: p packet_simps)
  show "take (8 + unat dlen) (udp_packet sp dp dat dlen) = take 8 (udp_packet sp dp dat dlen) @ take (unat dlen) dat"
    using bytes_memcpy_same [of "unat dlen" dat 8 ?b] assms by (simp add: p bytes_def take_add)
qed

lemma cmd_udp_text:
  assumes "parse_ip (ip @ [NUL]) = Some dst" and "arg_ok ip" and "SPC \<notin> set ip" and "length ip < 20" and "arg_ok msg"
    and "\<forall>c\<in>set port. isdigit_n c" and "digits_value port \<noteq> 0"
  shows "cmd_udp poll h (''udp '' @ ip @ SPC # port @ SPC # msg @ NUL # old) s =
    map_option (\<lambda>(_, s). println ''UDP packet sent'' s)
      (udp_send poll h dst 1234 (ucast (digits_value port)) (map of_char (msg @ NUL # old) @ bytes_after_cmd_buffer h)
        (20 - of_nat (length ip)) s)"
proof -
  have w: "copy_word 19 (ip @ SPC # port @ SPC # msg @ NUL # old) = (ip, SPC # port @ SPC # msg @ NUL # old)"
    using assms(2-4) by (intro copy_word_word) (simp_all add: arg_ok_def)
  have m: "skip_spaces (SPC # msg @ NUL # old) = msg @ NUL # old" "deref (msg @ NUL # old) \<noteq> NUL"
    using arg_ok_simps [OF assms(5)] by (cases msg; simp_all add: skip_spaces_Cons)+
  have "port \<noteq> []" using assms(7) by (auto simp: digits_value_def)
  note p = digits_stop [OF assms(6) this] scan_port_digits [OF assms(6), of 0 "msg @ NUL # old", folded digits_value_def]
  have "skip_spaces (ip @ SPC # port @ SPC # msg @ NUL # old) = ip @ SPC # port @ SPC # msg @ NUL # old"
    by (rule arg_ok_simps(1) [OF assms(2)])
  then show ?thesis
    using w m p assms(1,7)
    by (simp add: cmd_udp_def map_conv_bind_option comp_def split_def word_neq_0_conv)
qed

text \<open>C33: \<open>udp\<close> does not send the message. For every address, port and message of a well-formed command
  line, to a host whose hardware address is known, one frame is sent from port 1234 to the given port,
  with 20 bytes less the length of the address as payload, whatever the length of the message: a longer
  message is cut there, and a shorter one is followed by a zero byte and by the bytes of the command buffer
  (and of the memory behind it) that come after it.\<close>

theorem udp_payload_length:
  assumes line: "parse_ip (ip @ [NUL]) = Some dst" "arg_ok ip" "SPC \<notin> set ip" "length ip < 20" "arg_ok msg"
      "\<forall>c\<in>set port. isdigit_n c" "digits_value port \<noteq> 0"
    and net: "net_inv s" "net_iobase s \<noteq> 0" "dst \<noteq> 0xFFFFFFFF" "arp_lookup dst s = Some m"
    and mem: "n = 20 - length ip" "after = map of_char old @ bytes_after_cmd_buffer h" "n \<le> length msg + length after"
  shows "\<exists>t f. execute_command poll h (''udp '' @ ip @ SPC # port @ SPC # msg @ NUL # old) s = Some (println ''UDP packet sent'' t)
    \<and> f = take (42 + n) (tx_buf t ! tx_cur s)
    \<and> eth_view f = (m, net_mac s, ETH_TYPE_IP)
    \<and> ip_view (drop 14 f) = (0x45, 28 + of_nat n, 64, IP_PROTO_UDP, net_ip s, dst)
    \<and> ntohs (load16 (drop 34 f) 0) = 1234 \<and> ntohs (load16 (drop 34 f) 2) = ucast (digits_value port)
    \<and> ntohs (load16 (drop 34 f) 4) = 8 + of_nat n
    \<and> drop 42 f = (if n \<le> length msg then map of_char (take n msg)
                    else map of_char msg @ take (n - length msg) (0 # after))"
proof -
  let ?dat = "map of_char (msg @ NUL # old) @ bytes_after_cmd_buffer h :: u8 list"
  let ?n = "of_nat n :: u16"
  let ?p = "udp_packet 1234 (ucast (digits_value port)) ?dat ?n"
  have "n \<le> 20" using mem(1) by simp
  moreover from this have "unat ?n = n" by (intro unat_of_nat_small) simp
  moreover have "(20 - of_nat (length ip) :: u16) = ?n" using line(4) by (simp add: mem(1) of_nat_diff)
  ultimately have n: "unat ?n = n" "n \<le> 20" "(20 - of_nat (length ip) :: u16) = ?n" by simp_all
  have "UDP_HDR + ?n = of_nat (8 + n)" by (simp add: UDP_HDR_def)
  then have l: "unat (UDP_HDR + ?n) = 8 + n" using n(2) by (simp only:) (intro unat_of_nat_small, simp)
  have dat: "n \<le> length ?dat" using mem(2,3) by simp
  note V = udp_packet_views [of ?n ?dat 1234 "ucast (digits_value port)", unfolded n(1)]
  obtain t f where t: "ip_send poll h dst IP_PROTO_UDP ?p (UDP_HDR + ?n) s = Some (0, t)"
      "f = take (34 + (8 + n)) (tx_buf t ! tx_cur s)" "eth_view f = (m, net_mac s, ETH_TYPE_IP)"
      "ip_view (drop 14 f) = (0x45, 20 + (UDP_HDR + ?n), 64, IP_PROTO_UDP, net_ip s, dst)"
      "drop 34 f = take (8 + n) ?p"
  proof -
    have "unat (UDP_HDR + ?n) \<le> 1466" "unat (UDP_HDR + ?n) \<le> length ?p" using n(2) V(1) dat by (simp_all add: l)
    from ip_send_delivers_fact [OF net this, of poll h IP_PROTO_UDP] that show thesis unfolding l by blast
  qed
  have "execute_command poll h (''udp '' @ ip @ SPC # port @ SPC # msg @ NUL # old) s
      = cmd_udp poll h (''udp '' @ ip @ SPC # port @ SPC # msg @ NUL # old) s"
    by (simp add: execute_command_def skip_spaces_Cons)
  also have "\<dots> = Some (println ''UDP packet sent'' t)"
    unfolding cmd_udp_text [OF line] n(3) udp_send_def using n(2) t(1)
    by (simp add: word_less_nat_alt n(1))
  finally have run: "execute_command poll h (''udp '' @ ip @ SPC # port @ SPC # msg @ NUL # old) s
      = Some (println ''UDP packet sent'' t)" .
  have "load16 (drop 34 f) k = load16 ?p k" if "k \<le> 4" for k
    using that V(1) n(2) dat by (simp add: t(5) load16_def)
  then have hdr: "ntohs (load16 (drop 34 f) 0) = 1234" "ntohs (load16 (drop 34 f) 2) = ucast (digits_value port)"
      "ntohs (load16 (drop 34 f) 4) = 8 + ?n"
    using V(2,3,4) n(2) dat by (simp_all add: UDP_HDR_def)
  have "drop 42 f = drop 8 (drop 34 f)" by simp
  also have "\<dots> = take n ?dat" using V(1,5) n(2) dat by (simp add: t(5))
  also have "take n ?dat = (if n \<le> length msg then map of_char (take n msg)
      else map of_char msg @ take (n - length msg) (0 # after))"
    by (simp add: mem(2) take_map)
  finally have payload: "drop 42 f = (if n \<le> length msg then map of_char (take n msg)
      else map of_char msg @ take (n - length msg) (0 # after))" .
  have "f = take (42 + n) (tx_buf t ! tx_cur s)" using t(2) by simp
  moreover have "ip_view (drop 14 f) = (0x45, 28 + ?n, 64, IP_PROTO_UDP, net_ip s, dst)" using t(4) by (simp add: UDP_HDR_def)
  ultimately show ?thesis using run t(3) hdr payload by blast
qed

theorem udp_payload_length_witness:
  "\<exists>t. execute_command Some idle_board (''udp '' @ ''10.0.2.2'' @ SPC # ''53'' @ SPC # ''hi'' @ NUL # ''old'') host_a
      = Some (println ''UDP packet sent'' t)
    \<and> drop 42 (take 54 (tx_buf t ! tx_cur host_a)) = [104, 105, 0, 111, 108, 100, 0, 0, 0, 0, 0, 0]"
proof -
  let ?after = "map of_char ''old'' @ bytes_after_cmd_buffer idle_board :: u8 list"
  have p: "parse_ip (''10.0.2.2'' @ [NUL]) = Some (MAKE_IP 10 0 2 2)"
    by (simp add: parse_ip_def isdigit_n_def MAKE_IP_def)
  have l: "length (''10.0.2.2'') < 20" "arg_ok ''10.0.2.2''" "arg_ok ''hi''" "SPC \<notin> set ''10.0.2.2''"
      "\<forall>c\<in>set ''53''. isdigit_n c" "digits_value ''53'' \<noteq> 0"
    by (simp_all add: arg_ok_def isdigit_n_def digits_value_def)
  have a: "(12 :: nat) = 20 - length ''10.0.2.2''" "12 \<le> length ''hi'' + length ?after" by (simp_all add: idle_board_def)
  have z: "take (12 - length ''hi'') (0 # ?after) = [0, 111, 108, 100, 0, 0, 0, 0, 0, 0]"
    by (simp add: idle_board_def numeral_eq_Suc)
  show ?thesis
    using udp_payload_length [OF p l(2,4,1,3,5,6), of host_a mac_b 12, OF _ _ _ _ a(1) refl a(2), of Some] z by auto
qed

end
