(* ===== verification/Typing.thy ===== *)
theory Typing
  imports Editor Shell_Spec
begin

text \<open>
  From keys to commands: a line that is typed and entered runs as a command, and while it is
  being typed the screen shows it in front of the cursor.
\<close>

section \<open>Typing a command\<close>

primrec press_keys :: "('a terminal_scheme \<Rightarrow> 'a terminal_scheme option) \<Rightarrow> hw \<Rightarrow> u8 list \<Rightarrow> 'a terminal_scheme
    \<Rightarrow> 'a terminal_scheme option" where
  "press_keys poll h [] s = Some s"
| "press_keys poll h (k # ks) s = do { s \<leftarrow> on_key poll h k s; press_keys poll h ks s }"

text \<open>The keys of a letter, a digit or a sign without modifiers, and their characters.\<close>

definition typed :: "u8 \<Rightarrow> char" where
  "typed k = keyboard_map ! unat k"

definition letter_key :: "u8 \<Rightarrow> bool" where
  "letter_key k \<longleftrightarrow> k < 128 \<and> plain [typed k]"

definition no_modifier :: "'a terminal_scheme \<Rightarrow> bool" where
  "no_modifier s \<longleftrightarrow> \<not> shift_pressed s \<and> \<not> ctrl_pressed s \<and> \<not> e0_pressed s"

lemma letter_key_cases:
  assumes "letter_key k"
  shows "k \<notin> {0xE0, 0x1D, 0x9D, 0x2A, 0x36, 0xAA, 0xB6}" "k AND 0x80 = 0"
proof -
  have "typed 0x1D = NUL" "typed 0x2A = NUL" "typed 0x36 = NUL"
    by (simp_all add: typed_def keyboard_map_def)
  then show "k \<notin> {0xE0, 0x1D, 0x9D, 0x2A, 0x36, 0xAA, 0xB6}"
    using assms by (auto simp: letter_key_def plain_def)
  have "\<not> 128 \<le> k" using assms by (simp add: letter_key_def not_le)
  then show "k AND 0x80 = 0" using release_bit [of k] by blast
qed

lemma plain_single: "plain [c] \<longleftrightarrow> c \<noteq> NUL \<and> c \<noteq> NL \<and> c \<noteq> BS"
  by (auto simp: plain_def)

lemma on_letter_key:
  assumes "letter_key k" and "no_modifier s"
  shows "on_key poll h k s = Some (key_char (typed k) s)"
  using letter_key_cases [OF assms(1)] assms
  by (simp add: on_key_def no_modifier_def letter_key_def plain_single typed_def Let_def)

text \<open>What typing keeps: everything but the console, the line and its length.\<close>

definition line_others :: "'a terminal_scheme \<Rightarrow> 'a terminal_scheme" where
  "line_others s = s\<lparr>io := [], mem := (\<lambda>_. 0), current_loc := 0, cmd_buffer := [], cmd_len := 0\<rparr>"

lemma line_others_kprint [simp]: "line_others (kprint m s) = line_others s"
  by (rule kp.unaffected) (simp add: line_others_def)

lemma line_others_key_char: "line_others (key_char c s) = line_others s"
proof -
  have "line_others (s\<lparr>cmd_buffer := b, cmd_len := n\<rparr>) = line_others s" for b n
    by (simp add: line_others_def)
  then show ?thesis by (simp add: key_char_def)
qed

lemma no_modifier_key_char: "no_modifier (key_char c s) = no_modifier s"
  by (simp add: no_modifier_def key_char_def)

lemma no_modifier_fold: "no_modifier (fold key_char cs s) = no_modifier s"
  by (induction cs arbitrary: s) (simp_all add: no_modifier_key_char)

lemma press_letters:
  assumes "\<forall>k\<in>set ks. letter_key k" and "no_modifier s"
  shows "press_keys poll h ks s = Some (fold key_char (map typed ks) s)"
  using assms
proof (induction ks arbitrary: s)
  case (Cons k ks)
  then show ?case by (simp add: on_letter_key no_modifier_key_char)
qed simp

lemma fold_key_char_others: "line_others (fold key_char cs s) = line_others s"
  by (induction cs arbitrary: s) (simp_all add: line_others_key_char)

lemma fold_key_char_inv:
  assumes "kbd_inv s" and "plain cs"
  shows "kbd_inv (fold key_char cs s)"
  using assms
proof (induction cs arbitrary: s)
  case (Cons c cs)
  then have "plain [c]" "plain cs" by (simp_all add: plain_def)
  then show ?case using Cons key_char_implements [of s c] by (simp add: implements_def)
qed simp

lemma on_enter_key:
  assumes "no_modifier s"
  shows "on_key poll h 0x1C s = key_enter poll h s"
  using assms by (simp add: on_key_def no_modifier_def keyboard_map_def)

lemma kprint_net [simp]:
  "arp_cache (kprint m s) = arp_cache s" "net_ip (kprint m s) = net_ip s" "net_mac (kprint m s) = net_mac s"
  by (rule kp.unaffected; simp)+

lemma entered_others:
  "fs_table (entered s) = fs_table s" "fs_cwd (entered s) = fs_cwd s" "arp_cache (entered s) = arp_cache s"
  "net_ip (entered s) = net_ip s" "net_mac (entered s) = net_mac s"
  by (simp_all add: entered_def history_push_def Let_def)

lemma line_others_fs:
  assumes "line_others t = line_others s"
  shows "fs_table t = fs_table s" "fs_cwd t = fs_cwd s" "hist_of t = hist_of s" "arp_cache t = arp_cache s"
proof -
  have o: "g t = g s" if "\<And>u. g (line_others u) = g u" for g
    using assms that by metis
  show "fs_table t = fs_table s" "fs_cwd t = fs_cwd s" "hist_of t = hist_of s" "arp_cache t = arp_cache s"
    by (rule o; simp add: line_others_def hist_of_def)+
qed

text \<open>A line typed at an empty prompt and entered is executed as the command it spells, is remembered
  in the history, and has touched nothing but the terminal before that.\<close>

lemma typed_line_runs:
  fixes s :: "'a terminal_scheme"
  assumes "kbd_inv s" and "line_of s = []" and "no_modifier s"
    and "\<forall>k\<in>set ks. letter_key k" and "length ks \<le> 255"
    and "strncmp (skip_spaces (map typed ks)) ''udp '' 4 \<noteq> 0"
  shows "\<exists>u. press_keys poll h (ks @ [0x1C]) s =
      map_option (\<lambda>t. kprint ''OS> '' (t\<lparr>cmd_len := 0\<rparr>)) (execute_command poll h (map typed ks) u)
    \<and> fs_table u = fs_table s \<and> fs_cwd u = fs_cwd s \<and> arp_cache u = arp_cache s
    \<and> (ks \<noteq> [] \<longrightarrow> hist_of u = remember (map typed ks) (hist_of s))"
proof -
  let ?cs = "map typed ks" and ?v = "fold key_char (map typed ks) s"
  have p: "plain ?cs" using assms(4) by (auto simp: plain_def letter_key_def)
  note d = kbd_invD [OF assms(1)]
  have l: "line_of ?v = ?cs"
    using fold_key_char_spec [OF d(1,2), of ?cs] assms(2,5) by simp
  have i: "kbd_inv ?v" by (rule fold_key_char_inv [OF assms(1) p])
  note e = entered_spec [OF i]
  have m: "no_modifier ?v" using assms(3) by (simp add: no_modifier_fold)
  have "press_keys poll h (ks @ [0x1C]) s = (press_keys poll h ks s \<bind> press_keys poll h [0x1C])"
    by (induction ks arbitrary: s) (auto simp: bind_assoc split: Option.bind_splits)
  also have "\<dots> = key_enter poll h ?v"
    using press_letters [OF assms(4,3)] on_enter_key [OF m] by (simp add: comp_def)
  also have "\<dots> = map_option (\<lambda>t. kprint ''OS> '' (t\<lparr>cmd_len := 0\<rparr>)) (execute_command poll h ?cs (entered ?v))"
  proof -
    have c: "cstr (cmd_buffer (entered ?v)) = ?cs" using e(1) l by simp
    have "execute_command poll h (cmd_buffer (entered ?v)) (entered ?v) = execute_command poll h ?cs (entered ?v)"
      using execute_cstr [of "cmd_buffer (entered ?v)" poll h "entered ?v"] assms(6) skip_spaces_cstr [of "cmd_buffer (entered ?v)"]
      by (simp add: c)
    then show ?thesis by (simp add: key_enter_entered)
  qed
  finally have r: "press_keys poll h (ks @ [0x1C]) s = \<dots>" .
  have "hist_of (entered ?v) = remember ?cs (hist_of s)" if "ks \<noteq> []"
  proof -
    have "hist_of (entered ?v) = ed_hist (editor_of ((entered ?v)\<lparr>cmd_len := 0\<rparr>))"
      by (simp add: hist_of_def)
    also have "\<dots> = remember ?cs (hist_of ?v)"
      unfolding e(3) using l that by (simp add: Let_def)
    finally show ?thesis using line_others_fs(3) [OF fold_key_char_others [of ?cs s]] by simp
  qed
  then show ?thesis
    using r line_others_fs [OF fold_key_char_others [of ?cs s]]
    by (intro exI [of _ "entered ?v"]) (simp add: entered_others)
qed

text \<open>C2: From the keys to the file system: typing the text of a file command at the prompt and pressing
  Enter runs exactly the operation of the file system that the line names, on the files as they
  were; afterwards the prompt is empty again and the line is the latest of the history.\<close>

theorem typed_file_command:
  fixes s :: "'a terminal_scheme"
  assumes "kbd_inv s" and "line_of s = []" and "no_modifier s"
    and "\<forall>k\<in>set ks. letter_key k" and "length ks \<le> 255"
    and "map typed ks = replicate n SPC @ op_text x" and "op_ok x"
  shows "\<exists>u. press_keys poll h (ks @ [0x1C]) s =
      map_option (\<lambda>t. kprint ''OS> '' (t\<lparr>cmd_len := 0\<rparr>)) (fs_run (op_runs x) u)
    \<and> fs_table u = fs_table s \<and> fs_cwd u = fs_cwd s
    \<and> hist_of u = remember (map typed ks) (hist_of s)"
proof -
  have "ks \<noteq> []" using assms(6) op_text_word [OF assms(7)] by (metis Nil_is_append_conv list.distinct(1) list.simps(8))
  moreover have "strncmp (skip_spaces (map typed ks)) ''udp '' 4 \<noteq> 0"
    unfolding assms(6) by (rule op_text_not_udp [OF assms(7), of n "[]", simplified])
  moreover have "execute_command poll h (map typed ks) u = fs_run (op_runs x) u" for u
    using op_text_run_spaces [OF assms(7)] by (simp add: assms(6))
  ultimately show ?thesis using typed_line_runs [OF assms(1-5), of poll h] by auto
qed

theorem typed_file_command_witness:
  "\<exists>u. press_keys Some idle_board [0x26, 0x1F, 0x1C] blank_terminal =
      map_option (\<lambda>t. kprint ''OS> '' (t\<lparr>cmd_len := 0\<rparr>)) (fs_run [Pwd, Ls] u)
    \<and> fs_table u = fs_table blank_terminal \<and> hist_of u = [''ls'']"
proof -
  have "map typed [0x26, 0x1F] = ''ls''" by (simp add: typed_def keyboard_map_def)
  moreover have "\<forall>k\<in>set [0x26, 0x1F]. letter_key k"
    by (simp add: letter_key_def plain_def typed_def keyboard_map_def)
  moreover have "no_modifier blank_terminal" by (simp add: no_modifier_def blank_terminal_fields)
  ultimately show ?thesis
    using typed_file_command [of blank_terminal "[0x26, 0x1F]" 0 Ls Some idle_board]
    by (auto simp: remember_def)
qed

section \<open>What the screen shows\<close>

text \<open>The byte \<open>k\<close> places in front of the cursor, and the cells in front of it spelling the line.\<close>

definition behind :: "u32 \<Rightarrow> nat \<Rightarrow> u32" where
  "behind l k = vidptr + (l - of_nat k)"

definition shown :: "'a terminal_scheme \<Rightarrow> bool" where
  "shown s \<longleftrightarrow> 2 * cmd_len s \<le> unat (current_loc s)
     \<and> (\<forall>i<cmd_len s. mem s (behind (current_loc s) (2 * (cmd_len s - i))) = of_char (cmd_buffer s ! i))"

lemma shown_empty: "cmd_len s = 0 \<Longrightarrow> shown s"
  by (simp add: shown_def)

lemma behind_eq:
  assumes "m \<le> 512" and "n \<le> 512"
  shows "behind l m = behind l n \<longleftrightarrow> m = n"
proof -
  have u: "unat (of_nat m :: u32) = m" "unat (of_nat n :: u32) = n"
    using assms by (simp_all add: unat_of_nat_small)
  have "of_nat k = l - (l - of_nat k)" for k by simp
  then have "behind l m = behind l n \<longleftrightarrow> of_nat m = (of_nat n :: u32)"
    unfolding behind_def add_left_cancel by metis
  then show ?thesis using u by metis
qed

lemma behind_shift:
  "behind (l - 2) k = behind l (k + 2)" "behind (l + 2) (k + 2) = behind l k"
  "behind (l + 2) (Suc (Suc k)) = behind l k"
  by (simp_all add: behind_def algebra_simps)

lemma behind_at:
  "behind l 2 = vidptr + (l - 2)" "behind l (Suc 0) = vidptr + (l - 1)"
  "behind (l + 2) 2 = vidptr + l" "behind (l + 2) (Suc 0) = vidptr + (l + 1)"
  by (simp_all add: behind_def)

lemma shown_erase:
  assumes "shown s" and "0 < cmd_len s" and "cmd_len s \<le> 255"
  shows "shown (erase_cell (s\<lparr>cmd_len := cmd_len s - 1\<rparr>))"
proof -
  let ?l = "current_loc s"
  obtain n where n: "cmd_len s = Suc n" using assms(2) by (cases "cmd_len s") auto
  have two: "2 \<le> ?l" using assms(1) n by (simp add: shown_def word_le_nat_alt)
  then have u: "unat (?l - 2) = unat ?l - 2" by (simp add: unat_sub)
  have c: "behind ?l (2 * (n - i) + 2) \<noteq> behind ?l 2" "behind ?l (2 * (n - i) + 2) \<noteq> behind ?l 1" if "i < n" for i
    using that assms(3) n by (simp_all add: behind_eq)
  have m: "mem s (behind ?l (2 * (n - i) + 2)) = of_char (cmd_buffer s ! i)" if "i < n" for i
    using assms(1) that n by (simp add: shown_def Suc_diff_le)
  have e: "erase_cell (s\<lparr>cmd_len := n\<rparr>) = s\<lparr>cmd_len := n, current_loc := ?l - 2,
      mem := (mem s)(behind ?l 2 := 0x20, behind ?l 1 := 0x07)\<rparr>"
    using two by (simp add: erase_cell_def Let_def poke_def behind_at(1,2))
  have "2 * n \<le> unat ?l - 2" using assms(1) n unfolding shown_def by linarith
  then show ?thesis
    unfolding n diff_Suc_1 e using u c m n by (simp add: shown_def behind_shift(1))
qed

lemma kputc_visible:
  assumes "plain [c]"
  shows "kprint [c, NUL] s = s\<lparr>io := Out 0x3F8 (of_char c) # io s, current_loc := current_loc s + 2,
     mem := (mem s)(behind (current_loc s + 2) 2 := of_char c, behind (current_loc s + 2) 1 := 0x07)\<rparr>"
proof -
  have "c \<noteq> NUL" "c \<noteq> NL" "c \<noteq> BS" using assms by (simp_all add: plain_single)
  moreover have "current_loc s + 1 + 1 = current_loc s + 2" by simp
  ultimately show ?thesis
    by (simp add: kprint.simps kputc_def Let_def poke_def write_port_def behind_at(3,4))
qed

lemma shown_key_char:
  assumes "shown s" and "plain [c]" and "length (cmd_buffer s) = 256" and "unat (current_loc s) + 2 < 2 ^ 32"
  shows "shown (key_char c s)"
proof (cases "cmd_len s < 255")
  case True
  let ?l = "current_loc s" and ?n = "cmd_len s"
  have u: "unat (?l + 2) = unat ?l + 2"
    using assms(4) unat_plus_small [of ?l 2] by simp
  have c: "behind (?l + 2) (2 * (?n - i) + 2) \<noteq> behind (?l + 2) 2" "behind (?l + 2) (2 * (?n - i) + 2) \<noteq> behind (?l + 2) 1"
    if "i < ?n" for i using that True by (simp_all add: behind_eq)
  have e: "key_char c s = s\<lparr>cmd_buffer := (cmd_buffer s)[?n := c], cmd_len := ?n + 1,
      io := Out 0x3F8 (of_char c) # io s, current_loc := ?l + 2,
      mem := (mem s)(behind (?l + 2) 2 := of_char c, behind (?l + 2) 1 := 0x07)\<rparr>"
    using True by (simp add: key_char_def CMD_BUFFER_SIZE_def kputc_visible [OF assms(2)])
  have "mem (key_char c s) (behind (?l + 2) (2 * (?n + 1 - i))) = of_char ((cmd_buffer s)[?n := c] ! i)" if "i < ?n + 1" for i
  proof (cases "i = ?n")
    case True
    then show ?thesis using assms(3) \<open>?n < 255\<close> by (simp add: e behind_eq)
  next
    case False
    then have i: "i < ?n" using that by simp
    have b: "2 * (?n + 1 - i) = 2 * (?n - i) + 2" using i by simp
    show ?thesis
      unfolding b e using assms(1) i c [OF i] by (simp add: shown_def behind_shift(3))
  qed
  then show ?thesis using assms(1) u by (simp add: shown_def e)
qed (use assms in \<open>simp add: key_char_def CMD_BUFFER_SIZE_def\<close>)

lemma shown_cong:
  assumes "mem t = mem s" "current_loc t = current_loc s" "cmd_len t = cmd_len s" "cmd_buffer t = cmd_buffer s"
  shows "shown t = shown s"
  using assms by (simp add: shown_def)

lemma current_loc_erase: "unat (current_loc (erase_cell s)) \<le> unat (current_loc s)"
  by (auto simp: erase_cell_def Let_def unat_sub word_le_nat_alt)

lemma clear_loc: "unat (current_loc (cmd_clear_display s)) \<le> unat (current_loc s)"
proof (induction s rule: cmd_clear_display.induct)
  case (1 s)
  show ?case
  proof (cases "0 < cmd_len s")
    case True
    let ?t = "erase_cell (s\<lparr>cmd_len := cmd_len s - 1\<rparr>)"
    have "cmd_clear_display s = cmd_clear_display ?t" using True by (subst cmd_clear_display.simps) simp
    then show ?thesis using "1.IH" [OF True] current_loc_erase [of "s\<lparr>cmd_len := cmd_len s - 1\<rparr>"] by simp
  qed (simp add: cmd_clear_display.simps [of s])
qed

lemma current_loc_key_char:
  assumes "plain [c]" and "unat (current_loc s) + 2 < 2 ^ 32"
  shows "unat (current_loc (key_char c s)) \<le> unat (current_loc s) + 2"
  using unat_plus_small [of "current_loc s" 2] assms(2) by (simp add: key_char_def kputc_visible [OF assms(1)])

lemma shown_fold_key_char:
  assumes "shown s" and "plain cs" and "length (cmd_buffer s) = 256" and "cmd_len s \<le> 255"
    and "unat (current_loc s) + 2 * length cs < 2 ^ 32"
  shows "shown (fold key_char cs s)"
  using assms
proof (induction cs arbitrary: s)
  case (Cons c cs)
  then have p: "plain [c]" "plain cs" and l: "unat (current_loc s) + 2 < 2 ^ 32" by (simp_all add: plain_def)
  have "shown (key_char c s)" by (rule shown_key_char [OF Cons.prems(1) p(1) Cons.prems(3) l])
  moreover have "unat (current_loc (key_char c s)) + 2 * length cs < 2 ^ 32"
    using current_loc_key_char [OF p(1) l] Cons.prems(5) by simp
  ultimately show ?case
    using Cons.IH [of "key_char c s"] key_char_spec(2,3) [OF Cons.prems(3,4), of c] p(2) by simp
qed simp

lemma shown_cmd_set:
  assumes "length (cmd_buffer s) = 256" and "row_ok row \<or> row = []" and "unat (current_loc s) + 512 < 2 ^ 32"
  shows "shown (cmd_set row s)"
proof -
  have "length (cstr row) < 256" "plain (cstr row)"
    using assms(2) row_ok_short by (auto simp: row_ok_def)
  then show ?thesis
    unfolding cmd_set_def cmd_set_loop_key_char
    using clear_spec [of s] clear_loc [of s] assms(1,3)
    by (intro shown_fold_key_char shown_empty) auto
qed

lemma shown_history:
  assumes "kbd_inv s" and "shown s" and "unat (current_loc s) + 512 < 2 ^ 32"
  shows "shown (history_up s)" "shown (history_down s)"
proof -
  have r: "row_ok (history s ! i)" if "i < history_count s" for i by (rule kbd_inv_row [OF assms(1) that])
  note d = kbd_invD [OF assms(1)]
  have c: "shown (cmd_set row (s\<lparr>history_index := i\<rparr>))" if "row_ok row \<or> row = []" for row i
    using d(1) that assms(3) by (intro shown_cmd_set) simp_all
  show "shown (history_up s)"
    using assms(2) d(6) c r by (simp add: history_up_def Let_def)
  show "shown (history_down s)"
    using assms(2) d(6) c r by (simp add: history_down_def Let_def less_diff_conv)
qed

lemma shown_erase_while:
  assumes "shown s" and "cmd_len s \<le> 255"
  shows "shown (erase_while P s)"
  using assms
proof (induction P s rule: erase_while.induct)
  case (1 P s)
  show ?case
  proof (cases "0 < cmd_len s \<and> P (cmd_buffer s ! (cmd_len s - 1))")
    case True
    let ?t = "erase_cell (s\<lparr>cmd_len := cmd_len s - 1\<rparr>)"
    have "erase_while P s = erase_while P ?t" using True by (subst erase_while.simps) simp
    moreover have "shown ?t" "cmd_len ?t \<le> 255"
      using shown_erase [OF "1.prems"(1) _ "1.prems"(2)] True "1.prems"(2) by auto
    ultimately show ?thesis using "1.IH" [OF True] by simp
  next
    case False
    then have "erase_while P s = s" by (subst erase_while.simps) auto
    then show ?thesis using "1.prems" by simp
  qed
qed

lemma shown_backspace:
  assumes "kbd_inv s" and "shown s"
  shows "shown (backspace_word s)" "shown (key_backspace s)"
proof -
  note d = kbd_invD [OF assms(1)]
  have "cmd_len (erase_while (\<lambda>c. c = SPC) s) \<le> cmd_len s"
    using erase_while_spec [of s "\<lambda>c. c = SPC"] d(1,2) by simp
  then show "shown (backspace_word s)"
    unfolding backspace_word_def using d(2) assms(2) by (intro shown_erase_while) auto
  show "shown (key_backspace s)"
    using shown_erase [OF assms(2) _ d(2)] assms(2) by (simp add: key_backspace_def)
qed

lemma if_cond_SomeE:
  assumes "(if b then x else y) = Some t"
  obtains "b" "x = Some t" | "\<not> b" "y = Some t"
  using assms by (cases b) auto

context terminal_poller
begin

lemma shown_key_enter: "key_enter poll h s = Some t \<Longrightarrow> shown t"
  by (rule shown_empty) (auto simp: key_enter_entered)

lemma shown_on_key:
  assumes "on_key poll h k s = Some t" and "kbd_inv s" and "shown s" and "unat (current_loc s) + 512 < 2 ^ 32"
  shows "shown t"
proof -
  have c: "shown (s\<lparr>e0_pressed := b\<rparr>) = shown s" "shown (s\<lparr>ctrl_pressed := b\<rparr>) = shown s"
      "shown (s\<lparr>shift_pressed := b\<rparr>) = shown s" for b
    by (rule shown_cong; simp)+
  have i: "kbd_inv (s\<lparr>e0_pressed := False\<rparr>)"
    using implements_flags(1) [OF assms(2)] by (simp add: implements_def)
  note h = shown_history [OF i] shown_history [OF assms(2-4)] shown_backspace [OF assms(2,3)]
  have p: "shown (key_char x s)" if "x \<noteq> NUL" "x \<noteq> NL" "x \<noteq> BS" for x
    using that assms(4) kbd_invD(1) [OF assms(2)] by (intro shown_key_char [OF assms(3)]) (simp_all add: plain_single)
  show ?thesis
    using assms(1) unfolding on_key_def Let_def
    by (elim if_cond_SomeE) (use assms(3,4) c h p shown_key_enter in auto)
qed

end

text \<open>C12: What you see is what will run: if the cells in front of the cursor spell the line being edited
  before a keyboard interrupt, they do so after it, whatever key was pressed (inserting, erasing a
  character or a word, recalling an older or a newer line, entering). The bound excludes a wrap
  of the 32-bit cursor.\<close>

theorem line_is_shown:
  assumes "keyboard_handler_main (net_poll h fuel) h s = Some t" and "kbd_inv s" and "shown s"
    and "unat (current_loc s) + 512 < 2 ^ 32"
  shows "shown t"
proof -
  have l: "current_loc (snd (read_port h p u)) = current_loc u" "current_loc (write_port p d u) = current_loc u"
      "mem (snd (read_port h p u)) = mem u" "mem (write_port p d u) = mem u" for p d and u :: "'a terminal_scheme"
    by (simp_all add: read_port_def write_port_def Let_def)
  have "shown (snd (read_port h p u)) = shown u" "shown (write_port p d u) = shown u"
    for p d and u :: "'a terminal_scheme"
    by (rule shown_cong; simp add: read_port_def write_port_def Let_def)+
  note c = this l
  show ?thesis
  proof (cases "key_event h (io s)")
    case None
    then have "t = snd (read_port h 0x64 (write_port 0x20 0x20 s))" using assms(1) by (simp add: handler_cases)
    then show ?thesis using assms(3) c by simp
  next
    case (Some k)
    let ?u = "snd (read_port h 0x60 (snd (read_port h 0x64 (write_port 0x20 0x20 s))))"
    have "on_key (net_poll h fuel) h k ?u = Some t" using assms(1) Some by (simp add: handler_cases)
    then show ?thesis
      by (rule tp.shown_on_key) (use assms c in \<open>simp_all add: kbd_ports\<close>)
  qed
qed

theorem line_is_shown_witness:
  "\<exists>t. keyboard_handler_main (net_poll (key_board 0x1E) 1) (key_board 0x1E) blank_terminal = Some t \<and> shown t"
proof -
  have "fs_inv blank_terminal" by (rule blank_terminal_safe(1))
  moreover have "polls_enough (key_board 0x1E) 0 1 blank_terminal"
    by (rule key_board_quiet)
  ultimately obtain t where t: "keyboard_handler_main (net_poll (key_board 0x1E) 1) (key_board 0x1E) blank_terminal = Some t"
    using tr.keyboard_handler_returns by blast
  have "shown blank_terminal" by (rule shown_empty) (simp add: blank_terminal_fields)
  moreover have "current_loc blank_terminal = 0" by (rule blank_terminal_loc)
  ultimately show ?thesis using line_is_shown [OF t] t by simp
qed

end
