(* ===== verification/System.thy ===== *)
theory System
  imports Boot Typing
begin

text \<open>
  The whole kernel as a state machine. A configuration is the number of calls of \<open>kmain\<close> that are
  done, what is left of the current call, and the globals; a step is the next statement of \<open>kmain\<close> or, once
  \<open>idt_init\<close> has enabled interrupts, a timer, keyboard or mouse interrupt, between any two statements.
  The gates are interrupt gates, so a handler runs to its end with interrupts disabled. A flag
  records whether a keyboard interrupt has been taken while \<open>fs_init\<close> was running.
\<close>

section \<open>Start-up\<close>

text \<open>The globals as the C program and \<open>start.asm\<close> start with them; memory and the control registers
  are as the boot loader left them.\<close>

definition start :: "(u32 \<Rightarrow> u8) \<Rightarrow> u32 \<Rightarrow> u32 \<Rightarrow> kernel" where
  "start m c0 c3 = with_kernel_globals (with_device_globals (with_keyboard_globals (with_net_globals
     \<lparr>io = [Out 0x3F8 (of_char CHR ''X'')], mem = m, current_loc = 0, free_mem_start = 0x400000, system_max_mem = 0,
      page_directory = replicate 1024 0, first_page_table = replicate 1024 0, cr0 = c0, cr3 = c3,
      swap_storage = replicate 256 \<lparr>virt_addr = 0, data = replicate 4096 0, used = False\<rparr>,
      fs_table = replicate 32 \<lparr>e_name = replicate 17 NUL, e_content = replicate 256 NUL,
                    e_size = 0, e_type = FS_TYPE_NONE, e_parent = 0\<rparr>, fs_cwd = 0\<rparr>)))"

definition call :: "hw \<Rightarrow> nat \<Rightarrow> (kernel, unit) prog" where
  "call h pc = (if pc < length (kmain_calls h) then kmain_calls h ! pc else Return ())"

text \<open>Where the control is when \<open>p\<close> is left of call number \<open>pc\<close>: at the next call when nothing is left.\<close>

fun goto :: "hw \<Rightarrow> nat \<Rightarrow> (kernel, unit) prog \<Rightarrow> nat \<times> (kernel, unit) prog" where
  "goto h pc (Return u) = (Suc pc, call h (Suc pc))"
| "goto h pc (Stmt f k) = (pc, Stmt f k)"

type_synonym conf = "nat \<times> (kernel, unit) prog \<times> bool \<times> kernel"

inductive kmain_step :: "hw \<Rightarrow> conf \<Rightarrow> conf \<Rightarrow> bool" for h where
  "goto h pc (k s) = (pc', p') \<Longrightarrow> kmain_step h (pc, Stmt f k, calm, s) (pc', p', calm, f s)"

inductive interrupt :: "hw \<Rightarrow> nat \<Rightarrow> conf \<Rightarrow> conf \<Rightarrow> bool" for h fuel where
  timer: "interrupts s \<Longrightarrow> interrupt h fuel (pc, p, calm, s) (pc, p, calm, timer_handler_main s)"
| keyboard: "interrupts s \<Longrightarrow> keyboard_handler_main (net_poll h fuel) h s = Some t \<Longrightarrow>
    interrupt h fuel (pc, p, calm, s) (pc, p, calm \<and> pc \<noteq> 11, t)"
| mouse: "interrupts s \<Longrightarrow> interrupt h fuel (pc, p, calm, s) (pc, p, calm, mouse_handler_main h s)"

definition kernel_step :: "hw \<Rightarrow> nat \<Rightarrow> conf \<Rightarrow> conf \<Rightarrow> bool" where
  "kernel_step h fuel a b \<longleftrightarrow> kmain_step h a b \<or> interrupt h fuel a b"

definition booting :: "hw \<Rightarrow> (u32 \<Rightarrow> u8) \<Rightarrow> u32 \<Rightarrow> u32 \<Rightarrow> conf" where
  "booting h m c0 c3 = (0, call h 0, True, start m c0 c3)"

inductive reachable :: "hw \<Rightarrow> nat \<Rightarrow> conf \<Rightarrow> bool" for h fuel where
  init: "reachable h fuel (booting h m c0 c3)"
| step: "reachable h fuel a \<Longrightarrow> kernel_step h fuel a b \<Longrightarrow> reachable h fuel b"

inductive_cases kmain_stepE: "kmain_step h (pc, p, calm, s) b"
inductive_cases interruptE: "interrupt h fuel (pc, p, calm, s) b"
inductive_simps kmain_step_simps: "kmain_step h (pc, p, calm, s) b"
inductive_simps interrupt_simps: "interrupt h fuel (pc, p, calm, s) b"

section \<open>The invariant\<close>

text \<open>The first 4 MB are mapped to themselves, and nothing else is mapped.\<close>

definition paged :: "hw \<Rightarrow> 'a paging_scheme \<Rightarrow> bool" where
  "paged h s \<longleftrightarrow> paging_inv h s
     \<and> first_page_table s = map (\<lambda>i. (of_nat i * PAGE_SIZE) OR PAGE_PRESENT OR PAGE_RW) [0..<1024]"

text \<open>What holds of the globals when the start-up has (or has not yet) set up paging, interrupts and
  the file system, and the ARP cache is in order up to entry \<open>n\<close>.\<close>

definition system_inv :: "hw \<Rightarrow> nat \<Rightarrow> bool \<Rightarrow> bool \<Rightarrow> bool \<Rightarrow> kernel \<Rightarrow> bool" where
  "system_inv h n mapped intr files s \<longleftrightarrow>
     kbd_inv s \<and> net_upto n s \<and> mouse_inv s \<and> table_shape s = declared_shape \<and> length (IDT s) = 256
     \<and> length (swap_storage s) = 256 \<and> (\<forall>p\<in>set (swap_storage s). \<not> used p)
     \<and> (mapped \<longrightarrow> paged h s) \<and> interrupts s = intr \<and> (intr \<longrightarrow> idt_ready h s) \<and> (files \<longrightarrow> fs_inv s)"

lemmas frame_defs = others_def shell_others_def key_others_def init_others_def device_others_def kbd_inv_def line_of_def
  net_upto_def mouse_inv_def idt_ready_def paged_def paging_inv_def table_shape_def

lemma paged_translate:
  assumes "paged h s" and "link_ok h"
  shows "translate h s va = (if va < 0x400000 then Some va else None)"
proof -
  have "first_page_table (paging_tables_init h s) = first_page_table s"
    using assms(1) by (simp add: paged_def paging_tables_init_def Let_def)
  then have "translate h s va = translate h (paging_tables_init h s) va"
    using assms(1) by (simp add: paged_def translate_inv [OF _ assms(2)] paging_tables_init_inv [OF assms(2)])
  then show ?thesis by (simp only: paging_identity_fact [OF assms(2)])
qed

text \<open>Steps that are invisible to everything but the keyboard's own fields.\<close>

lemma system_inv_key:
  assumes "system_inv h n a b c s" and "key_step s t" and "kbd_inv t" and "n \<le> ARP_CACHE_SIZE"
  shows "system_inv h n a b c t"
proof -
  have o: "g t = g s" if "\<And>u :: kernel. g (key_others u) = g u" for g
    using assms(2) that unfolding key_step_def by metis
  have "mouse_inv t = mouse_inv s" "IDT t = IDT s" "idt_ready h t = idt_ready h s" "interrupts t = interrupts s"
      "swap_storage t = swap_storage s" "paged h t = paged h s"
    by (rule o; simp add: frame_defs)+
  then show ?thesis using assms by (simp add: system_inv_def key_step_def)
qed

lemma system_inv_console:
  assumes "system_inv h n a b c s" and "console_op f" and "n \<le> ARP_CACHE_SIZE"
  shows "system_inv h n a b c (f s)"
proof (rule system_inv_key [OF assms(1) key_step_console [OF assms(2)] _ assms(3)])
  have "kbd_inv (f s) = kbd_inv s"
    by (rule console_op.unaffected [OF assms(2)]) (simp add: kbd_inv_def line_of_def)
  then show "kbd_inv (f s)" using assms(1) by (simp add: system_inv_def)
qed

lemma system_inv_device:
  assumes "system_inv h n a b c s" and "device_others t = device_others s" and "mouse_inv t"
  shows "system_inv h n a b c t"
proof -
  have o: "g t = g s" if "\<And>u :: kernel. g (device_others u) = g u" for g
    using assms(2) that by metis
  have f: "fs_inv (device_others u) = fs_inv u" for u :: kernel
    by (rule fs_inv_cong) (simp_all add: device_others_def)
  have "kbd_inv t = kbd_inv s" "net_upto n t = net_upto n s" "table_shape t = table_shape s" "IDT t = IDT s"
      "idt_ready h t = idt_ready h s" "interrupts t = interrupts s"
      "swap_storage t = swap_storage s" "paged h t = paged h s"
    by (rule o; simp add: frame_defs)+
  moreover have "fs_inv t = fs_inv s" by (rule o) (rule f)
  ultimately show ?thesis using assms(1,3) by (simp add: system_inv_def)
qed

text \<open>The start-up steps that set something up.\<close>

lemma system_inv_paging:
  assumes "system_inv h n a b c s" and "link_ok h"
  shows "system_inv h n True b c (paging_init h s)"
proof -
  let ?t = "paging_init h s"
  have "kbd_inv ?t = kbd_inv s" "net_upto n ?t = net_upto n s" "mouse_inv ?t = mouse_inv s" "idt_ready h ?t = idt_ready h s"
      "table_shape ?t = table_shape s" "IDT ?t = IDT s" "interrupts ?t = interrupts s" "fs_table ?t = fs_table s"
      "length (swap_storage ?t) = length (swap_storage s)" "\<forall>p\<in>set (swap_storage ?t). \<not> used p" "fs_cwd ?t = fs_cwd s"
    by (simp_all add: paging_init_def swap_init_def pmm_init_def paging_tables_init_def Let_def kbd_inv_def line_of_def
        net_upto_def mouse_inv_def idt_ready_def table_shape_def)
  moreover have "first_page_table ?t = first_page_table (paging_tables_init h s)"
    by (simp add: paging_init_def swap_init_def pmm_init_def)
  then have "paged h ?t"
    using paging_inv_paging_init [OF assms(2), of s] by (simp add: paged_def paging_tables_init_def Let_def)
  ultimately show ?thesis
    using assms(1) fs_inv_cong [of ?t s] by (simp add: system_inv_def)
qed

lemma idt_init_others:
  "(idt_init h s)\<lparr>io := [], IDT := [], idt_register := None, interrupts := False\<rparr>
     = s\<lparr>io := [], IDT := [], idt_register := None, interrupts := False\<rparr>"
  by (simp add: idt_init_def Let_def set_gate_def load_idt_def write_port_def)

lemma system_inv_idt:
  assumes "system_inv h n a b c s"
  shows "system_inv h n a True c (idt_init h s)"
proof -
  let ?o = "\<lambda>u :: kernel. u\<lparr>io := [], IDT := [], idt_register := None, interrupts := False\<rparr>"
  have o: "g (idt_init h s) = g s" if "\<And>u :: kernel. g (?o u) = g u" for g
    using idt_init_others [of h s] that by metis
  have "kbd_inv (idt_init h s) = kbd_inv s" "net_upto n (idt_init h s) = net_upto n s" "mouse_inv (idt_init h s) = mouse_inv s"
      "table_shape (idt_init h s) = table_shape s" "fs_table (idt_init h s) = fs_table s" "fs_cwd (idt_init h s) = fs_cwd s"
      "swap_storage (idt_init h s) = swap_storage s" "paged h (idt_init h s) = paged h s"
    by (rule o; simp add: frame_defs)+
  moreover have "idt_ready h (idt_init h s)" "interrupts (idt_init h s)"
    using idt_init_installs_fact [of s h] assms by (simp_all add: system_inv_def)
  ultimately show ?thesis
    using assms fs_inv_cong [of "idt_init h s" s] by (simp add: system_inv_def idt_ready_def)
qed

lemma system_inv_file:
  assumes "system_inv h n a b c s" and "file_stmt f"
  shows "system_inv h n a b False (f s)"
proof -
  let ?o = "\<lambda>u :: kernel. u\<lparr>fs_table := [], fs_cwd := 0\<rparr>"
  have "?o (f s) = ?o s" using assms(2) by (simp add: file_stmt_def)
  then have o: "g (f s) = g s" if "\<And>u :: kernel. g (?o u) = g u" for g
    using that by metis
  have "kbd_inv (f s) = kbd_inv s" "net_upto n (f s) = net_upto n s" "mouse_inv (f s) = mouse_inv s"
      "IDT (f s) = IDT s" "interrupts (f s) = interrupts s" "idt_ready h (f s) = idt_ready h s"
      "swap_storage (f s) = swap_storage s" "paged h (f s) = paged h s"
    by (rule o; simp add: kbd_inv_def line_of_def net_upto_def mouse_inv_def paged_def paging_inv_def idt_ready_def)+
  then show ?thesis using assms by (simp add: system_inv_def file_stmt_def)
qed

lemma system_inv_net:
  assumes "system_inv h n a b c s" and "init_others t = init_others s" and "net_upto m t"
  shows "system_inv h m a b c t"
proof -
  have o: "g t = g s" if "\<And>u :: kernel. g (init_others u) = g u" for g
    using assms(2) that by metis
  have "kbd_inv t = kbd_inv s" "mouse_inv t = mouse_inv s" "table_shape t = table_shape s"
      "IDT t = IDT s" "interrupts t = interrupts s" "idt_ready h t = idt_ready h s"
      "swap_storage t = swap_storage s" "paged h t = paged h s" "fs_table t = fs_table s" "fs_cwd t = fs_cwd s"
    by (rule o; simp add: frame_defs)+
  then show ?thesis using assms fs_inv_cong [of t s] by (simp add: system_inv_def)
qed

lemma system_inv_net_stmt:
  assumes "system_inv h n a b c s" and "net_stmt f"
  shows "system_inv h n a b c (f s)"
  using assms by (intro system_inv_net [OF assms(1)]) (simp_all add: net_stmt_def system_inv_def)

lemma system_inv_arp:
  assumes "system_inv h n a b c s" and "n < ARP_CACHE_SIZE"
  shows "system_inv h (Suc n) a b c (arp_clear n s)"
  using assms
  by (intro system_inv_net [OF assms(1)] net_upto_arp_clear)
     (simp_all add: arp_clear_def init_others_def others_def system_inv_def)

lemma mouse_inv_handlers:
  assumes "mouse_inv s"
  shows "mouse_inv (update_mouse_cursor iv s)" "mouse_inv (mouse_handler_main h s)" "mouse_inv (timer_handler_main s)"
proof -
  have c: "mouse_inv u \<Longrightarrow> mouse_inv (update_mouse_cursor iv u)" for iv and u :: "'a devices_scheme"
    by (simp add: update_mouse_cursor_def Let_def poke_def)
  show "mouse_inv (update_mouse_cursor iv s)" using assms by (rule c)
  show "mouse_inv (mouse_handler_main h s)"
    using assms by (auto simp: mouse_handler_main_def split_beta Let_def intro!: c mouse_inv_packet)
  show "mouse_inv (timer_handler_main s)"
    using assms by (simp add: timer_handler_main_def mouse_inv_def write_port_def)
qed

section \<open>Every configuration is well-formed\<close>

text \<open>What is left of the current call, and what its statements respect. While \<open>fs_init\<close> has not been disturbed, the
  rest of its run produces a well-formed tree.\<close>

definition arp_rest :: "nat \<Rightarrow> (kernel, unit) prog" where
  "arp_rest n = block (map (\<lambda>i. stmt (arp_clear i)) [n..<ARP_CACHE_SIZE])"

definition rest_ok :: "hw \<Rightarrow> nat \<Rightarrow> (kernel, unit) prog \<Rightarrow> bool \<Rightarrow> nat \<Rightarrow> kernel \<Rightarrow> bool" where
  "rest_ok h pc p calm n s \<longleftrightarrow>
     (if pc = 3 then p = stmt (paging_init h)
      else if pc = 9 then p = stmt (idt_init h)
      else if pc = 11 then every file_stmt p \<and> steady same_files p \<and> (calm \<longrightarrow> fs_inv (snd (run p s)))
      else if pc = 13 then p = arp_rest n
      else if pc = 14 then every net_stmt p
      else every console_op p)
     \<and> n \<le> ARP_CACHE_SIZE \<and> (pc \<noteq> 13 \<longrightarrow> n = ARP_CACHE_SIZE)
     \<and> pc \<le> 18 \<and> running p = (pc < 18)"

definition conf_inv :: "hw \<Rightarrow> conf \<Rightarrow> bool" where
  "conf_inv h = (\<lambda>(pc, p, calm, s). \<exists>n. rest_ok h pc p calm n s \<and> system_inv h n (3 < pc) (9 < pc) (11 < pc \<and> calm) s)"

lemma running_calls [simp]:
  "c \<noteq> NUL \<Longrightarrow> running (kprint_prog (c # cs))" "running fs_init_prog" "running (net_init_prog h)"
  "running (mouse_cursor_prog iv)"
proof -
  show "c \<noteq> NUL \<Longrightarrow> running (kprint_prog (c # cs))" by (simp add: kputc_prog_def)
  have "[0..<FS_MAX_ENTRIES] = 0 # [1..<FS_MAX_ENTRIES]" by (simp add: FS_MAX_ENTRIES_def upt_conv_Cons)
  then show "running fs_init_prog" by (simp add: fs_init_prog_def fs_clear_prog_def)
  have "[0..<8] = 0 # [1..<8]" "[0..<32] = 0 # [1..<32]" by (simp_all add: upt_conv_Cons)
  then show "running (net_init_prog h)"
    by (simp add: net_init_prog_def pci_find_device_prog_def pci_read32_prog_def pci_outl_prog_def del: upt_Suc upt_rec_numeral)
  show "running (mouse_cursor_prog iv)" by (simp add: mouse_cursor_prog_def)
qed

text \<open>A call starts well.\<close>

lemma after_stmt: "after (stmt f) g = Stmt f (\<lambda>_. g ())"
  by (simp add: stmt_def)

lemmas call_facts = every_kprint every_net_init every_mouse_cursor every_fs_init steady_fs_init console_op_write_port
  console_op_pit_init console_op_mouse_init

lemma call_ok:
  assumes "system_inv h ARP_CACHE_SIZE a b c s" and "pc \<le> 18"
  shows "\<exists>n. rest_ok h pc (call h pc) calm n s \<and> system_inv h n a b c s"
proof -
  have z: "system_inv h 0 a b c s"
    using assms(1) net_upto_0 [of ARP_CACHE_SIZE s] by (simp add: system_inv_def)
  have fs: "fs_inv (snd (run fs_init_prog s))"
  proof -
    have "table_shape s = declared_shape" using assms(1) by (simp add: system_inv_def)
    then show ?thesis using table_shape_entry(1) [of s] by (simp add: run_fs_init fs_init_inv)
  qed
  have r: "running (arp_rest 0)" "arp_cache_init_prog = arp_rest 0"
    by (simp_all add: arp_rest_def ARP_CACHE_SIZE_def upt_rec arp_cache_init_prog_def)
  have "rest_ok h pc (call h pc) calm (if pc = 13 then 0 else ARP_CACHE_SIZE) s"
  proof -
    have "pc \<in> {0, 1, 2, 3, 4, 5, 6, 7, 8, 9, 10, 11, 12, 13, 14, 15, 16, 17, 18}" using assms(2) by (simp, presburger)
    then show ?thesis
      by (elim insertE emptyE; simp only: rest_ok_def call_def kmain_calls_def)
         (simp_all add: call_facts fs r after_stmt del: kprint_prog.simps)
  qed
  then show ?thesis using assms(1) z by (intro exI [of _ "if pc = 13 then 0 else ARP_CACHE_SIZE"]) simp
qed

text \<open>The statements of \<open>kmain\<close>. After a statement that is not the last one of its call, what is left is well-formed; after
  the last one, the next call can start.\<close>

definition left_ok :: "hw \<Rightarrow> nat \<Rightarrow> (kernel, unit) prog \<Rightarrow> bool \<Rightarrow> nat \<Rightarrow> kernel \<Rightarrow> bool" where
  "left_ok h pc p calm n s \<longleftrightarrow>
     (if running p then rest_ok h pc p calm n s \<and> system_inv h n (3 < pc) (9 < pc) (11 < pc \<and> calm) s
      else pc < 18 \<and> system_inv h ARP_CACHE_SIZE (2 < pc) (8 < pc) (10 < pc \<and> calm) s)"

lemma goto_inv:
  assumes "left_ok h pc p calm n s" and "goto h pc p = (pc', p')"
  shows "conf_inv h (pc', p', calm, s)"
proof (cases p)
  case (Return u)
  have less: "(2 < pc) = (3 < Suc pc)" "(8 < pc) = (9 < Suc pc)" "(10 < pc) = (11 < Suc pc)" by auto
  have "system_inv h ARP_CACHE_SIZE (3 < Suc pc) (9 < Suc pc) (11 < Suc pc \<and> calm) s" "pc < 18"
    using assms(1) unfolding left_ok_def less by (simp_all add: Return)
  from call_ok [OF this(1), of "Suc pc" calm] this(2) assms(2) show ?thesis by (auto simp: conf_inv_def Return)
next
  case (Stmt f k)
  then have "pc' = pc" "p' = p" using assms(2) by auto
  then show ?thesis using assms(1) by (auto simp: conf_inv_def left_ok_def Stmt)
qed

lemma arp_rest_unfold: "arp_rest n = (if n < ARP_CACHE_SIZE then Stmt (arp_clear n) (\<lambda>_. arp_rest (Suc n)) else Return ())"
  by (simp add: arp_rest_def upt_rec [of n] stmt_def)

lemma file_stmt_left:
  assumes r: "rest_ok h 11 (Stmt f k) calm n s" and s: "system_inv h n True True False s"
  shows "left_ok h 11 (k s) calm n (f s)"
proof -
  have f: "file_stmt f" "every file_stmt (k s)" "steady same_files (k s)" "n = ARP_CACHE_SIZE"
      "calm \<Longrightarrow> fs_inv (snd (run (k s) (f s)))"
    using r by (simp_all add: rest_ok_def)
  have i: "system_inv h n True True False (f s)" by (rule system_inv_file [OF s f(1)])
  show ?thesis
  proof (cases "k s")
    case (Return u)
    then have "calm \<Longrightarrow> fs_inv (f s)" using f(5) by simp
    then have "system_inv h n True True calm (f s)" using i by (simp add: system_inv_def)
    then show ?thesis by (simp add: left_ok_def Return f(4))
  next
    case (Stmt g l)
    then show ?thesis using f i by (simp add: left_ok_def rest_ok_def)
  qed
qed

lemma arp_stmt_left:
  assumes r: "rest_ok h 13 (Stmt f k) calm n s" and s: "system_inv h n True True calm s"
  shows "left_ok h 13 (k s) calm (Suc n) (f s)"
proof -
  have "Stmt f k = arp_rest n" using r by (simp add: rest_ok_def)
  then have n: "n < ARP_CACHE_SIZE" "f = arp_clear n" "k s = arp_rest (Suc n)"
    using arp_rest_unfold [of n] by (simp_all split: if_splits)
  have "system_inv h (Suc n) True True calm (f s)" using system_inv_arp [OF s n(1)] n(2) by simp
  moreover have "running (arp_rest (Suc n)) \<longleftrightarrow> Suc n < ARP_CACHE_SIZE" by (subst arp_rest_unfold) simp
  moreover have "Suc n < ARP_CACHE_SIZE \<or> Suc n = ARP_CACHE_SIZE" using n(1) by auto
  ultimately show ?thesis using n(1,3) by (elim disjE) (simp_all add: left_ok_def rest_ok_def)
qed

lemma console_stmt_left:
  assumes r: "rest_ok h pc (Stmt f k) calm n s" and s: "system_inv h n (3 < pc) (9 < pc) (11 < pc \<and> calm) s"
    and pc: "pc \<notin> {3, 9, 11, 13, 14}"
  shows "left_ok h pc (k s) calm n (f s)"
proof -
  have f: "console_op f" "every console_op (k s)" "n = ARP_CACHE_SIZE" "pc < 18" using r pc by (simp_all add: rest_ok_def)
  have i: "system_inv h n (3 < pc) (9 < pc) (11 < pc \<and> calm) (f s)" by (rule system_inv_console [OF s f(1)]) (simp add: f(3))
  have less: "(2 < pc) = (3 < pc)" "(8 < pc) = (9 < pc)" "(10 < pc) = (11 < pc)" using pc by auto
  show ?thesis unfolding left_ok_def less using f i pc by (simp add: rest_ok_def)
qed

lemma stmt_left:
  assumes r: "rest_ok h pc (Stmt f k) calm n s" and s: "system_inv h n (3 < pc) (9 < pc) (11 < pc \<and> calm) s"
    and link: "link_ok h"
  shows "\<exists>m. left_ok h pc (k s) calm m (f s)"
proof -
  consider "pc = 3" | "pc = 9" | "pc = 11" | "pc = 13" | "pc = 14" | (console) "pc \<notin> {3, 9, 11, 13, 14}" by blast
  then show ?thesis
  proof cases
    case 1
    then have "f = paging_init h" "\<not> running (k s)" "n = ARP_CACHE_SIZE" using r by (simp_all add: rest_ok_def stmt_def)
    then show ?thesis using system_inv_paging [OF s link] by (simp add: left_ok_def 1)
  next
    case 2
    then have "f = idt_init h" "\<not> running (k s)" "n = ARP_CACHE_SIZE" using r by (simp_all add: rest_ok_def stmt_def)
    then show ?thesis using system_inv_idt [OF s] by (simp add: left_ok_def 2)
  next
    case 3
    then show ?thesis using file_stmt_left [of h f k calm n s] r s by auto
  next
    case 4
    then show ?thesis using arp_stmt_left [of h f k calm n s] r s by auto
  next
    case 5
    then have f: "net_stmt f" "every net_stmt (k s)" "n = ARP_CACHE_SIZE" using r by (simp_all add: rest_ok_def)
    have "left_ok h 14 (k s) calm n (f s)" using system_inv_net_stmt [OF s f(1)] f by (simp add: left_ok_def rest_ok_def 5)
    then show ?thesis using 5 by blast
  next
    case console
    then show ?thesis using console_stmt_left [OF r s] by blast
  qed
qed

lemma kmain_step_inv:
  assumes "kmain_step h a b" and "conf_inv h a" and "link_ok h"
  shows "conf_inv h b"
  using assms(1)
proof cases
  case (1 pc k s pc' p' f calm)
  obtain n where r: "rest_ok h pc (Stmt f k) calm n s" and s: "system_inv h n (3 < pc) (9 < pc) (11 < pc \<and> calm) s"
    using assms(2) by (auto simp: conf_inv_def 1)
  obtain m where "left_ok h pc (k s) calm m (f s)" using stmt_left [OF r s assms(3)] by blast
  from goto_inv [OF this 1(3)] show ?thesis by (simp add: 1)
qed

lemma rest_ok_interrupt:
  assumes "rest_ok h pc p calm n s" and "calm' \<Longrightarrow> calm \<and> (pc = 11 \<longrightarrow> same_files s t)"
  shows "rest_ok h pc p calm' n t"
proof -
  have "fs_inv (snd (run p t))" if "pc = 11" "calm'"
  proof -
    have p: "steady same_files p" "fs_inv (snd (run p s))" "same_files s t" using assms that by (auto simp: rest_ok_def)
    from steady_run [OF p(1,3)] have "same_files (snd (run p s)) (snd (run p t))" .
    then show ?thesis using p(2) fs_inv_cong [of "snd (run p s)" "snd (run p t)"] by (simp add: same_files_def)
  qed
  then show ?thesis using assms(1) unfolding rest_ok_def by (simp split: if_splits)
qed

lemma interrupt_inv:
  assumes "interrupt h fuel a b" and "conf_inv h a"
  shows "conf_inv h b"
proof -
  obtain pc p calm s where a: "a = (pc, p, calm, s)" by (cases a) auto
  obtain n where r: "rest_ok h pc p calm n s" and s: "system_inv h n (3 < pc) (9 < pc) (11 < pc \<and> calm) s"
    using assms(2) by (auto simp: conf_inv_def a)
  have i: "mouse_inv s" "kbd_inv s" "n \<le> ARP_CACHE_SIZE" using s r by (simp_all add: system_inv_def rest_ok_def)
  have device: "conf_inv h (pc, p, calm, t)" if "device_others t = device_others s" "mouse_inv t" for t
  proof -
    have "fs_table (device_others t) = fs_table (device_others s)" "fs_cwd (device_others t) = fs_cwd (device_others s)"
      using that(1) by simp_all
    then have "same_files s t" by (simp add: same_files_def device_others_def)
    then show ?thesis
      using system_inv_device [OF s that] rest_ok_interrupt [OF r, of calm t] by (auto simp: conf_inv_def)
  qed
  from assms(1) show ?thesis
    unfolding a
  proof cases
    case timer
    show ?thesis unfolding timer(1)
      by (rule device [OF device_others_handlers(1) mouse_inv_handlers(3) [OF i(1)]])
  next
    case (keyboard t)
    have "system_inv h n (3 < pc) (9 < pc) (11 < pc \<and> calm) t"
      by (rule system_inv_key [OF s tp.keyboard_handler_step [OF keyboard(3)] tp.handler_kbd_inv [OF keyboard(3) i(2)] i(3)])
    moreover have "(11 < pc \<and> calm) = (11 < pc \<and> calm \<and> pc \<noteq> 11)" by auto
    ultimately show ?thesis
      unfolding keyboard(1) using rest_ok_interrupt [OF r, of "calm \<and> pc \<noteq> 11" t] by (auto simp: conf_inv_def)
  next
    case mouse
    show ?thesis unfolding mouse(1)
      by (rule device [OF device_others_handlers(4) mouse_inv_handlers(2) [OF i(1)]])
  qed
qed

lemma start_inv: "conf_inv h (booting h m c0 c3)"
proof -
  have "row_ok (replicate 256 NUL)"
    by (simp add: row_ok_def cstr_def numeral_eq_Suc)
  then have "system_inv h ARP_CACHE_SIZE False False False (start m c0 c3)"
    by (simp add: system_inv_def start_def with_kernel_globals_def with_device_globals_def
        with_keyboard_globals_def with_net_globals_def fsys.defs netif.defs terminal.defs devices.defs kernel.defs
        kbd_inv_def line_of_def net_upto_def mouse_inv_def cache_upto_def ARP_CACHE_SIZE_def RTL_TX_DESC_NUM_def
        RTL_TX_BUF_SIZE_def RTL_RX_BUF_SIZE_def IDT_SIZE_def table_shape_def declared_shape_def entry_shape_def
        FS_MAX_ENTRIES_def FS_MAX_NAME_LEN_def FS_MAX_FILE_SIZE_def)
  from call_ok [OF this, of 0 True] show ?thesis by (auto simp: conf_inv_def booting_def)
qed

lemma reachable_inv: "reachable h fuel a \<Longrightarrow> link_ok h \<Longrightarrow> conf_inv h a"
  by (induction rule: reachable.induct) (auto intro: start_inv kmain_step_inv interrupt_inv simp: kernel_step_def)

lemma reachable_system:
  assumes "reachable h fuel (pc, p, calm, s)" and "link_ok h"
  obtains n where "rest_ok h pc p calm n s" "system_inv h n (3 < pc) (9 < pc) (11 < pc \<and> calm) s"
  using reachable_inv [OF assms] by (auto simp: conf_inv_def)

section \<open>Runs\<close>

text \<open>A call that is not interrupted.\<close>

lemma run_call:
  "reachable h fuel (pc, p, calm, s) \<Longrightarrow> running p \<Longrightarrow> reachable h fuel (Suc pc, call h (Suc pc), calm, snd (run p s))"
proof (induction p arbitrary: s)
  case (Stmt f k)
  obtain pc' p' where g: "goto h pc (k s) = (pc', p')" by fastforce
  then have r: "reachable h fuel (pc', p', calm, f s)"
    using reachable.step [OF Stmt.prems(1)] kmain_step.intros [where k = k and s = s, OF g, of f calm] by (auto simp: kernel_step_def)
  show ?case
  proof (cases "k s")
    case (Return u)
    then show ?thesis using g r by auto
  next
    case (Stmt g' k')
    then have "reachable h fuel (pc, k s, calm, f s)" using g r by auto
    then show ?thesis using Stmt.IH [OF rangeI, of s "f s"] Stmt by simp
  qed
qed simp

text \<open>What the calls do to the globals when they are not interrupted.\<close>

definition kmain_parts :: "hw \<Rightarrow> (kernel \<Rightarrow> kernel) list" where
  "kmain_parts h =
     [\<lambda>s. write_port 0x3F8 (of_char NL) (write_port 0x3F8 (of_char CHR ''A'') s),
      kprint (''Booting MOKernel...'' @ [NL]),
      kprint (''Initializing Paging...'' @ [NL]), paging_init h,
      kprint (''Initializing PIT Timer...'' @ [NL]), pit_init,
      kprint (''Initializing PS/2 Mouse...'' @ [NL]), mouse_init h,
      kprint (''Initializing IDT...'' @ [NL]), idt_init h,
      kprint (''Initializing File System...'' @ [NL]), fs_init,
      kprint (''Initializing Network Stack...'' @ [NL]), arp_cache_init, \<lambda>s. snd (net_init h s),
      update_mouse_cursor True,
      kprint ([NL] @ ''Kernel initialization complete!'' @ [NL]), kprint ''OS> '']"

lemma kmain_parts: "kmain h s = fold (\<lambda>f s. f s) (kmain_parts h) s"
  by (simp add: kmain_def kmain_parts_def Let_def net_stack_init_def del: kprint.simps)

lemma length_kmain_parts [simp]: "length (kmain_parts h) = 18"
  by (simp add: kmain_parts_def)

lemma run_kmain_call:
  assumes "pc < 18" and "table_shape s = declared_shape" and "length (arp_cache s) = ARP_CACHE_SIZE"
  shows "snd (run (call h pc) s) = (kmain_parts h ! pc) s"
proof -
  have "pc \<in> {0, 1, 2, 3, 4, 5, 6, 7, 8, 9, 10, 11, 12, 13, 14, 15, 16, 17}" using assms(1) by (simp, presburger)
  then show ?thesis
    by (elim insertE emptyE; simp only: call_def kmain_calls_def kmain_parts_def)
       (simp_all add: run_fs_init assms run_arp_cache_init run_net_init del: kprint_prog.simps kprint.simps)
qed

lemma reachable_call:
  assumes "link_ok h" and "n \<le> 18"
  shows "reachable h fuel (n, call h n, True, fold (\<lambda>f s. f s) (take n (kmain_parts h)) (start m c0 c3))"
  using assms(2)
proof (induction n)
  case 0
  then show ?case using reachable.init by (simp add: booting_def)
next
  case (Suc n)
  let ?s = "fold (\<lambda>f s. f s) (take n (kmain_parts h)) (start m c0 c3)"
  have r: "reachable h fuel (n, call h n, True, ?s)" using Suc by simp
  obtain k where ok: "rest_ok h n (call h n) True k ?s" "system_inv h k (3 < n) (9 < n) (11 < n \<and> True) ?s"
    by (rule reachable_system [OF r assms(1)])
  then have "running (call h n)" using Suc.prems by (simp add: rest_ok_def)
  from run_call [OF r this] have "reachable h fuel (Suc n, call h (Suc n), True, (kmain_parts h ! n) ?s)"
    using run_kmain_call [of n ?s h] ok(2) Suc.prems by (simp add: system_inv_def net_upto_def cache_upto_def)
  then show ?case using Suc.prems by (simp add: take_Suc_conv_app_nth)
qed

lemma kmain_reachable:
  assumes "link_ok h"
  shows "reachable h fuel (18, Return (), True, kmain h (start m c0 c3))"
  using reachable_call [OF assms, of 18 fuel m c0 c3] by (simp add: kmain_parts call_def)

section \<open>Properties of the running kernel\<close>

text \<open>C1: The invariant of the kernel. In every configuration that the kernel can reach, by any interleaving of
  the statements of \<open>kmain\<close> with timer, keyboard and mouse interrupts, with any input from the keyboard, the
  mouse and the network: the line, the history, the network globals and the pointer are well-formed and
  inside their arrays, and so are the arrays of the file table; interrupts are enabled from
  \<open>idt_init\<close> on, and only when the processor's table has the kernel's gates; the page tables map the first 4 MB
  to themselves from \<open>paging_init\<close> on. While \<open>arp_cache_init\<close> is clearing the ARP cache, its entries need not be in
  the order of their use. From \<open>fs_init\<close> on the file table is a well-formed tree, unless
  a key was handled while \<open>fs_init\<close> was running (\<open>calm\<close> is false then).\<close>

theorem kernel_invariant:
  assumes "reachable h fuel (pc, p, calm, s)" and "link_ok h"
  shows "kbd_inv s \<and> mouse_inv s \<and> net_upto 0 s \<and> (pc \<noteq> 13 \<longrightarrow> net_inv s) \<and> table_shape s = declared_shape
    \<and> (interrupts s \<longrightarrow> idt_ready h s) \<and> (interrupts s \<longleftrightarrow> 9 < pc) \<and> (3 < pc \<longrightarrow> paged h s)
    \<and> (11 < pc \<and> calm \<longrightarrow> fs_inv s)"
proof -
  obtain n where r: "rest_ok h pc p calm n s" and s: "system_inv h n (3 < pc) (9 < pc) (11 < pc \<and> calm) s"
    by (rule reachable_system [OF assms])
  have "net_upto n s" "pc \<noteq> 13 \<Longrightarrow> n = ARP_CACHE_SIZE" using r s by (simp_all add: rest_ok_def system_inv_def)
  then show ?thesis using s net_upto_0 [of n s] by (auto simp: system_inv_def net_inv_upto)
qed

theorem kernel_invariant_witness:
  "fs_inv (kmain idle_board (start (\<lambda>_. 0) 0x11 0)) \<and> idt_ready idle_board (kmain idle_board (start (\<lambda>_. 0) 0x11 0))"
  using kernel_invariant [OF kmain_reachable [OF link_ok_idle_board, of 1 "\<lambda>_. 0" "0x11" 0] link_ok_idle_board] by simp

text \<open>C18: Once paging is on, the kernel sees exactly the first 4 MB, at their own addresses, and no page fault
  is ever survived: nothing the kernel does puts a page into the swap store, so the handler panics
  on every address.\<close>

theorem kernel_address_space:
  assumes "reachable h fuel (pc, p, calm, s)" and "link_ok h" and "3 < pc"
  shows "translate h s va = (if va < 0x400000 then Some va else None)
    \<and> page_fault_handler h va s = Halted (pf_panic s)"
proof
  obtain n where i: "system_inv h n True (9 < pc) (11 < pc \<and> calm) s"
    using reachable_system [OF assms(1,2)] assms(3) by auto
  then show "translate h s va = (if va < 0x400000 then Some va else None)"
    by (intro paged_translate assms(2)) (simp add: system_inv_def)
  have "\<not> used (swap_storage s ! j)" if "j < 256" for j
    using i that by (simp add: system_inv_def)
  then have "\<not> swap_exists va s"
    by (simp add: swap_exists_def swap_find_index_def scan_none_iff SWAP_MAX_PAGES_def)
  then show "page_fault_handler h va s = Halted (pf_panic s)" by (simp add: page_fault_handler_def)
qed

theorem kernel_address_space_witness:
  "page_fault_handler idle_board 0x500000 (kmain idle_board (start (\<lambda>_. 0) 0x11 0))
     = Halted (pf_panic (kmain idle_board (start (\<lambda>_. 0) 0x11 0)))"
  using kernel_address_space [OF kmain_reachable [OF link_ok_idle_board, of 1 "\<lambda>_. 0" "0x11" 0] link_ok_idle_board]
  by simp

section \<open>Progress\<close>

text \<open>A run of the kernel is fair if \<open>kmain\<close>, as long as it is not done, always gets to execute another
  statement at some time: the interrupts do not take the processor for ever.\<close>

definition fair_run :: "hw \<Rightarrow> nat \<Rightarrow> (nat \<Rightarrow> conf) \<Rightarrow> bool" where
  "fair_run h fuel \<sigma> \<longleftrightarrow> (\<exists>m c0 c3. \<sigma> 0 = booting h m c0 c3) \<and> (\<forall>i. kernel_step h fuel (\<sigma> i) (\<sigma> (Suc i)))
     \<and> (\<forall>i. \<exists>j\<ge>i. fst (\<sigma> j) = 18 \<or> kmain_step h (\<sigma> j) (\<sigma> (Suc j)))"

lemma fair_run_reachable: "fair_run h fuel \<sigma> \<Longrightarrow> reachable h fuel (\<sigma> i)"
proof (induction i)
  case 0
  then obtain m c0 c3 where "\<sigma> 0 = booting h m c0 c3" by (auto simp: fair_run_def)
  then show ?case using reachable.init by simp
next
  case (Suc i)
  then show ?case using reachable.step by (metis fair_run_def)
qed

text \<open>What is left to do: the calls, and the statements of the current call.\<close>

definition ahead :: "conf \<Rightarrow> nat \<times> (kernel, unit) prog" where
  "ahead = (\<lambda>(pc, p, calm, s). (18 - pc, p))"

definition less_ahead :: "((nat \<times> (kernel, unit) prog) \<times> (nat \<times> (kernel, unit) prog)) set" where
  "less_ahead = less_than <*lex*> {(q, p). rest_of q p}"

lemma wf_less_ahead: "wf less_ahead"
  unfolding less_ahead_def using wfp_rest_of by (intro wf_lex_prod wf_less_than) (simp add: wfp_def)

lemma kmain_step_ahead:
  assumes "kmain_step h a b" and "fst a < 18"
  shows "(ahead b, ahead a) \<in> less_ahead"
  using assms(1)
proof cases
  case (1 pc k s pc' p' f calm)
  show ?thesis
  proof (cases "k s")
    case (Return u)
    then have "pc' = Suc pc" using 1(3) by auto
    then show ?thesis using assms(2) by (auto simp: less_ahead_def ahead_def 1)
  next
    case (Stmt g l)
    then have "pc' = pc" "p' = k s" using 1(3) by auto
    then show ?thesis by (simp add: less_ahead_def ahead_def 1 rest_of.intros)
  qed
qed

lemma interrupt_ahead: "interrupt h fuel a b \<Longrightarrow> ahead b = ahead a"
  by (auto simp: ahead_def elim: interrupt.cases)

lemma start_up_ends:
  assumes "fair_run h fuel \<sigma>" and "link_ok h"
  shows "\<exists>N\<ge>i. fst (\<sigma> N) = 18"
proof -
  have le: "fst (\<sigma> i) \<le> 18" for i
    using fair_run_reachable [OF assms(1), of i] assms(2)
    by (cases "\<sigma> i") (auto simp: rest_ok_def elim!: reachable_system)
  have "\<forall>i. ahead (\<sigma> i) = x \<longrightarrow> (\<exists>N\<ge>i. fst (\<sigma> N) = 18)" for x
  proof (induction x rule: wf_induct_rule [OF wf_less_ahead])
    case (1 x)
    have below: "\<exists>N\<ge>i. fst (\<sigma> N) = 18" if "(ahead (\<sigma> (Suc i)), x) \<in> less_ahead" for i
      using 1 [OF that] Suc_leD by blast
    have go: "\<exists>N\<ge>i. fst (\<sigma> N) = 18"
      if "ahead (\<sigma> i) = x" "fst (\<sigma> (i + d)) = 18 \<or> kmain_step h (\<sigma> (i + d)) (\<sigma> (Suc (i + d)))" for i d
      using that
    proof (induction d arbitrary: i)
      case (Suc d)
      have "kernel_step h fuel (\<sigma> i) (\<sigma> (Suc i))" using assms(1) by (simp add: fair_run_def)
      then consider "fst (\<sigma> i) = 18" | "kmain_step h (\<sigma> i) (\<sigma> (Suc i))" "fst (\<sigma> i) < 18" | "interrupt h fuel (\<sigma> i) (\<sigma> (Suc i))"
        using le [of i] unfolding kernel_step_def by linarith
      then show ?case
      proof cases
        case 2
        then have "(ahead (\<sigma> (Suc i)), x) \<in> less_ahead" using kmain_step_ahead Suc.prems(1) by blast
        then show ?thesis by (rule below)
      next
        case 3
        then have "ahead (\<sigma> (Suc i)) = x" using interrupt_ahead Suc.prems(1) by simp
        then show ?thesis using Suc.IH [of "Suc i"] Suc.prems(2) by (simp add: Suc_le_eq) (meson less_imp_le)
      qed auto
    next
      case 0
      then show ?case
      proof (cases "fst (\<sigma> i) = 18")
        case False
        then have "kmain_step h (\<sigma> i) (\<sigma> (Suc i))" "fst (\<sigma> i) < 18" using 0 le [of i] by simp_all
        then have "(ahead (\<sigma> (Suc i)), x) \<in> less_ahead" using kmain_step_ahead 0(1) by blast
        then show ?thesis by (rule below)
      qed auto
    qed
    show ?case
    proof (intro allI impI)
      fix i assume x: "ahead (\<sigma> i) = x"
      obtain j where "j \<ge> i" "fst (\<sigma> j) = 18 \<or> kmain_step h (\<sigma> j) (\<sigma> (Suc j))"
        using assms(1) by (auto simp: fair_run_def)
      then show "\<exists>N\<ge>i. fst (\<sigma> N) = 18" using go [OF x, of "j - i"] by simp
    qed
  qed
  then show ?thesis by blast
qed

lemma done_stays:
  assumes "fair_run h fuel \<sigma>" and "link_ok h" and "fst (\<sigma> N) = 18" and "N \<le> i"
  shows "fst (\<sigma> i) = 18"
  using assms(4)
proof (induction i rule: dec_induct)
  case (step i)
  obtain p calm s where a: "\<sigma> i = (18, p, calm, s)" using step by (cases "\<sigma> i") auto
  have "\<not> running p"
    using reachable_system [OF fair_run_reachable [OF assms(1), of i, unfolded a] assms(2)] by (auto simp: rest_ok_def)
  then have "\<not> kmain_step h (\<sigma> i) (\<sigma> (Suc i))" by (auto simp: a elim!: kmain_stepE)
  then have "interrupt h fuel (\<sigma> i) (\<sigma> (Suc i))" using assms(1) by (auto simp: fair_run_def kernel_step_def)
  then show ?case by (auto simp: a elim!: interruptE)
qed (rule assms(3))

text \<open>C6: The kernel stays responsive. In every fair run, however often and wherever the start-up is interrupted, \<open>kmain\<close> reaches
  its idle loop and stays there. And from \<open>fs_init\<close> on every keyboard interrupt is served, unless a key was
  handled while \<open>fs_init\<close> was running: if the card at its I/O base has delivered
  at most \<open>n\<close> frames when it is empty for good, the handler, and with it whatever command the key starts, returns,
  and the kernel goes on where it was interrupted.\<close>

theorem kernel_responsive:
  assumes "fair_run h fuel \<sigma>" and "link_ok h" and "n < fuel"
  shows "(\<exists>N. \<forall>i\<ge>N. fst (\<sigma> i) = 18)
    \<and> (\<forall>i pc p s. \<sigma> i = (pc, p, True, s) \<and> 11 < pc \<and> quiet_after n h (net_iobase s)
        \<longrightarrow> (\<exists>t. keyboard_handler_main (net_poll h fuel) h s = Some t \<and> kernel_step h fuel (\<sigma> i) (pc, p, True, t)))"
proof (intro conjI allI impI)
  show "\<exists>N. \<forall>i\<ge>N. fst (\<sigma> i) = 18"
    using start_up_ends [OF assms(1,2)] done_stays [OF assms(1,2)] by blast
next
  fix i pc p s
  assume a: "\<sigma> i = (pc, p, True, s) \<and> 11 < pc \<and> quiet_after n h (net_iobase s)"
  then have "reachable h fuel (pc, p, True, s)" using fair_run_reachable [OF assms(1), of i] by simp
  from reachable_system [OF this assms(2)] have i: "fs_inv s" "interrupts s" using a by (auto simp: system_inv_def)
  have "polls_enough h n fuel s" using a assms(3) by (simp add: polls_enough_def)
  from tr.keyboard_handler_returns [OF this i(1)] obtain t where
    t: "keyboard_handler_main (net_poll h fuel) h s = Some t" by blast
  from interrupt.keyboard [OF i(2) t, of pc p True] have "kernel_step h fuel (\<sigma> i) (pc, p, True, t)"
    using a by (auto simp: kernel_step_def)
  with t show "\<exists>t. keyboard_handler_main (net_poll h fuel) h s = Some t \<and> kernel_step h fuel (\<sigma> i) (pc, p, True, t)" by blast
qed

text \<open>A fair run: nothing but the timer interrupts, and only when \<open>kmain\<close> is done.\<close>

fun lone_step :: "hw \<Rightarrow> conf \<Rightarrow> conf" where
  "lone_step h (pc, Stmt f k, calm, s) = (case goto h pc (k s) of (pc', p') \<Rightarrow> (pc', p', calm, f s))"
| "lone_step h (pc, Return u, calm, s) = (pc, Return u, calm, timer_handler_main s)"

definition lone_run :: "hw \<Rightarrow> nat \<Rightarrow> conf" where
  "lone_run h i = (lone_step h ^^ i) (booting h (\<lambda>_. 0) 0x11 0)"

lemma lone_step_kernel:
  assumes "reachable h fuel a" and "link_ok h"
  shows "kernel_step h fuel a (lone_step h a) \<and> (fst a = 18 \<or> kmain_step h a (lone_step h a))"
proof -
  obtain pc p calm s where a: "a = (pc, p, calm, s)" by (cases a) auto
  show ?thesis
  proof (cases p)
    case (Stmt f k)
    obtain pc' p' where "goto h pc (k s) = (pc', p')" by fastforce
    then have "kmain_step h (pc, Stmt f k, calm, s) (lone_step h (pc, Stmt f k, calm, s))"
      using kmain_step.intros [of h pc k s pc' p' f calm] by simp
    then have "kmain_step h a (lone_step h a)" by (simp only: a Stmt)
    then show ?thesis by (simp add: kernel_step_def)
  next
    case (Return u)
    obtain n where "rest_ok h pc p calm n s" "system_inv h n (3 < pc) (9 < pc) (11 < pc \<and> calm) s"
      by (rule reachable_system [OF assms(1) [unfolded a] assms(2)])
    then have "running p = (pc < 18)" "pc \<le> 18" "interrupts s = (9 < pc)" by (simp_all add: rest_ok_def system_inv_def)
    then have i: "pc = 18" "interrupts s" by (simp_all add: Return)
    then show ?thesis using interrupt.timer [OF i(2), of h fuel pc p calm] by (simp add: a Return kernel_step_def)
  qed
qed

lemma lone_run_fair:
  assumes "link_ok h"
  shows "fair_run h fuel (lone_run h)" and "fst (snd (snd (lone_run h i)))"
proof -
  have s: "lone_run h (Suc i) = lone_step h (lone_run h i)" for i by (simp add: lone_run_def)
  have z: "lone_run h 0 = booting h (\<lambda>_. 0) 0x11 0" by (simp add: lone_run_def)
  have r: "reachable h fuel (lone_run h i)" for i
  proof (induction i)
    case (Suc i)
    then show ?case unfolding s using reachable.step lone_step_kernel [OF _ assms] by blast
  qed (simp add: z reachable.init)
  have "kernel_step h fuel (lone_run h i) (lone_run h (Suc i))"
    "fst (lone_run h i) = 18 \<or> kmain_step h (lone_run h i) (lone_run h (Suc i))" for i
    unfolding s using lone_step_kernel [OF r assms] by blast+
  then show "fair_run h fuel (lone_run h)" unfolding fair_run_def using z by blast
  have "fst (snd (snd (lone_step h (pc, p, calm, s)))) = calm" for pc p calm and s :: kernel
    by (cases p) (simp_all split: prod.split)
  then have "fst (snd (snd (lone_step h a))) = fst (snd (snd a))" for a by (cases a) simp
  then show "fst (snd (snd (lone_run h i)))"
    by (induction i) (simp_all only: s, simp add: z booting_def)
qed

theorem kernel_responsive_witness:
  "\<exists>i p s t. lone_run idle_board i = (18, p, True, s) \<and> keyboard_handler_main (net_poll idle_board 1) idle_board s = Some t"
proof -
  note f = lone_run_fair [OF link_ok_idle_board]
  note r = conjunct1 [OF kernel_responsive [OF f(1) link_ok_idle_board zero_less_one]]
    conjunct2 [OF kernel_responsive [OF f(1) link_ok_idle_board zero_less_one]]
  obtain N where N: "fst (lone_run idle_board N) = 18" using r(1) by blast
  obtain p s where a: "lone_run idle_board N = (18, p, True, s)"
    using N f(2) [of N] by (cases "lone_run idle_board N") simp
  have "quiet_after 0 idle_board (net_iobase s)"
    by (simp add: quiet_after_def idle_board_def RTL_CR_RXBUFEMPTY_def)
  then obtain t where "keyboard_handler_main (net_poll idle_board 1) idle_board s = Some t"
    using r(2) [rule_format, of N 18 p s] a by auto
  with a show ?thesis by blast
qed

section \<open>Interrupts before the file system is ready\<close>

text \<open>\<open>kmain\<close> enables interrupts two components too early: when \<open>idt_init\<close> returns, a key that is pressed
  can already run commands, but the file table has no root directory yet; what a command stores
  there is discarded by \<open>fs_init\<close>.\<close>

lemma start_files: "fs_table (start m c0 c3) = replicate 32 \<lparr>e_name = replicate 17 NUL, e_content = replicate 256 NUL,
    e_size = 0, e_type = FS_TYPE_NONE, e_parent = 0\<rparr>" "fs_cwd (start m c0 c3) = 0"
  by (simp_all add: start_def with_kernel_globals_def with_device_globals_def
      with_keyboard_globals_def with_net_globals_def fsys.defs netif.defs terminal.defs devices.defs kernel.defs)

lemma early_parts_files:
  assumes "pc < 11"
  shows "fs_table ((kmain_parts h ! pc) s) = fs_table s" "fs_cwd ((kmain_parts h ! pc) s) = fs_cwd s"
proof -
  have c: "fs_table (f s) = fs_table s \<and> fs_cwd (f s) = fs_cwd s" if "console_op f" for f :: "kernel \<Rightarrow> kernel"
    using console_op.unaffected [OF that, of fs_table s] console_op.unaffected [OF that, of fs_cwd s] by simp
  have "pc \<in> {0, 1, 2, 3, 4, 5, 6, 7, 8, 9, 10}" using assms by (simp, presburger)
  then have "fs_table ((kmain_parts h ! pc) s) = fs_table s \<and> fs_cwd ((kmain_parts h ! pc) s) = fs_cwd s"
    by (elim insertE emptyE; simp only: kmain_parts_def)
       (simp_all add: c console_op_kprint console_op_pit_init console_op_mouse_init paging_init_def swap_init_def pmm_init_def
          paging_tables_init_def Let_def idt_init_def set_gate_def load_idt_def write_port_def del: kprint.simps)
  then show "fs_table ((kmain_parts h ! pc) s) = fs_table s" "fs_cwd ((kmain_parts h ! pc) s) = fs_cwd s" by simp_all
qed

lemma reachable_early:
  assumes "link_ok h" and "n \<le> 11"
  obtains s where "reachable h fuel (n, call h n, True, s)" "fs_table s = fs_table (start m c0 c3)"
    "fs_cwd s = fs_cwd (start m c0 c3)"
proof -
  let ?s = "fold (\<lambda>f s. f s) (take n (kmain_parts h)) (start m c0 c3)"
  have "fs_table ?s = fs_table (start m c0 c3) \<and> fs_cwd ?s = fs_cwd (start m c0 c3)"
    using assms(2) by (induction n) (simp_all add: take_Suc_conv_app_nth early_parts_files)
  then show ?thesis using that reachable_call [OF assms(1), of n fuel m c0 c3] assms(2) by simp
qed

theorem interrupts_before_files:
  assumes "link_ok h"
  shows "\<exists>s. reachable h fuel (10, call h 10, True, s) \<and> interrupts s \<and> \<not> fs_inv s"
proof -
  obtain s where s: "reachable h fuel (10, call h 10, True, s)" "fs_table s = fs_table (start (\<lambda>_. 0) 0 0)"
    by (rule reachable_early [OF assms, of 10]) auto
  have "interrupts s" by (rule reachable_system [OF s(1) assms]) (simp add: system_inv_def)
  moreover have "\<not> fs_inv s" by (simp add: fs_inv_def s(2) start_files)
  ultimately show ?thesis using s by blast
qed

text \<open>Worse, a command can run in the middle of \<open>fs_init\<close>. Two directories that are created after entry 1 has been marked
  free and before its parent is cleared take entries 0 and 1; \<open>fs_init\<close> then turns entry 0 into the root, but
  leaves entry 1 a live directory without a parent, and the table is not a tree.\<close>

lemma run_prefix:
  "reachable h fuel (pc, after q r, calm, s) \<Longrightarrow> running (r (fst (run q s)))
     \<Longrightarrow> reachable h fuel (pc, r (fst (run q s)), calm, snd (run q s))"
proof (induction q arbitrary: s)
  case (Stmt f k)
  have "running (after (k s) r)"
  proof (cases "k s")
    case Return
    then show ?thesis using Stmt.prems(2) by simp
  qed simp
  then obtain g l where a: "after (k s) r = Stmt g l" by (cases "after (k s) r") auto
  then have "kmain_step h (pc, Stmt f (\<lambda>s. after (k s) r), calm, s) (pc, after (k s) r, calm, f s)"
    by (intro kmain_step.intros [where k = "\<lambda>s. after (k s) r"]) simp
  then have "reachable h fuel (pc, after (k s) r, calm, f s)"
    using reachable.step [OF Stmt.prems(1)] by (simp add: kernel_step_def)
  then show ?case using Stmt.IH [OF rangeI, of s "f s"] Stmt.prems(2) by simp
qed simp

definition orphan :: "kernel \<Rightarrow> bool" where
  "orphan s \<longleftrightarrow> length (fs_table s) = 32 \<and> e_type (fs_table s ! 1) = FS_TYPE_DIR \<and> e_parent (fs_table s ! 1) = FS_NULL_IDX"

lemma orphan_tree: "orphan s \<Longrightarrow> \<not> fs_inv s"
  by (auto simp: orphan_def fs_inv_def tree_ok_def live_def intro!: exI [of _ "1 :: nat"])

lemma run_orphan: "every (\<lambda>f. \<forall>s. orphan s \<longrightarrow> orphan (f s)) p \<Longrightarrow> orphan s \<Longrightarrow> orphan (snd (run p s))"
  by (induction p arbitrary: s) simp_all

definition rest_of_clear :: "(kernel, unit) prog list" where
  "rest_of_clear = map (\<lambda>j. stmt (upd_ent 1 (\<lambda>e. e\<lparr>e_name := (e_name e)[j := NUL]\<rparr>))) [0..<FS_MAX_NAME_LEN + 1]
      @ map (\<lambda>j. stmt (upd_ent 1 (\<lambda>e. e\<lparr>e_content := (e_content e)[j := NUL]\<rparr>))) [0..<FS_MAX_FILE_SIZE]"

definition rest_of_init :: "(kernel, unit) prog list" where
  "rest_of_init = map fs_clear_prog [2..<FS_MAX_ENTRIES]
      @ [stmt (upd_ent FS_ROOT_IDX (\<lambda>e. e\<lparr>e_type := FS_TYPE_DIR\<rparr>)),
         stmt (upd_ent FS_ROOT_IDX (\<lambda>e. e\<lparr>e_parent := FS_NULL_IDX\<rparr>)),
         stmt (upd_ent FS_ROOT_IDX (\<lambda>e. e\<lparr>e_name := (e_name e)[0 := NUL]\<rparr>)),
         stmt (\<lambda>s. s\<lparr>fs_cwd := FS_ROOT_IDX\<rparr>)]"

lemma fs_init_split:
  "fs_init_prog =
     after (after (fs_clear_prog 0) (\<lambda>_. after (stmt (upd_ent 1 (\<lambda>e. e\<lparr>e_type := FS_TYPE_NONE\<rparr>)))
       (\<lambda>_. stmt (upd_ent 1 (\<lambda>e. e\<lparr>e_size := 0\<rparr>)))))
     (\<lambda>_. after (stmt (upd_ent 1 (\<lambda>e. e\<lparr>e_parent := FS_NULL_IDX\<rparr>))) (\<lambda>_. after (block rest_of_clear) (\<lambda>_. block rest_of_init)))"
proof -
  have u: "[0..<FS_MAX_ENTRIES] = 0 # 1 # [2..<FS_MAX_ENTRIES]" by (simp add: FS_MAX_ENTRIES_def upt_conv_Cons numeral_2_eq_2)
  have "fs_init_prog = block (fs_clear_prog 0 # fs_clear_prog 1 # rest_of_init)"
    by (simp only: fs_init_prog_def u list.map append.simps rest_of_init_def)
  moreover have "fs_clear_prog 1 = block (stmt (upd_ent 1 (\<lambda>e. e\<lparr>e_type := FS_TYPE_NONE\<rparr>))
      # stmt (upd_ent 1 (\<lambda>e. e\<lparr>e_size := 0\<rparr>)) # stmt (upd_ent 1 (\<lambda>e. e\<lparr>e_parent := FS_NULL_IDX\<rparr>)) # rest_of_clear)"
    by (simp only: fs_clear_prog_def of_nat_1 append.simps rest_of_clear_def)
  ultimately show ?thesis by (simp add: after_after)
qed

lemma rest_keeps_orphan:
  "every (\<lambda>f. \<forall>s. orphan s \<longrightarrow> orphan (f s)) (after (block rest_of_clear) (\<lambda>_. block rest_of_init))"
proof -
  have one: "orphan (upd_ent 1 f s)" if "orphan s" "\<And>e. e_type (f e) = e_type e \<and> e_parent (f e) = e_parent e" for f s
    using that by (simp add: orphan_def)
  have other: "orphan (upd_ent i f s)" if "orphan s" "nat i \<noteq> 1" for i f s
    using that by (simp add: orphan_def)
  have cwd: "orphan s \<Longrightarrow> orphan (s\<lparr>fs_cwd := c\<rparr>)" for c s by (simp add: orphan_def)
  have "every (\<lambda>f. \<forall>s. orphan s \<longrightarrow> orphan (f s)) (fs_clear_prog i)" if "2 \<le> i" for i
    unfolding fs_clear_prog_def using that by (intro every_block) (auto intro!: other)
  then have "every (\<lambda>f. \<forall>s. orphan s \<longrightarrow> orphan (f s)) (block rest_of_init)"
    unfolding rest_of_init_def by (intro every_block) (auto intro!: other cwd)
  moreover have "every (\<lambda>f. \<forall>s. orphan s \<longrightarrow> orphan (f s)) (block rest_of_clear)"
    unfolding rest_of_clear_def by (intro every_block) (auto intro!: one)
  ultimately show ?thesis by (intro every_after)
qed

lemma two_dirs:
  assumes "length (fs_table u) = 32" and "\<forall>i<32. e_type (fs_table u ! i) = FS_TYPE_NONE"
    and "fs_cwd u = 0" and "e_name (fs_table u ! 0) = replicate 17 NUL"
  shows "length (fs_table (snd (fs_mkdir ''b'' (snd (fs_mkdir ''a'' u))))) = 32
    \<and> e_type (fs_table (snd (fs_mkdir ''b'' (snd (fs_mkdir ''a'' u)))) ! 1) = FS_TYPE_DIR"
proof -
  let ?v = "upd_ent 0 (\<lambda>e. e\<lparr>e_type := FS_TYPE_DIR, e_parent := fs_cwd u, e_size := 0,
                      e_name := fs_strncpy (e_name e) ''a'' FS_MAX_NAME_LEN\<rparr>) u"
  have "fs_find_in ''a'' (fs_cwd u) u = -1" "fs_alloc u = int 0"
    using assms(2) unfolding fs_find_in_def fs_alloc_def scan_none_iff scan_found_iff by (simp_all add: FS_MAX_ENTRIES_def)
  then have a: "snd (fs_mkdir ''a'' u) = ?v" by (simp add: fs_mkdir_def Let_def)
  have n: "e_name (fs_table ?v ! 0) = CHR ''a'' # replicate 16 NUL"
    using assms(1,4) by (simp add: fs_strncpy_def cpy_loop.simps FS_MAX_NAME_LEN_def numeral_eq_Suc)
  have "fs_find_in ''b'' (fs_cwd ?v) ?v = -1"
    unfolding fs_find_in_def scan_none_iff using assms n by (auto simp: FS_MAX_ENTRIES_def nth_list_update)
  moreover have "fs_alloc ?v = int 1"
    unfolding fs_alloc_def scan_found_iff using assms by (auto simp: FS_MAX_ENTRIES_def)
  ultimately show ?thesis using assms(1) unfolding a by (simp add: fs_mkdir_def Let_def)
qed

theorem mkdir_while_fs_init:
  assumes "link_ok h"
  shows "\<exists>p u. reachable h fuel (11, p, True, u) \<and> interrupts u
    \<and> \<not> fs_inv (snd (run p (snd (fs_mkdir ''b'' (snd (fs_mkdir ''a'' u))))))"
proof -
  obtain s where s: "reachable h fuel (11, call h 11, True, s)" "fs_table s = fs_table (start (\<lambda>_. 0) 0 0)" "fs_cwd s = 0"
    by (rule reachable_early [OF assms, of 11]) (auto simp: start_files)
  let ?q = "after (fs_clear_prog 0) (\<lambda>_. after (stmt (upd_ent 1 (\<lambda>e. e\<lparr>e_type := FS_TYPE_NONE\<rparr>)))
       (\<lambda>_. stmt (upd_ent 1 (\<lambda>e. e\<lparr>e_size := 0\<rparr>))))"
  let ?r = "after (stmt (upd_ent 1 (\<lambda>e. e\<lparr>e_parent := FS_NULL_IDX\<rparr>))) (\<lambda>_. after (block rest_of_clear) (\<lambda>_. block rest_of_init))"
  let ?u = "snd (run ?q s)"
  have "call h 11 = after ?q (\<lambda>_. ?r)" unfolding fs_init_split [symmetric] by (simp add: call_def kmain_calls_def)
  then have u: "reachable h fuel (11, ?r, True, ?u)" using run_prefix [of h fuel 11 ?q "\<lambda>_. ?r" True s] s(1) by simp
  have "interrupts ?u" by (rule reachable_system [OF u assms]) (simp add: system_inv_def)
  have e: "snd (run (fs_clear_prog 0) s) = upd_ent 0 cleared s"
    using run_fs_clear [of 0 s] by (simp add: s start_files)
  let ?w = "snd (fs_mkdir ''b'' (snd (fs_mkdir ''a'' ?u)))"
  have "length (fs_table ?w) = 32 \<and> e_type (fs_table ?w ! 1) = FS_TYPE_DIR"
    by (rule two_dirs) (auto simp: e s start_files cleared_def nth_list_update FS_MAX_NAME_LEN_def upd_ent_def)
  then have "orphan (upd_ent 1 (\<lambda>e. e\<lparr>e_parent := FS_NULL_IDX\<rparr>) ?w)" by (simp add: orphan_def)
  from orphan_tree [OF run_orphan [OF rest_keeps_orphan this]] have "\<not> fs_inv (snd (run ?r ?w))" by simp
  with u \<open>interrupts ?u\<close> show ?thesis by blast
qed

end
