(* ===== verification/Spec2Isabelle.thy ===== *)
theory Spec2Isabelle
  imports System
begin

text \<open>
  MOKernel: a model of the kernel's C code, and what it guarantees.

  \<^bold>\<open>The program.\<close> MOKernel is a 32-bit x86 kernel for one processor: \<open>kmain\<close> brings up paging, the
  timer, the mouse, the interrupt table, an in-memory file system and a small network stack, and then
  idles. Everything else happens in interrupt handlers: the keyboard handler is a line editor that
  runs commands, the commands work on the file system and the network card, the mouse handler moves an
  inverted cell over the text screen. All sources are under \<open>src/code/src\<close>.

  \<^bold>\<open>The model.\<close> The globals of the C program are one record that the theories extend, each by the
  globals of its component: \<open>machine\<close> (port trace, memory, cursor) \<open>< pmm < paging < swap < fsys < netif <
  terminal < devices < kernel\<close>. A C function is a function on the state, polymorphic in the extension;
  one that can fail returns a sum, an option or its integer code with the state. Fixed-width integers
  are words, so wrap-around is that of the code; array indices and lengths are naturals; \<open>int\<close> variables
  that stay small are integers. A \<open>char *\<close> is the list of the characters from the pointer on, with the
  old bytes behind the terminator. The hardware and the addresses the linker chooses are the parameter
  \<open>hw\<close> (theory Console): what a port read returns is a function of the trace of port accesses so far,
  so a theorem for all \<open>hw\<close> holds for every device behaviour.

  \<^item> Prelude: word types, C strings, the search loop of the tables, little-endian loads and stores, the
    contract of a bounded key table (locale \<open>bounded_table\<close>).
  \<^item> Console: \<open>read_port\<close>, \<open>write_port\<close> (\<open>start.asm\<close>), \<open>kprint\<close>, \<open>clear_screen\<close>, \<open>kprint_hex\<close> (\<open>kernel.c\<close>), \<open>kprint_dec\<close>,
    \<open>kprint_ip\<close>, \<open>kprint_mac\<close> (\<open>net.c\<close>). The locale \<open>console_op\<close> is what the rest of the kernel relies on:
    printing changes the trace, memory and the cursor only. CString: \<open>strcmp\<close>, \<open>strncmp\<close>.
  \<^item> Pmm (\<open>pmm.c\<close>), Paging (\<open>paging.c\<close>: tables, \<open>map_page\<close>, \<open>unmap_page\<close>, and the page walk of the processor),
    Swap (\<open>swap.c\<close> and the page-fault handler of \<open>paging.c\<close>).
  \<^item> Fs, Fs_Spec: every operation of \<open>fs.c\<close>; the table is a tree, creation and removal act on an abstract
    directory, \<open>pwd\<close> prints the path, reading returns what was written.
  \<^item> Net_Bytes, Nic, Arp, Ip, Ip_Spec: \<open>net.c\<close> and \<open>net.h\<close>. Byte order, checksum and address parsing; PCI,
    the RTL8139 driver with its receive ring; Ethernet and ARP; IPv4, ICMP, UDP and the poll loop. The
    C functions are mutually recursive through \<open>net_poll\<close>: everything takes the poll function as an
    argument, its contract is the locale \<open>poller\<close> (and \<open>returning_poller\<close>), and \<open>net_poll\<close> with a bound on
    frames and nesting is the instance. Two hosts connected by their frames show a ping answered.
  \<^item> Shell, Shell_Spec: \<open>execute_command\<close> of \<open>kernel.c\<close> with all its branches; the text of a file command
    runs that operation; what is behind the terminator has no effect (except for \<open>udp\<close>).
  \<^item> Keyboard, Keyboard_Spec, Editor, Typing: the keyboard handler of \<open>kernel.c\<close>. Editor states the line
    editor over strings and proves that the handler implements it; Typing goes from keys to the file
    system and shows that the screen spells the line being edited. The locales \<open>terminal_poller\<close> and
    \<open>returning_terminal\<close> extend those of the network stack.
  \<^item> Devices: timer, interval timer and PS/2 mouse of \<open>kernel.c\<close>.
  \<^item> Kernel: \<open>idt_init\<close>, \<open>load_idt\<close> and \<open>kmain\<close>.
  \<^item> Interruptible: programs as what is left to do, statement by statement, with the run that is not interrupted
    and what interruptions leave unchanged. Boot: the start-up in this form. \<open>fs_init\<close>, \<open>arp_cache_init\<close>, \<open>net_init\<close>
    with the PCI scan and the card's registers, \<open>kprint\<close> and the number printers are cut at every statement
    that accesses a global, memory or a port; each is proved to do, uninterrupted, what the function of the component
    does. \<open>kmain_calls\<close> is the list of the calls of \<open>kmain\<close>.
  \<^item> System: the kernel as a state machine. A step is the next statement of \<open>kmain\<close> or, between any two statements once
    \<open>idt_init\<close> has executed \<open>sti\<close>, a timer, keyboard or mouse interrupt. Proved are the invariant of all reachable
    configurations, that the start-up ends in every fair run, and that keyboard interrupts are served; and
    what goes wrong when commands run before or inside \<open>fs_init\<close>.

  \<^bold>\<open>Invariants and contracts.\<close> \<open>net_inv\<close>, \<open>fs_inv\<close>, \<open>kbd_inv\<close>, \<open>mouse_inv\<close>, \<open>swap_inv\<close>, \<open>pmm_inv\<close> and \<open>paging_inv\<close> say
  that the globals of a component are inside their arrays and consistent. \<open>net_step\<close>, \<open>shell_step\<close> and
  \<open>key_step\<close> are the contracts of the layers: what an operation of the layer may change, that the
  port trace only grows, and that the invariants are kept. A layer's lemmas use only the contract of the
  layer below.

  \<^bold>\<open>Bounds and fuel.\<close> Loops over a table or a counter are recursions with that bound: 32 file entries,
  100000 polls of a status register, 500000 and 2000000 polls while waiting for an answer. The walk up
  the directory tree is a partial function, shown total on well-formed tables. \<open>net_poll\<close> has a bound
  on the nesting of frames within frames; \<open>None\<close> is running out of it. \<open>net_poll_returns\<close>,
  \<open>keyboard_handler_terminates\<close> and \<open>kernel_responsive\<close> show that a bound above the number of frames that
  the card still delivers is enough. The C code itself has no bound: a card that always has one more
  frame keeps \<open>net_poll\<close> running, and the stack is 8 KB.

  \<^bold>\<open>Abstractions.\<close> A statement of the C code is atomic; the calls that \<open>kmain\<close> makes while interrupts are still
  disabled (\<open>paging_init\<close>, \<open>pit_init\<close>, \<open>mouse_init\<close>, \<open>idt_init\<close> up to its final \<open>sti\<close>) are one statement each. Handlers are
  atomic, which the interrupt gates guarantee: they run with interrupts disabled. \<open>net_mac\<close> and the
  constants are read once per call, since no handler changes them. A key that is handled while \<open>fs_init\<close> runs can
  break the file table (\<open>mkdir_while_fs_init\<close>), so what the System theory says of the file system from then on is
  for runs without one; everything else holds for all runs.
  Stores of the C code into the text page go to the memory of the model; the other globals are record fields.
  The cursor is not bounded by the code, so \<open>kprint\<close> stores at any address from the text page on; from offset \<open>0x48000\<close>
  on these are addresses of the kernel image, and the model does not show their effect on the other globals. \<open>kprint_within_screen\<close>
  gives the condition under which no store leaves the page. A copy with \<open>memcpy_n\<close> or \<open>memset_n\<close> beyond the end of the destination
  list has no effect in the model, while the C code would overwrite what follows; all copies of the program stay inside
  their arrays, which the length invariants of \<open>net_inv\<close> record. Memory accesses of the kernel itself are not
  translated, except in the swap store, where the address is not a fixed one; all the kernel's own addresses are
  below 4 MB, which \<open>kernel_address_space\<close> shows to be mapped to itself. Local arrays without an
  initialiser start as zeros; every byte of them that is sent is written first. The uninitialised data
  segment starts as zeros.
  What the PCI configuration ports return is, as for every port, a function of the trace; no meaning is assumed for the
  byte-wise writes of \<open>pci_outl\<close>. \<open>net_init_result\<close> states what follows when they do not select a register, as the
  PCI specification says (\<open>dword_latch\<close>).

  \<^bold>\<open>Not modelled.\<close> The assembly stubs (they save registers and call the handlers), the boot sector, the
  linker script, the build and run scripts and the prebuilt images. The card, the mouse, the keyboard
  controller and the interrupt controllers are the parameter \<open>hw\<close>: what is sent to them is proved, what
  they do with it is not. The contents of the receive buffer are a function of the trace.
\<close>

end
